(* ===== verification/Netudp_Prelude.thy ===== *)
theory Netudp_Prelude
  imports Complex_Main "HOL-Library.Word"
begin

text \<open>
  Shared vocabulary of the development: the machine integers of the source as words, byte
  arrays as lists of bytes, little-endian \<^verbatim>\<open>memcpy\<close> of integers, 16-bit sequence
  arithmetic, and the generic list and word lemmas the component theories rest on.

  Conventions of the whole development.
  \<^item> \<^verbatim>\<open>uint8_t .. uint64_t\<close> are words of that width; \<open>+\<close> and \<open>-\<close> wrap as in C.
  \<^item> A byte array together with its length field is one list of bytes.
  \<^item> \<^verbatim>\<open>memcpy\<close> of an integer to or from a byte buffer is little-endian (every platform
    the code supports is).
  \<^item> \<^verbatim>\<open>double\<close> time values are reals: rounding, NaN and infinities are not represented.
\<close>

unbundle bit_operations_syntax

type_synonym byte = "8 word"
type_synonym u16 = "16 word"
type_synonym u32 = "32 word"
type_synonym u64 = "64 word"

named_theorems le_simps "little-endian codec lengths and round trips"
named_theorems buf_simps "reads and writes of byte buffers"

section \<open>Little-endian integers\<close>

definition le_bytes :: "nat \<Rightarrow> 'a::len word \<Rightarrow> byte list" where
  "le_bytes n w = map (\<lambda>i. ucast (drop_bit (8 * i) w)) [0..<n]"

fun of_le :: "byte list \<Rightarrow> 'a::len word" where
  "of_le [] = 0"
| "of_le (b # bs) = ucast b OR push_bit 8 (of_le bs)"

lemma length_le_bytes [simp, le_simps]: "length (le_bytes n w) = n"
  by (simp add: le_bytes_def)

lemma nth_le_bytes: "i < n \<Longrightarrow> le_bytes n w ! i = ucast (drop_bit (8 * i) w)"
  by (simp add: le_bytes_def)

lemma bit_of_le:
  "bit (of_le bs :: 'a::len word) i \<longleftrightarrow>
     i < LENGTH('a) \<and> i div 8 < length bs \<and> bit (bs ! (i div 8)) (i mod 8)"
proof (induction bs arbitrary: i)
  case Nil
  then show ?case by simp
next
  case (Cons b bs)
  show ?case
  proof (cases "i < 8")
    case True
    then have "i div 8 = 0" "i mod 8 = i" by simp_all
    with True show ?thesis
      by (simp add: bit_or_iff bit_ucast_iff bit_push_bit_iff)
  next
    case False
    then obtain j where j: "i = 8 + j"
      by (metis le_iff_add not_less)
    have "\<not> bit b (8 + j)"
      using bit_imp_le_length [of b "8 + j"] by auto
    then show ?thesis
      unfolding j by (simp add: bit_or_iff bit_ucast_iff bit_push_bit_iff Cons.IH) auto
  qed
qed

lemma of_le_le_bytes [simp, le_simps]:
  assumes "LENGTH('a::len) \<le> 8 * n"
  shows "of_le (le_bytes n w) = (w :: 'a word)"
proof (rule bit_word_eqI)
  fix i
  assume i: "i < LENGTH('a)"
  then have "i div 8 < n"
    using assms by linarith
  moreover have "8 * (i div 8) + i mod 8 = i"
    by simp
  ultimately show "bit (of_le (le_bytes n w) :: 'a word) i = bit w i"
    using i mod_less_divisor [of 8 i]
    by (simp add: bit_of_le nth_le_bytes bit_ucast_iff bit_drop_bit_eq add.commute del: mod_less_divisor)
qed

lemma le_bytes_of_le [simp, le_simps]:
  assumes "length bs = n" and "8 * n \<le> LENGTH('a::len)"
  shows "le_bytes n (of_le bs :: 'a word) = bs"
proof (rule nth_equalityI)
  show "length (le_bytes n (of_le bs :: 'a word)) = length bs"
    using assms by simp
next
  fix i
  assume "i < length (le_bytes n (of_le bs :: 'a word))"
  then have i: "i < n" by simp
  show "le_bytes n (of_le bs :: 'a word) ! i = bs ! i"
  proof (rule bit_word_eqI)
    fix j
    assume j: "j < LENGTH(8)"
    then have j': "j < 8" by simp
    have "(8 * i + j) div 8 = i" "(8 * i + j) mod 8 = j"
      using j' by simp_all
    moreover have "8 * i + j < LENGTH('a)"
      using i j' assms by linarith
    ultimately show "bit (le_bytes n (of_le bs :: 'a word) ! i) j = bit (bs ! i) j"
      using i j j' assms
      by (simp add: nth_le_bytes bit_ucast_iff bit_drop_bit_eq bit_of_le add.commute)
  qed
qed

lemma le_bytes_inject [le_simps]:
  assumes "LENGTH('a::len) \<le> 8 * n"
  shows "le_bytes n v = le_bytes n w \<longleftrightarrow> v = (w :: 'a word)"
  using of_le_le_bytes [OF assms] by metis

section \<open>Byte buffers\<close>

text \<open>\<^verbatim>\<open>memcpy(buf + pos, xs, len)\<close> and the read of \<open>n\<close> bytes at \<open>buf + pos\<close>.\<close>

definition write_at :: "nat \<Rightarrow> 'a list \<Rightarrow> 'a list \<Rightarrow> 'a list" where
  "write_at pos xs buf = take pos buf @ xs @ drop (pos + length xs) buf"

definition read_at :: "nat \<Rightarrow> nat \<Rightarrow> 'a list \<Rightarrow> 'a list" where
  "read_at pos n buf = take n (drop pos buf)"

lemma length_write_at [simp, buf_simps]:
  "pos + length xs \<le> length buf \<Longrightarrow> length (write_at pos xs buf) = length buf"
  by (simp add: write_at_def)

lemma length_read_at [simp, buf_simps]:
  "pos + n \<le> length buf \<Longrightarrow> length (read_at pos n buf) = n"
  by (simp add: read_at_def)

lemma read_write_same [simp, buf_simps]:
  "pos + length xs \<le> length buf \<Longrightarrow> n = length xs \<Longrightarrow> read_at pos n (write_at pos xs buf) = xs"
  by (simp add: read_at_def write_at_def)

lemma nth_write_at:
  assumes "pos + length xs \<le> length buf" and "i < length buf"
  shows "write_at pos xs buf ! i =
    (if pos \<le> i \<and> i < pos + length xs then xs ! (i - pos) else buf ! i)"
  using assms by (auto simp: write_at_def nth_append min_def)

lemma read_at_eqI:
  assumes "length buf = length buf'" and "\<And>i. pos \<le> i \<Longrightarrow> i < pos + n \<Longrightarrow> i < length buf \<Longrightarrow> buf ! i = buf' ! i"
  shows "read_at pos n buf = read_at pos n buf'"
  using assms by (auto simp: read_at_def intro!: nth_equalityI)

lemma read_write_other [buf_simps]:
  assumes "pos + length xs \<le> length buf" and "p + n \<le> pos \<or> pos + length xs \<le> p"
  shows "read_at p n (write_at pos xs buf) = read_at p n buf"
  by (rule read_at_eqI) (use assms in \<open>auto simp: nth_write_at\<close>)

section \<open>Sequence numbers\<close>

text \<open>\<^verbatim>\<open>static_cast<int16_t>(a - b)\<close> on 16-bit sequence numbers.\<close>

definition seq_diff :: "u16 \<Rightarrow> u16 \<Rightarrow> int" where
  "seq_diff a b = sint (a - b)"

lemma seq_diff_self [simp]: "seq_diff a a = 0"
  by (simp add: seq_diff_def)

lemma seq_diff_eq_0 [simp]: "seq_diff a b = 0 \<longleftrightarrow> a = b"
  using signed_eq_0_iff [of "a - b"] by (simp add: seq_diff_def)

lemma of_int_seq_diff: "of_int (seq_diff a b) = a - b"
  by (simp add: seq_diff_def)

text \<open>
  Wrapped counters: as long as two unwrapped counters are less than \<open>2 ^ 15\<close> apart, the
  16-bit difference is their true difference.
\<close>

lemma seq_diff_of_int:
  assumes "- 32768 \<le> x - y" and "x - y < 32768"
  shows "seq_diff (of_int x) (of_int y) = x - y"
proof -
  have "seq_diff (of_int x) (of_int y) = sint (word_of_int (x - y) :: u16)"
    by (simp add: seq_diff_def)
  also have "\<dots> = signed_take_bit 15 (x - y)"
    unfolding sint_sbintrunc' by simp
  also have "\<dots> = x - y"
    using assms by (intro signed_take_bit_int_eq_self) simp_all
  finally show ?thesis .
qed

lemma seq_diff_of_nat:
  assumes "int a - int b < 32768" and "- 32768 \<le> int a - int b"
  shows "seq_diff (of_nat a) (of_nat b) = int a - int b"
  using seq_diff_of_int [of "int a" "int b"] assms by simp

lemma mod_eq_near:
  fixes a b n :: nat
  assumes "a mod n = b mod n" and "a < b + n" and "b < a + n"
  shows "a = b"
proof -
  have "a mod n = b mod n \<Longrightarrow> a \<le> b \<Longrightarrow> b < a + n \<Longrightarrow> a = b" for a b
    using mod_eq_dvd_iff_nat [of a b n] by (auto dest: dvd_imp_le)
  then show ?thesis
    using assms by (metis nat_le_linear)
qed

lemma of_nat_u16_eq:
  assumes "of_nat a = (of_nat b :: u16)" and "a < b + 65536" and "b < a + 65536"
  shows "a = b"
proof -
  have "a mod 65536 = b mod 65536"
    using assms(1) by (simp add: word_of_nat_eq_iff take_bit_eq_mod)
  then show ?thesis
    using assms(2,3) by (rule mod_eq_near)
qed

lemma unat_diff_Suc_less:
  fixes s a :: "'a::len word"
  assumes "a \<noteq> s"
  shows "unat (s - (a + 1)) < unat (s - a)"
proof -
  have "s - a \<noteq> 0" using assms by simp
  then have "unat (s - a - 1) = unat (s - a) - 1" "0 < unat (s - a)"
    using unat_minus_one [of "s - a"] by (auto simp: unat_gt_0)
  then show ?thesis by (simp add: diff_diff_eq)
qed

section \<open>Power-of-two capacities\<close>

text \<open>
  The containers index with \<^verbatim>\<open>i & (N - 1)\<close> under the static assertion
  \<^verbatim>\<open>N > 0 && (N & (N - 1)) == 0\<close>. The assertion makes \<open>N\<close> a power of two, and the mask
  is then the remainder.
\<close>

definition pow2_capacity :: "nat \<Rightarrow> bool" where
  "pow2_capacity N \<longleftrightarrow> 0 < N \<and> N AND (N - 1) = 0"

definition mask_index :: "nat \<Rightarrow> nat \<Rightarrow> nat" where
  "mask_index N i = i AND (N - 1)"

lemma pow2_capacity_power: "pow2_capacity (2 ^ k)"
proof -
  have "(2::nat) ^ k AND (2 ^ k - 1) = take_bit k (2 ^ k)"
    by (simp add: take_bit_eq_mask mask_eq_exp_minus_1)
  then show ?thesis by (simp add: pow2_capacity_def take_bit_eq_mod)
qed

lemma pow2_capacity_ex: "pow2_capacity N \<Longrightarrow> \<exists>k. N = 2 ^ k"
proof (induction N rule: less_induct)
  case (less N)
  show ?case
  proof (cases "even N")
    case True
    then obtain M where M: "N = 2 * M" by blast
    with less.prems have "0 < M" by (simp add: pow2_capacity_def)
    have "2 * M - 1 = 2 * (M - 1) + 1"
      using \<open>0 < M\<close> by simp
    then have "N AND (N - 1) = 2 * (M AND (M - 1))"
      using M by (subst and_nat_rec) simp
    with less.prems \<open>0 < M\<close> have "pow2_capacity M"
      by (simp add: pow2_capacity_def)
    with M \<open>0 < M\<close> obtain k where "M = 2 ^ k"
      using less.IH [of M] by auto
    with M have "N = 2 ^ Suc k" by simp
    then show ?thesis by blast
  next
    case False
    then obtain M where M: "N = 2 * M + 1"
      using oddE by blast
    then have "N AND (N - 1) = 2 * M"
      by (subst and_nat_rec) simp
    with less.prems M have "N = 2 ^ 0"
      by (simp add: pow2_capacity_def)
    then show ?thesis by blast
  qed
qed

lemma mask_index_mod:
  assumes "pow2_capacity N"
  shows "mask_index N i = i mod N"
proof -
  obtain k where "N = 2 ^ k"
    using pow2_capacity_ex [OF assms] by blast
  then have "mask_index N i = take_bit k i"
    by (simp add: mask_index_def take_bit_eq_mask mask_eq_exp_minus_1)
  with \<open>N = 2 ^ k\<close> show ?thesis by (simp add: take_bit_eq_mod)
qed

lemma mask_index_less [simp]: "pow2_capacity N \<Longrightarrow> mask_index N i < N"
  by (simp add: mask_index_mod pow2_capacity_def)

end
