(* ===== verification/Ring_Buffer.thy ===== *)
theory Ring_Buffer
  imports Netudp_Prelude
begin

text \<open>
  The bounded FIFO queues of the program. \<^verbatim>\<open>core/ring_buffer.h\<close> is the fixed ring the
  channels and the delivery queue use; the pipeline queue of \<^verbatim>\<open>server.cpp\<close> is a second
  ring, with a head and a tail index and one slot kept free. Both implement one contract,
  the locale \<open>bounded_fifo\<close>: a list with a bound, pushed at the back and popped at the front.
\<close>

section \<open>The contract of a bounded FIFO queue\<close>

locale bounded_fifo =
  fixes push :: "'a \<Rightarrow> 'q \<Rightarrow> bool \<times> 'q"
    and pop :: "'q \<Rightarrow> 'a option \<times> 'q"
    and items :: "'q \<Rightarrow> 'a list"
    and cap :: "'q \<Rightarrow> nat"
    and ok :: "'q \<Rightarrow> bool"
  assumes push_accepts: "ok q \<Longrightarrow> length (items q) < cap q \<Longrightarrow>
      fst (push x q) \<and> items (snd (push x q)) = items q @ [x]"
    and push_rejects: "ok q \<Longrightarrow> cap q \<le> length (items q) \<Longrightarrow> push x q = (False, q)"
    and pop_empty: "ok q \<Longrightarrow> items q = [] \<Longrightarrow> pop q = (None, q)"
    and pop_front: "ok q \<Longrightarrow> items q = y # ys \<Longrightarrow> fst (pop q) = Some y \<and> items (snd (pop q)) = ys"
    and push_ok: "ok q \<Longrightarrow> ok (snd (push x q))"
    and pop_ok: "ok q \<Longrightarrow> ok (snd (pop q))"
    and push_cap: "ok q \<Longrightarrow> cap (snd (push x q)) = cap q"
    and pop_cap: "ok q \<Longrightarrow> cap (snd (pop q)) = cap q"
    and items_bound: "ok q \<Longrightarrow> length (items q) \<le> cap q"

text \<open>
  A run of a queue: the operations in the order the program performs them, with the
  elements the queue accepted and the elements it handed out.
\<close>

datatype 'a fifo_op = Push 'a | Pop

fun fifo_run ::
    "('a \<Rightarrow> 'q \<Rightarrow> bool \<times> 'q) \<Rightarrow> ('q \<Rightarrow> 'a option \<times> 'q) \<Rightarrow> 'a fifo_op list \<Rightarrow> 'q \<Rightarrow> 'a list \<times> 'a list \<times> 'q"
  where
  "fifo_run push pop [] q = ([], [], q)"
| "fifo_run push pop (Push x # ops) q =
     (let (b, q1) = push x q; (ins, outs, q2) = fifo_run push pop ops q1
      in (if b then x # ins else ins, outs, q2))"
| "fifo_run push pop (Pop # ops) q =
     (let (r, q1) = pop q; (ins, outs, q2) = fifo_run push pop ops q1
      in (ins, (case r of None \<Rightarrow> outs | Some y \<Rightarrow> y # outs), q2))"

context bounded_fifo
begin

lemma push_cases:
  assumes "ok q"
  obtains (accept) q' where "push x q = (True, q')" "ok q'" "items q' = items q @ [x]" "cap q' = cap q"
  | (reject) "push x q = (False, q)"
proof (cases "length (items q) < cap q")
  case True
  obtain b q' where "push x q = (b, q')" by fastforce
  then show ?thesis
    using accept [of q'] push_accepts [OF assms True, of x] push_ok [OF assms, of x] push_cap [OF assms, of x]
    by simp
next
  case False
  with assms show ?thesis
    using reject push_rejects by simp
qed

lemma pop_cases:
  assumes "ok q"
  obtains (empty) "pop q = (None, q)" "items q = []"
  | (item) y ys q' where "pop q = (Some y, q')" "ok q'" "items q = y # ys" "items q' = ys" "cap q' = cap q"
proof (cases "items q")
  case Nil
  with assms show ?thesis
    using empty pop_empty by simp
next
  case (Cons y ys)
  obtain r q' where "pop q = (r, q')" by fastforce
  then show ?thesis
    using item [of y q' ys] pop_front [OF assms Cons] pop_ok [OF assms] pop_cap [OF assms] Cons
    by simp
qed

lemma run_fifo:
  assumes "ok q" and "fifo_run push pop ops q = (ins, outs, q')"
  shows "ok q' \<and> cap q' = cap q \<and> items q @ ins = outs @ items q'"
  using assms
proof (induction ops arbitrary: q ins outs q')
  case Nil
  then show ?case by simp
next
  case (Cons op ops)
  show ?case
  proof (cases op)
    case (Push x)
    from Cons.prems(1) show ?thesis
    proof (cases rule: push_cases [of q x])
      case (accept q1)
      obtain ins1 outs1 q2 where r: "fifo_run push pop ops q1 = (ins1, outs1, q2)"
        by (cases "fifo_run push pop ops q1") auto
      then show ?thesis
        using Cons.IH [OF \<open>ok q1\<close> r] Cons.prems Push accept by auto
    next
      case reject
      then show ?thesis
        using Cons Push by (auto split: prod.splits)
    qed
  next
    case Pop
    from Cons.prems(1) show ?thesis
    proof (cases rule: pop_cases)
      case empty
      then show ?thesis
        using Cons.IH [OF Cons.prems(1)] Cons.prems Pop by (auto split: prod.splits)
    next
      case (item y ys q1)
      obtain ins1 outs1 q2 where r: "fifo_run push pop ops q1 = (ins1, outs1, q2)"
        by (cases "fifo_run push pop ops q1") auto
      then show ?thesis
        using Cons.IH [OF \<open>ok q1\<close> r] Cons.prems Pop item by auto
    qed
  qed
qed

end

section \<open>FixedRingBuffer\<close>

text \<open>\<open>rb_data\<close> has \<open>N\<close> entries; \<open>T{}\<close>, the value a popped slot is reset to, is an argument.\<close>

record 'a FixedRingBuffer =
  rb_data :: "'a list"
  rb_head :: nat
  rb_size :: nat

abbreviation rb_cap :: "'a FixedRingBuffer \<Rightarrow> nat" where
  "rb_cap rb \<equiv> length (rb_data rb)"

definition rb_new :: "nat \<Rightarrow> 'a \<Rightarrow> 'a FixedRingBuffer" where
  "rb_new N dflt = \<lparr>rb_data = replicate N dflt, rb_head = 0, rb_size = 0\<rparr>"

definition push_back :: "'a \<Rightarrow> 'a FixedRingBuffer \<Rightarrow> bool \<times> 'a FixedRingBuffer" where
  "push_back item rb =
     (if rb_size rb = rb_cap rb then (False, rb)
      else (True, rb\<lparr>rb_data := (rb_data rb)[mask_index (rb_cap rb) (rb_head rb + rb_size rb) := item],
                     rb_size := rb_size rb + 1\<rparr>))"

definition pop_front :: "'a \<Rightarrow> 'a FixedRingBuffer \<Rightarrow> 'a option \<times> 'a FixedRingBuffer" where
  "pop_front dflt rb =
     (if rb_size rb = 0 then (None, rb)
      else (Some (rb_data rb ! rb_head rb),
            rb\<lparr>rb_data := (rb_data rb)[rb_head rb := dflt],
               rb_head := mask_index (rb_cap rb) (rb_head rb + 1),
               rb_size := rb_size rb - 1\<rparr>))"

definition rb_get :: "'a FixedRingBuffer \<Rightarrow> nat \<Rightarrow> 'a" where
  "rb_get rb index = rb_data rb ! mask_index (rb_cap rb) (rb_head rb + index)"

definition rb_set :: "'a FixedRingBuffer \<Rightarrow> nat \<Rightarrow> 'a \<Rightarrow> 'a FixedRingBuffer" where
  "rb_set rb index x = rb\<lparr>rb_data := (rb_data rb)[mask_index (rb_cap rb) (rb_head rb + index) := x]\<rparr>"

definition rb_clear :: "'a \<Rightarrow> 'a FixedRingBuffer \<Rightarrow> 'a FixedRingBuffer" where
  "rb_clear dflt rb = \<lparr>rb_data = replicate (rb_cap rb) dflt, rb_head = 0, rb_size = 0\<rparr>"

text \<open>The queue a ring represents, front first, and the ring's well-formedness.\<close>

definition rb_items :: "'a FixedRingBuffer \<Rightarrow> 'a list" where
  "rb_items rb = map (rb_get rb) [0..<rb_size rb]"

definition rb_ok :: "'a FixedRingBuffer \<Rightarrow> bool" where
  "rb_ok rb \<longleftrightarrow> pow2_capacity (rb_cap rb) \<and> rb_head rb < rb_cap rb \<and> rb_size rb \<le> rb_cap rb"

lemma length_rb_items [simp]: "length (rb_items rb) = rb_size rb"
  by (simp add: rb_items_def)

lemma rb_okD:
  assumes "rb_ok rb"
  shows "pow2_capacity (rb_cap rb)" "rb_head rb < rb_cap rb" "rb_size rb \<le> rb_cap rb"
  using assms by (simp_all add: rb_ok_def)

lemma nth_rb_items: "i < rb_size rb \<Longrightarrow> rb_items rb ! i = rb_get rb i"
  by (simp add: rb_items_def)

lemma mod_add_cancel_less:
  fixes h i j n :: nat
  assumes "(h + i) mod n = (h + j) mod n" and "i < n" and "j < n"
  shows "i = j"
  using mod_eq_near [OF assms(1)] assms(2,3) by simp

lemma mask_index_inj:
  assumes "rb_ok rb" and "i < rb_cap rb" and "j < rb_cap rb"
  shows "mask_index (rb_cap rb) (rb_head rb + i) = mask_index (rb_cap rb) (rb_head rb + j) \<longleftrightarrow> i = j"
  using assms mod_add_cancel_less [of "rb_head rb" i "rb_cap rb" j]
  by (auto simp: rb_ok_def mask_index_mod)

lemma rb_get_set:
  assumes "rb_ok rb" and "i < rb_cap rb" and "j < rb_cap rb"
  shows "rb_get (rb_set rb i x) j = (if i = j then x else rb_get rb j)"
  using assms mask_index_inj [OF assms] mask_index_less [OF rb_okD(1) [OF assms(1)]]
  by (auto simp: rb_get_def rb_set_def)

lemma rb_items_set:
  assumes "rb_ok rb" and "i < rb_size rb"
  shows "rb_items (rb_set rb i x) = (rb_items rb)[i := x]"
proof (rule nth_equalityI)
  show "length (rb_items (rb_set rb i x)) = length ((rb_items rb)[i := x])"
    by (simp add: rb_set_def)
next
  fix j
  assume "j < length (rb_items (rb_set rb i x))"
  then have j: "j < rb_size rb" by (simp add: rb_set_def)
  moreover have "rb_size (rb_set rb i x) = rb_size rb" by (simp add: rb_set_def)
  ultimately show "rb_items (rb_set rb i x) ! j = (rb_items rb)[i := x] ! j"
    using assms rb_okD(3) [OF assms(1)] by (simp add: nth_rb_items rb_get_set nth_list_update)
qed

lemma rb_set_ok [simp]: "rb_ok (rb_set rb i x) = rb_ok rb"
  by (simp add: rb_ok_def rb_set_def)

lemma rb_set_cap [simp]: "rb_cap (rb_set rb i x) = rb_cap rb"
  by (simp add: rb_set_def)

lemma push_back_eq_set:
  "rb_size rb \<noteq> rb_cap rb \<Longrightarrow> push_back item rb = (True, (rb_set rb (rb_size rb) item)\<lparr>rb_size := rb_size rb + 1\<rparr>)"
  by (simp add: push_back_def rb_set_def)

lemma rb_get_size_upd [simp]: "rb_get (rb\<lparr>rb_size := n\<rparr>) i = rb_get rb i"
  by (simp add: rb_get_def)

lemma rb_items_push:
  assumes "rb_ok rb" and "rb_size rb < rb_cap rb"
  shows "rb_items (snd (push_back item rb)) = rb_items rb @ [item]"
proof (rule nth_equalityI)
  show "length (rb_items (snd (push_back item rb))) = length (rb_items rb @ [item])"
    using assms by (simp add: push_back_def)
next
  fix j
  assume "j < length (rb_items (snd (push_back item rb)))"
  then have "j < rb_size rb + 1"
    using assms by (simp add: push_back_def)
  then show "rb_items (snd (push_back item rb)) ! j = (rb_items rb @ [item]) ! j"
    using assms rb_get_set [OF assms(1), of "rb_size rb" j item]
    by (auto simp: nth_rb_items push_back_eq_set nth_append less_Suc_eq)
qed

lemma rb_items_pop:
  assumes "rb_ok rb" and "rb_size rb \<noteq> 0"
  shows "rb_items rb = rb_data rb ! rb_head rb # rb_items (snd (pop_front dflt rb))"
proof (rule nth_equalityI)
  let ?N = "rb_cap rb" and ?rb = "snd (pop_front dflt rb)"
  show "length (rb_items rb) = length (rb_data rb ! rb_head rb # rb_items ?rb)"
    using assms by (simp add: pop_front_def)
  fix j
  assume "j < length (rb_items rb)"
  then have j: "j < rb_size rb" by simp
  have ok: "pow2_capacity ?N" "rb_head rb < ?N" "rb_size rb \<le> ?N"
    using rb_okD [OF assms(1)] by simp_all
  show "rb_items rb ! j = (rb_data rb ! rb_head rb # rb_items ?rb) ! j"
  proof (cases j)
    case 0
    with j ok show ?thesis
      by (simp add: nth_rb_items rb_get_def mask_index_mod)
  next
    case (Suc i)
    have "mask_index ?N (rb_head rb + Suc i) \<noteq> rb_head rb"
      using mod_add_cancel_less [of "rb_head rb" "Suc i" ?N 0] Suc j ok
      by (cases "rb_data rb = []") (auto simp: mask_index_mod)
    moreover have "mask_index ?N (mask_index ?N (rb_head rb + 1) + i) = mask_index ?N (rb_head rb + Suc i)"
      using ok by (simp add: mask_index_mod mod_simps)
    ultimately show ?thesis
      using Suc j assms(2) by (simp add: nth_rb_items rb_get_def pop_front_def)
  qed
qed

lemma push_back_ok: "rb_ok rb \<Longrightarrow> rb_ok (snd (push_back item rb))"
  by (auto simp: rb_ok_def push_back_def)

lemma pop_front_ok: "rb_ok rb \<Longrightarrow> rb_ok (snd (pop_front dflt rb))"
  by (auto simp: rb_ok_def pop_front_def)

lemma push_back_cap [simp]: "rb_cap (snd (push_back item rb)) = rb_cap rb"
  by (simp add: push_back_def)

lemma pop_front_cap [simp]: "rb_cap (snd (pop_front dflt rb)) = rb_cap rb"
  by (simp add: pop_front_def)

lemma rb_new_ok: "pow2_capacity N \<Longrightarrow> rb_ok (rb_new N dflt)"
  by (simp add: rb_ok_def rb_new_def pow2_capacity_def)

lemma rb_items_new [simp]: "rb_items (rb_new N dflt) = []"
  by (simp add: rb_items_def rb_new_def)

lemma rb_clear_new: "rb_clear dflt rb = rb_new (rb_cap rb) dflt"
  by (simp add: rb_clear_def rb_new_def)

interpretation ring: bounded_fifo push_back "pop_front dflt" rb_items "\<lambda>rb. length (rb_data rb)" rb_ok
proof (unfold_locales, goal_cases)
  case (1 q x)
  then show ?case
    using rb_items_push [of q x] by (simp add: push_back_eq_set)
next
  case (2 q x)
  then show ?case by (simp add: push_back_def rb_ok_def)
next
  case (3 q)
  then show ?case by (simp add: pop_front_def rb_items_def)
next
  case (4 q y ys)
  then have "rb_size q \<noteq> 0"
    using length_rb_items [of q] by force
  with 4 show ?case
    using rb_items_pop [of q dflt] by (auto simp: pop_front_def)
next
  case (5 q x)
  then show ?case by (rule push_back_ok)
next
  case (6 q)
  then show ?case by (rule pop_front_ok)
next
  case (7 q x)
  show ?case by simp
next
  case (8 q)
  show ?case by simp
next
  case (9 q)
  then show ?case by (simp add: rb_ok_def)
qed

end
