(* ===== verification/Packet_Tracker.thy ===== *)
theory Packet_Tracker
  imports Netudp_Prelude
begin

text \<open>
  \<^verbatim>\<open>reliability/packet_tracker.h\<close>: packet sequence numbers, the acknowledgement fields a
  receiver builds from the packets it saw, and the sender's processing of those fields.
  The lemmas show that the fields report exactly the packets received at a distance below
  32 of the newest one, that a sender marks a packet acknowledged only if the peer received
  it, and that the count and the window edge a sender computes are right.
\<close>

section \<open>State and operations\<close>

record AckFields =
  ack :: u16
  ack_bits :: u32
  ack_delay_us :: u16

record SentPacketRecord =
  send_time :: real
  sequence :: u16
  acked :: bool

definition PACKET_WINDOW_SIZE :: nat where
  "PACKET_WINDOW_SIZE = 33"

record PacketTracker =
  send_sequence :: u16
  oldest_unacked :: u16
  recv_ack :: u16
  recv_ack_bits :: u32
  recv_time :: real
  received_any :: bool
  sent :: "SentPacketRecord list"

definition no_packet :: SentPacketRecord where
  "no_packet = \<lparr>send_time = 0, sequence = 0, acked = False\<rparr>"

definition tracker_reset :: PacketTracker where
  "tracker_reset = \<lparr>send_sequence = 0, oldest_unacked = 0, recv_ack = 0, recv_ack_bits = 0,
     recv_time = 0, received_any = False, sent = replicate PACKET_WINDOW_SIZE no_packet\<rparr>"

definition slot_of :: "u16 \<Rightarrow> nat" where
  "slot_of seq = unat seq mod PACKET_WINDOW_SIZE"

definition send_packet :: "real \<Rightarrow> PacketTracker \<Rightarrow> u16 \<times> PacketTracker" where
  "send_packet time t =
     (let seq = send_sequence t
      in (seq, t\<lparr>send_sequence := seq + 1,
                 sent := (sent t)[slot_of seq := \<lparr>send_time = time, sequence = seq, acked = False\<rparr>]\<rparr>))"

definition is_window_full :: "PacketTracker \<Rightarrow> bool" where
  "is_window_full t \<longleftrightarrow> PACKET_WINDOW_SIZE \<le> unat (send_sequence t - oldest_unacked t)"

definition on_packet_received :: "u16 \<Rightarrow> real \<Rightarrow> PacketTracker \<Rightarrow> PacketTracker" where
  "on_packet_received seq time t =
     (if \<not> received_any t then t\<lparr>recv_ack := seq, recv_time := time, received_any := True\<rparr>
      else let diff = seq_diff seq (recv_ack t) in
        if 0 < diff then
          let shift = nat diff in
          t\<lparr>recv_ack_bits := (if shift < 32 then push_bit shift (recv_ack_bits t) OR push_bit (shift - 1) 1 else 0),
            recv_ack := seq, recv_time := time\<rparr>
        else if diff < 0 \<and> - 32 < diff then
          t\<lparr>recv_ack_bits := recv_ack_bits t OR push_bit (nat (- diff) - 1) 1\<rparr>
        else t)"

text \<open>The cast of the delay to \<^verbatim>\<open>uint32_t\<close> wraps, as the supported 64-bit targets compile it.\<close>

definition build_ack_fields :: "real \<Rightarrow> PacketTracker \<Rightarrow> AckFields" where
  "build_ack_fields now t =
     \<lparr>ack = recv_ack t, ack_bits = recv_ack_bits t,
      ack_delay_us =
        (if received_any t then
           let delay = max 0 (now - recv_time t);
               delay_us = word_of_int \<lfloor>delay * 1000000\<rfloor> :: u32
           in if 65535 < delay_us then 65535 else ucast delay_us
         else 0)\<rparr>"

definition tracker_mark_acked :: "u16 \<Rightarrow> PacketTracker \<Rightarrow> bool \<times> PacketTracker" where
  "tracker_mark_acked seq t =
     (let r = sent t ! slot_of seq
      in if sequence r = seq \<and> \<not> acked r
         then (True, t\<lparr>sent := (sent t)[slot_of seq := r\<lparr>acked := True\<rparr>]\<rparr>)
         else (False, t))"

text \<open>The loop over \<^verbatim>\<open>ack_bits\<close>: bit \<open>i\<close> acknowledges packet \<open>ack - i - 1\<close>.\<close>

fun mark_bits :: "AckFields \<Rightarrow> nat list \<Rightarrow> nat \<times> PacketTracker \<Rightarrow> nat \<times> PacketTracker" where
  "mark_bits f [] (n, t) = (n, t)"
| "mark_bits f (i # is) (n, t) =
     (if bit (ack_bits f) i then
        let (b, t1) = tracker_mark_acked (ack f - of_nat i - 1) t
        in mark_bits f is (if b then n + 1 else n, t1)
      else mark_bits f is (n, t))"

function advance_oldest :: "PacketTracker \<Rightarrow> PacketTracker" where
  "advance_oldest t =
     (if oldest_unacked t \<noteq> send_sequence t then
        let r = sent t ! slot_of (oldest_unacked t)
        in if \<not> acked r \<or> sequence r \<noteq> oldest_unacked t then t
           else advance_oldest (t\<lparr>oldest_unacked := oldest_unacked t + 1\<rparr>)
      else t)"
  by pat_completeness auto

termination advance_oldest
  by (relation "measure (\<lambda>t. unat (send_sequence t - oldest_unacked t))")
    (auto simp: unat_diff_Suc_less)

declare advance_oldest.simps [simp del]

definition process_acks :: "AckFields \<Rightarrow> PacketTracker \<Rightarrow> nat \<times> PacketTracker" where
  "process_acks f t =
     (let (b, t1) = tracker_mark_acked (ack f) t;
          (n, t2) = mark_bits f [0..<32] (if b then 1 else 0, t1)
      in (n, advance_oldest t2))"

definition is_acked :: "PacketTracker \<Rightarrow> u16 \<Rightarrow> bool" where
  "is_acked t seq \<longleftrightarrow> (let r = sent t ! slot_of seq in acked r \<and> sequence r = seq)"

definition get_send_time :: "PacketTracker \<Rightarrow> u16 \<Rightarrow> real" where
  "get_send_time t seq =
     (let r = sent t ! slot_of seq in if sequence r = seq then send_time r else - 1)"

definition write_ack_fields :: "AckFields \<Rightarrow> byte list" where
  "write_ack_fields f = le_bytes 2 (ack f) @ le_bytes 4 (ack_bits f) @ le_bytes 2 (ack_delay_us f)"

definition read_ack_fields :: "byte list \<Rightarrow> AckFields" where
  "read_ack_fields buf =
     \<lparr>ack = of_le (read_at 0 2 buf), ack_bits = of_le (read_at 2 4 buf), ack_delay_us = of_le (read_at 6 2 buf)\<rparr>"

section \<open>The wire format of the acknowledgement fields\<close>

lemma length_write_ack_fields [simp]: "length (write_ack_fields f) = 8"
  by (simp add: write_ack_fields_def)

lemma read_write_ack_fields: "read_ack_fields (write_ack_fields f @ rest) = f"
  by (simp add: read_ack_fields_def write_ack_fields_def read_at_def)

section \<open>What acknowledgement fields report\<close>

definition covers :: "AckFields \<Rightarrow> u16 \<Rightarrow> bool" where
  "covers f s \<longleftrightarrow> s = ack f \<or> (\<exists>i<32. bit (ack_bits f) i \<and> s = ack f - of_nat i - 1)"

definition acked_set :: "AckFields \<Rightarrow> u16 set" where
  "acked_set f = insert (ack f) ((\<lambda>i. ack f - of_nat i - 1) ` {..<32})"

lemma finite_acked_set [simp]: "finite (acked_set f)"
  by (simp add: acked_set_def)

lemma card_acked_set: "card (acked_set f) \<le> 33"
proof -
  have "card ((\<lambda>i. ack f - of_nat i - 1) ` {..<32}) \<le> 32"
    using card_image_le [of "{..<32::nat}"] by simp
  then show ?thesis
    unfolding acked_set_def by (simp add: card_insert_if)
qed

lemma covers_acked_set: "covers f s \<Longrightarrow> s \<in> acked_set f"
  by (auto simp: covers_def acked_set_def)

text \<open>The packets a tracker has recorded, read off its own fields.\<close>

definition tracked :: "PacketTracker \<Rightarrow> u16 \<Rightarrow> bool" where
  "tracked t s \<longleftrightarrow> received_any t \<and>
     (s = recv_ack t \<or> (\<exists>i<32. bit (recv_ack_bits t) i \<and> s = recv_ack t - of_nat i - 1))"

lemma covers_build [simp]: "received_any t \<Longrightarrow> covers (build_ack_fields now t) s \<longleftrightarrow> tracked t s"
  by (simp add: covers_def tracked_def build_ack_fields_def)

lemma covers_alt:
  "tracked t s \<longleftrightarrow> received_any t \<and>
     (s = recv_ack t \<or>
      (0 < unat (recv_ack t - s) \<and> unat (recv_ack t - s) \<le> 32 \<and> bit (recv_ack_bits t) (unat (recv_ack t - s) - 1)))"
proof -
  have "(\<exists>i<32. bit (recv_ack_bits t) i \<and> s = recv_ack t - of_nat i - 1) \<longleftrightarrow>
    0 < unat (recv_ack t - s) \<and> unat (recv_ack t - s) \<le> 32 \<and> bit (recv_ack_bits t) (unat (recv_ack t - s) - 1)"
    (is "?L \<longleftrightarrow> ?R")
  proof
    assume ?L
    then obtain i where i: "i < 32" "bit (recv_ack_bits t) i" "s = recv_ack t - of_nat i - 1" by blast
    then have "recv_ack t - s = of_nat (i + 1)" by simp
    then have "unat (recv_ack t - s) = i + 1"
      using i by (simp only: unat_of_nat) simp
    with i show ?R by simp
  next
    assume ?R
    moreover have "recv_ack t - s = of_nat (unat (recv_ack t - s))" by simp
    then have "recv_ack t - s = of_nat (unat (recv_ack t - s) - 1) + 1"
      using \<open>?R\<close> by (metis Suc_diff_1 of_nat_Suc add.commute)
    then have "s = recv_ack t - of_nat (unat (recv_ack t - s) - 1) - 1"
      by (simp add: algebra_simps)
    ultimately show ?L
      by (intro exI [of _ "unat (recv_ack t - s) - 1"]) auto
  qed
  then show ?thesis by (simp add: tracked_def)
qed

section \<open>Receiving: the fields are sound and complete\<close>

lemma of_nat_nat_seq_diff: "0 \<le> seq_diff a b \<Longrightarrow> of_nat (nat (seq_diff a b)) = a - b"
  using of_int_seq_diff [of a b] by (metis int_nat_eq of_int_of_nat_eq)

lemma of_nat_nat_neg_seq_diff: "seq_diff a b \<le> 0 \<Longrightarrow> of_nat (nat (- seq_diff a b)) = b - a"
proof -
  assume "seq_diff a b \<le> 0"
  then have "of_nat (nat (- seq_diff a b)) = (of_int (- seq_diff a b) :: u16)"
    by (metis int_nat_eq neg_0_le_iff_le of_int_of_nat_eq)
  then show ?thesis by (simp add: of_int_seq_diff)
qed

lemma tracked_step_sound:
  assumes "tracked (on_packet_received s time t) x"
    and "\<not> received_any t \<Longrightarrow> recv_ack_bits t = 0"
  shows "x = s \<or> tracked t x"
proof (cases "received_any t")
  case False
  with assms show ?thesis by (auto simp: on_packet_received_def tracked_def)
next
  case any: True
  let ?d = "seq_diff s (recv_ack t)"
  consider "0 < ?d" | "?d < 0" "- 32 < ?d" | "?d \<le> - 32 \<or> ?d = 0" by linarith
  then show ?thesis
  proof cases
    case 1
    then have d: "of_nat (nat ?d) = s - recv_ack t"
      by (intro of_nat_nat_seq_diff) simp
    from assms(1) any 1 consider "x = s"
      | i where "i < 32" "nat ?d \<le> i" "bit (recv_ack_bits t) (i - nat ?d)" "x = s - of_nat i - 1"
      | "x = s - of_nat (nat ?d - 1) - 1"
      by (auto simp: Let_def on_packet_received_def tracked_def bit_or_iff bit_push_bit_iff bit_1_iff bit_exp_iff
          split: if_splits)
    then show ?thesis
    proof cases
      case (2 i)
      then have "x = recv_ack t - of_nat (i - nat ?d) - 1"
        using d by (simp add: of_nat_diff algebra_simps)
      then show ?thesis
        using 2(1,3) any less_imp_diff_less unfolding tracked_def by blast
    next
      case 3
      have "of_nat (nat ?d) = (of_nat (nat ?d - 1) + 1 :: u16)"
        using \<open>0 < ?d\<close> by (metis Suc_diff_1 add.commute of_nat_Suc zero_less_nat_eq)
      then have "x = s - of_nat (nat ?d)"
        using 3 by (simp only: diff_diff_eq)
      then have "x = recv_ack t"
        unfolding d by simp
      with any show ?thesis by (simp add: tracked_def)
    qed simp
  next
    case 2
    then have d: "of_nat (nat (- ?d)) = recv_ack t - s"
      by (intro of_nat_nat_neg_seq_diff) simp
    have e: "of_nat (nat (- ?d)) = (of_nat (nat (- ?d) - 1) + 1 :: u16)"
      using 2 by (metis Suc_diff_1 add.commute of_nat_Suc zero_less_nat_eq neg_0_less_iff_less)
    from assms(1) any 2 consider "tracked t x" | "x = recv_ack t - of_nat (nat (- ?d) - 1) - 1"
      by (auto simp: Let_def on_packet_received_def tracked_def bit_or_iff bit_push_bit_iff bit_1_iff bit_exp_iff
          split: if_splits)
    then show ?thesis
    proof cases
      assume "x = recv_ack t - of_nat (nat (- ?d) - 1) - 1"
      then have "x = recv_ack t - of_nat (nat (- ?d))"
        using e by (simp only: diff_diff_eq)
      then show ?thesis
        unfolding d by simp
    qed simp
  next
    case 3
    with assms(1) any show ?thesis
      by (auto simp: on_packet_received_def)
  qed
qed

fun receive_all :: "(u16 \<times> real) list \<Rightarrow> PacketTracker \<Rightarrow> PacketTracker" where
  "receive_all [] t = t"
| "receive_all ((s, time) # ps) t = receive_all ps (on_packet_received s time t)"

lemma received_any_step [simp]: "received_any (on_packet_received s time t)"
  by (simp add: on_packet_received_def Let_def)

lemma receive_all_received_any: "received_any t \<Longrightarrow> received_any (receive_all ps t)"
  by (induction ps t rule: receive_all.induct) simp_all

lemma tracked_receive_all:
  assumes "tracked (receive_all ps t) x" and "\<not> received_any t \<Longrightarrow> recv_ack_bits t = 0"
  shows "x \<in> fst ` set ps \<or> tracked t x"
  using assms
proof (induction ps t rule: receive_all.induct)
  case (2 s time ps t)
  then show ?case
    using tracked_step_sound [of s time t x] by auto
qed simp

text \<open>
  Completeness needs to know which wrap of the 16-bit counter a packet belongs to: the
  unwrapped numbers are naturals, and a packet may be at most half the counter's range away
  from the newest one when it arrives.
\<close>

fun reorder_bounded :: "nat \<Rightarrow> nat list \<Rightarrow> bool" where
  "reorder_bounded M [] = True"
| "reorder_bounded M (n # ns) \<longleftrightarrow>
     int n - int M < 32768 \<and> - 32768 \<le> int n - int M \<and> reorder_bounded (max M n) ns"

definition recv_rel :: "nat \<Rightarrow> nat set \<Rightarrow> PacketTracker \<Rightarrow> bool" where
  "recv_rel M S t \<longleftrightarrow> received_any t \<and> recv_ack t = of_nat M \<and> M \<in> S \<and> (\<forall>n\<in>S. n \<le> M) \<and>
     (\<forall>i<32. bit (recv_ack_bits t) i \<longrightarrow> i + 1 \<le> M \<and> M - (i + 1) \<in> S) \<and>
     (\<forall>i<31. i + 1 \<le> M \<and> M - (i + 1) \<in> S \<longrightarrow> bit (recv_ack_bits t) i)"

lemma recv_relD:
  assumes "recv_rel M S t"
  shows "received_any t" "recv_ack t = of_nat M" "M \<in> S" "\<And>n. n \<in> S \<Longrightarrow> n \<le> M"
    "\<And>i. i < 32 \<Longrightarrow> bit (recv_ack_bits t) i \<Longrightarrow> i + 1 \<le> M"
    "\<And>i. i < 32 \<Longrightarrow> bit (recv_ack_bits t) i \<Longrightarrow> M - (i + 1) \<in> S"
    "\<And>i. i < 31 \<Longrightarrow> i + 1 \<le> M \<Longrightarrow> M - (i + 1) \<in> S \<Longrightarrow> bit (recv_ack_bits t) i"
  using assms by (auto simp: recv_rel_def)

lemma recv_relI:
  assumes "received_any t" "recv_ack t = of_nat M" "M \<in> S" "\<And>n. n \<in> S \<Longrightarrow> n \<le> M"
    "\<And>i. i < 32 \<Longrightarrow> bit (recv_ack_bits t) i \<Longrightarrow> i + 1 \<le> M \<and> M - (i + 1) \<in> S"
    "\<And>i. i < 31 \<Longrightarrow> i + 1 \<le> M \<Longrightarrow> M - (i + 1) \<in> S \<Longrightarrow> bit (recv_ack_bits t) i"
  shows "recv_rel M S t"
  using assms unfolding recv_rel_def by blast

lemma recv_rel_newer:
  assumes R: "recv_rel M S t" and n: "M < n" "int n - int M < 32768"
  shows "recv_rel n (insert n S) (on_packet_received (of_nat n) time t)"
proof -
  note R = recv_relD [OF R]
  define k where "k = n - M"
  have d: "seq_diff (of_nat n) (recv_ack t) = int k"
    using R(2) n by (simp add: k_def seq_diff_of_nat)
  have k: "0 < k" "n = M + k" using n by (simp_all add: k_def)
  let ?t = "on_packet_received (of_nat n) time t"
  have bits: "bit (recv_ack_bits ?t) j \<longleftrightarrow>
      k < 32 \<and> j < 32 \<and> (k \<le> j \<and> bit (recv_ack_bits t) (j - k) \<or> j = k - 1)" for j
    using R(1) d k by (auto simp: on_packet_received_def bit_or_iff bit_push_bit_iff bit_1_iff bit_exp_iff)
  show ?thesis
  proof (rule recv_relI)
    fix i
    assume i: "i < 32" and "bit (recv_ack_bits ?t) i"
    then consider "i = k - 1" | "k \<le> i" "bit (recv_ack_bits t) (i - k)"
      using bits by blast
    then show "i + 1 \<le> n \<and> n - (i + 1) \<in> insert n S"
    proof cases
      case 1
      with k R(3) show ?thesis by simp
    next
      case 2
      have "n - (i + 1) = M - (i - k + 1)" using k 2(1) by simp
      moreover have "i - k < 32" using i by simp
      ultimately show ?thesis
        using R(5) [of "i - k"] R(6) [of "i - k"] 2 k by auto
    qed
  next
    fix i
    assume i: "i < 31" "i + 1 \<le> n" "n - (i + 1) \<in> insert n S"
    then have S: "n - (i + 1) \<in> S" by auto
    with R(4) have "k \<le> i + 1" using k by fastforce
    show "bit (recv_ack_bits ?t) i"
    proof (cases "i = k - 1")
      case True
      with bits i show ?thesis by simp
    next
      case False
      with \<open>k \<le> i + 1\<close> k have "k \<le> i" by simp
      moreover have "n - (i + 1) = M - (i - k + 1)" using k \<open>k \<le> i\<close> by simp
      ultimately show ?thesis
        using bits [of i] R(7) [of "i - k"] S i k by simp
    qed
  next
    show "recv_ack ?t = of_nat n"
      using R(1) d k by (simp add: on_packet_received_def Let_def)
  next
    fix m
    assume "m \<in> insert n S"
    with R(4) [of m] k show "m \<le> n" by auto
  qed simp_all
qed

lemma recv_rel_older:
  assumes R: "recv_rel M S t" and n: "n \<le> M" "- 32768 \<le> int n - int M"
  shows "recv_rel M (insert n S) (on_packet_received (of_nat n) time t)"
proof -
  note R = recv_relD [OF R]
  define k where "k = M - n"
  have d: "seq_diff (of_nat n) (recv_ack t) = - int k"
    using R(2) n by (simp add: k_def seq_diff_of_nat)
  let ?t = "on_packet_received (of_nat n) time t"
  have bits: "bit (recv_ack_bits ?t) j \<longleftrightarrow>
      bit (recv_ack_bits t) j \<or> (0 < k \<and> k < 32 \<and> j = k - 1)" for j
    using R(1) d by (auto simp: on_packet_received_def bit_or_iff bit_push_bit_iff bit_1_iff bit_exp_iff)
  show ?thesis
  proof (rule recv_relI)
    fix i
    assume i: "i < 32" and "bit (recv_ack_bits ?t) i"
    then consider "bit (recv_ack_bits t) i" | "0 < k" "i = k - 1"
      using bits by blast
    then show "i + 1 \<le> M \<and> M - (i + 1) \<in> insert n S"
      using R(5,6) [OF i] n by cases (auto simp: k_def)
  next
    fix i
    assume i: "i < 31" "i + 1 \<le> M" "M - (i + 1) \<in> insert n S"
    then consider "M - (i + 1) \<in> S" | "M - (i + 1) = n" by blast
    then show "bit (recv_ack_bits ?t) i"
    proof cases
      case 1
      with R(7) i bits show ?thesis by blast
    next
      case 2
      then have "k = i + 1" using i by (simp add: k_def)
      with bits i show ?thesis by simp
    qed
  next
    show "recv_ack ?t = of_nat M"
      using R(1,2) d by (simp add: on_packet_received_def Let_def)
  next
    fix m
    assume "m \<in> insert n S"
    with R(4) [of m] n show "m \<le> M" by auto
  qed (simp_all add: R(3))
qed

lemma recv_rel_run:
  assumes "recv_rel M S t" and "reorder_bounded M (map fst ps)"
  shows "recv_rel (fold max (map fst ps) M) (S \<union> fst ` set ps)
           (receive_all (map (\<lambda>(n, time). (of_nat n, time)) ps) t)"
  using assms
proof (induction ps arbitrary: M S t)
  case Nil
  then show ?case by simp
next
  case (Cons p ps)
  obtain n time where p: "p = (n, time)" by fastforce
  have "recv_rel (max M n) (insert n S) (on_packet_received (of_nat n) time t)"
    using Cons.prems p recv_rel_newer [of M S t n time] recv_rel_older [of M S t n time]
    by (cases "n \<le> M") (simp_all add: max_def)
  from Cons.IH [OF this] Cons.prems(2) show ?case
    by (simp add: p max.commute)
qed

lemma recv_rel_first:
  "\<not> received_any t \<Longrightarrow> recv_ack_bits t = 0 \<Longrightarrow> recv_rel n {n} (on_packet_received (of_nat n) time t)"
  by (auto simp: recv_rel_def on_packet_received_def)

lemma recv_rel_covers:
  assumes R: "recv_rel M S t" and n: "n \<le> M" "M < n + 32"
  shows "covers (build_ack_fields now t) (of_nat n) \<longleftrightarrow> n \<in> S"
proof -
  note R = recv_relD [OF R]
  show ?thesis
  proof (cases "n = M")
    case True
    with R(1-3) show ?thesis by (simp add: tracked_def)
  next
    case False
    define i where "i = M - n - 1"
    have i: "M = n + (i + 1)" "i < 31"
      using False n by (simp_all add: i_def)
    then have "recv_ack t - of_nat n = of_nat (i + 1)"
      using R(2) by simp
    then have u: "unat (recv_ack t - of_nat n) = i + 1"
      using i by (simp only: unat_of_nat) simp
    then have "of_nat n \<noteq> recv_ack t" by auto
    moreover have "M - (i + 1) = n" using i by simp
    ultimately show ?thesis
      using R(1) R(6,7) [of i] i u unfolding covers_build [OF R(1)] covers_alt by auto
  qed
qed

section \<open>Sending: the records of the window\<close>

definition trk_ok :: "PacketTracker \<Rightarrow> bool" where
  "trk_ok t \<longleftrightarrow> length (sent t) = PACKET_WINDOW_SIZE"

definition recorded :: "PacketTracker \<Rightarrow> u16 \<Rightarrow> bool" where
  "recorded t s \<longleftrightarrow> sequence (sent t ! slot_of s) = s"

lemma slot_of_less: "trk_ok t \<Longrightarrow> slot_of s < length (sent t)"
  by (simp add: trk_ok_def slot_of_def PACKET_WINDOW_SIZE_def)

lemma trk_ok_reset [simp]: "trk_ok tracker_reset"
  by (simp add: trk_ok_def tracker_reset_def)

lemma trk_ok_send [simp]: "trk_ok t \<Longrightarrow> trk_ok (snd (send_packet time t))"
  by (simp add: trk_ok_def send_packet_def Let_def)

lemma trk_ok_receive [simp]: "trk_ok t \<Longrightarrow> trk_ok (on_packet_received s time t)"
  by (simp add: trk_ok_def on_packet_received_def Let_def)

lemma recorded_send:
  "trk_ok t \<Longrightarrow> recorded (snd (send_packet time t)) s \<longleftrightarrow>
     (if slot_of s = slot_of (send_sequence t) then s = send_sequence t else recorded t s)"
  using slot_of_less by (auto simp: recorded_def send_packet_def Let_def nth_list_update)

lemma is_acked_send:
  "trk_ok t \<Longrightarrow> is_acked (snd (send_packet time t)) s \<longleftrightarrow>
     is_acked t s \<and> slot_of s \<noteq> slot_of (send_sequence t)"
  using slot_of_less by (auto simp: is_acked_def send_packet_def Let_def nth_list_update)

fun send_all :: "real list \<Rightarrow> PacketTracker \<Rightarrow> PacketTracker" where
  "send_all [] t = t"
| "send_all (time # ts) t = send_all ts (snd (send_packet time t))"

lemma trk_ok_send_all [simp]: "trk_ok t \<Longrightarrow> trk_ok (send_all ts t)"
  by (induction ts t rule: send_all.induct) simp_all

lemma send_all_append: "send_all (xs @ ys) t = send_all ys (send_all xs t)"
  by (induction xs t rule: send_all.induct) simp_all

lemma send_sequence_send_all: "send_sequence (send_all ts t) = send_sequence t + of_nat (length ts)"
  by (induction ts t rule: send_all.induct) (simp_all add: send_packet_def Let_def)

lemma slot_of_of_nat: "n < 65536 \<Longrightarrow> slot_of (of_nat n) = n mod 33"
  by (simp add: slot_of_def PACKET_WINDOW_SIZE_def unat_of_nat)

lemma recorded_send_all:
  assumes "length ts \<le> 65536" and "j < length ts"
  shows "recorded (send_all ts tracker_reset) (of_nat j) \<longleftrightarrow> length ts \<le> j + 33"
  using assms
proof (induction ts rule: rev_induct)
  case (snoc x xs)
  let ?t = "send_all xs tracker_reset" and ?n = "length xs"
  have n: "send_sequence ?t = of_nat ?n"
    by (simp add: send_sequence_send_all tracker_reset_def)
  have slots: "slot_of (of_nat j) = slot_of (send_sequence ?t) \<longleftrightarrow> j mod 33 = ?n mod 33"
    using snoc.prems by (simp add: n slot_of_of_nat)
  have "recorded (send_all (xs @ [x]) tracker_reset) (of_nat j) \<longleftrightarrow>
      (if j mod 33 = ?n mod 33 then (of_nat j :: u16) = of_nat ?n else recorded ?t (of_nat j))"
    using recorded_send [of ?t x "of_nat j"] slots by (simp add: send_all_append n)
  also have "\<dots> \<longleftrightarrow> (if j mod 33 = ?n mod 33 then j = ?n else ?n \<le> j + 33)"
    using snoc of_nat_u16_eq [of j ?n] by (cases "j = ?n") auto
  also have "\<dots> \<longleftrightarrow> ?n + 1 \<le> j + 33"
    using snoc.prems(2) mod_eq_near [of j 33 ?n] by (cases "?n = j + 33") auto
  finally show ?case by simp
qed simp

section \<open>Processing acknowledgements\<close>

lemma is_acked_recorded: "is_acked t s \<Longrightarrow> recorded t s"
  by (simp add: is_acked_def recorded_def Let_def)

lemma mark_acked_eq:
  "tracker_mark_acked seq t =
     (if recorded t seq \<and> \<not> is_acked t seq
      then (True, t\<lparr>sent := (sent t)[slot_of seq := (sent t ! slot_of seq)\<lparr>acked := True\<rparr>]\<rparr>)
      else (False, t))"
  by (auto simp: tracker_mark_acked_def recorded_def is_acked_def Let_def)

lemma mark_acked_effect:
  assumes "trk_ok t" and "tracker_mark_acked seq t = (b, t')"
  shows "trk_ok t'" "recorded t' s \<longleftrightarrow> recorded t s"
    "is_acked t' s \<longleftrightarrow> is_acked t s \<or> s = seq \<and> recorded t s"
    "b \<longleftrightarrow> recorded t seq \<and> \<not> is_acked t seq"
    "send_sequence t' = send_sequence t" "oldest_unacked t' = oldest_unacked t"
  using assms slot_of_less [OF assms(1)]
  by (auto simp: mark_acked_eq trk_ok_def recorded_def is_acked_def Let_def nth_list_update split: if_splits)

definition newly_acked :: "PacketTracker \<Rightarrow> PacketTracker \<Rightarrow> u16 set" where
  "newly_acked t t' = {s. is_acked t' s \<and> \<not> is_acked t s}"

lemma mark_acked_newly:
  assumes "trk_ok t" and "tracker_mark_acked seq t = (b, t')"
  shows "newly_acked t t' = (if b then {seq} else {})"
  using mark_acked_effect [OF assms] by (auto simp: newly_acked_def)

lemma newly_acked_trans:
  assumes "\<And>s. is_acked t s \<Longrightarrow> is_acked t1 s" and "\<And>s. is_acked t1 s \<Longrightarrow> is_acked t2 s"
  shows "card (newly_acked t t2) = card (newly_acked t t1) + card (newly_acked t1 t2)"
proof -
  have "newly_acked t t2 = newly_acked t t1 \<union> newly_acked t1 t2" "newly_acked t t1 \<inter> newly_acked t1 t2 = {}"
    using assms by (auto simp: newly_acked_def)
  then show ?thesis by (simp add: card_Un_disjoint)
qed

lemma mark_bits_effect:
  assumes "trk_ok t" and "mark_bits f is (n, t) = (n', t')"
  shows "trk_ok t' \<and> (\<forall>s. recorded t' s \<longleftrightarrow> recorded t s) \<and>
    (\<forall>s. is_acked t' s \<longleftrightarrow> is_acked t s \<or>
       recorded t s \<and> (\<exists>i\<in>set is. bit (ack_bits f) i \<and> s = ack f - of_nat i - 1)) \<and>
    n' = n + card (newly_acked t t') \<and>
    send_sequence t' = send_sequence t \<and> oldest_unacked t' = oldest_unacked t"
  using assms
proof (induction f "is" "(n, t)" arbitrary: n t rule: mark_bits.induct)
  case (1 f n t)
  then show ?case by (simp add: newly_acked_def)
next
  case (2 f i "is" n t)
  show ?case
  proof (cases "bit (ack_bits f) i")
    case False
    with 2 show ?thesis by simp
  next
    case True
    obtain b t1 where m: "tracker_mark_acked (ack f - of_nat i - 1) t = (b, t1)" by fastforce
    note e = mark_acked_effect [OF \<open>trk_ok t\<close> m]
    have run: "mark_bits f is (if b then n + 1 else n, t1) = (n', t')"
      using 2(4) True m by simp
    note ih = 2(1) [OF True _ refl e(1) run, unfolded m, OF refl]
    have "card (newly_acked t t') = card (newly_acked t t1) + card (newly_acked t1 t')"
      using ih e(3) by (intro newly_acked_trans) auto
    then have "n' = n + card (newly_acked t t')"
      using ih mark_acked_newly [OF \<open>trk_ok t\<close> m] by auto
    then show ?thesis
      using ih e True by auto
  qed
qed

lemma advance_oldest_frame [simp]:
  "sent (advance_oldest t) = sent t" "send_sequence (advance_oldest t) = send_sequence t"
proof (induction t rule: advance_oldest.induct)
  case (1 t)
  { case 1
    then show ?case using "1.IH"(1) by (subst advance_oldest.simps) (simp add: Let_def) }
  { case 2
    then show ?case using "1.IH"(2) by (subst advance_oldest.simps) (simp add: Let_def) }
qed

lemma advance_oldest_acked [simp]: "is_acked (advance_oldest t) = is_acked t"
  by (simp add: is_acked_def fun_eq_iff)

lemma advance_oldest_edge:
  "\<exists>k\<le>unat (send_sequence t - oldest_unacked t).
     oldest_unacked (advance_oldest t) = oldest_unacked t + of_nat k \<and>
     (\<forall>i<k. is_acked t (oldest_unacked t + of_nat i)) \<and>
     (oldest_unacked (advance_oldest t) = send_sequence t \<or> \<not> is_acked t (oldest_unacked (advance_oldest t)))"
proof (induction t rule: advance_oldest.induct)
  case (1 t)
  let ?o = "oldest_unacked t" and ?t1 = "t\<lparr>oldest_unacked := oldest_unacked t + 1\<rparr>"
  show ?case
  proof (cases "?o \<noteq> send_sequence t \<and> is_acked t ?o")
    case False
    then have "advance_oldest t = t"
      by (subst advance_oldest.simps) (auto simp: is_acked_def Let_def)
    with False show ?thesis by (intro exI [of _ 0]) auto
  next
    case True
    then have step: "advance_oldest t = advance_oldest ?t1"
      by (subst advance_oldest.simps) (auto simp: is_acked_def Let_def)
    have same: "is_acked ?t1 = is_acked t"
      by (simp add: is_acked_def fun_eq_iff)
    from 1 [OF _ refl] True obtain k where k: "k \<le> unat (send_sequence t - (?o + 1))"
      "oldest_unacked (advance_oldest ?t1) = ?o + 1 + of_nat k"
      "\<forall>i<k. is_acked t (?o + 1 + of_nat i)"
      "oldest_unacked (advance_oldest ?t1) = send_sequence t \<or> \<not> is_acked t (oldest_unacked (advance_oldest ?t1))"
      unfolding same by (auto simp: is_acked_def Let_def)
    have "is_acked t (?o + of_nat i)" if "i < Suc k" for i
      using that k(3) True by (cases i) (auto simp: add.assoc)
    moreover have "Suc k \<le> unat (send_sequence t - ?o)"
      using k(1) unat_diff_Suc_less [of ?o "send_sequence t"] True by auto
    ultimately show ?thesis
      using k(2,4) step by (intro exI [of _ "Suc k"]) (auto simp: add.assoc)
  qed
qed

lemma process_acks_effect:
  assumes "trk_ok t" and "process_acks f t = (n, t')"
  shows "trk_ok t' \<and> (\<forall>s. is_acked t' s \<longleftrightarrow> is_acked t s \<or> covers f s \<and> recorded t s) \<and>
    n = card (newly_acked t t')"
proof -
  obtain b t1 where m: "tracker_mark_acked (ack f) t = (b, t1)" by fastforce
  obtain n2 t2 where l: "mark_bits f [0..<32] (if b then 1 else 0, t1) = (n2, t2)" by fastforce
  note e = mark_acked_effect [OF assms(1) m]
  note e2 = mark_bits_effect [OF e(1) l]
  have t': "t' = advance_oldest t2" "n = n2"
    using assms(2) m l by (simp_all add: process_acks_def)
  have "card (newly_acked t t2) = card (newly_acked t t1) + card (newly_acked t1 t2)"
    using e2 e(3) by (intro newly_acked_trans) auto
  moreover have "newly_acked t t' = newly_acked t t2"
    by (simp add: newly_acked_def t')
  ultimately have "n = card (newly_acked t t')"
    using e2 mark_acked_newly [OF assms(1) m] t' by (cases b) auto
  moreover have "trk_ok t'" using e2 by (simp add: trk_ok_def t')
  moreover have "(\<exists>i\<in>set [0..<32]. P i) \<longleftrightarrow> (\<exists>i<32. P i)" for P by auto
  ultimately show ?thesis
    using e2 e(2,3) by (auto simp: t' covers_def)
qed

lemma process_acks_oldest:
  assumes "trk_ok t" and "process_acks f t = (n, t')"
  shows "\<exists>k\<le>unat (send_sequence t - oldest_unacked t).
     oldest_unacked t' = oldest_unacked t + of_nat k \<and>
     (\<forall>i<k. is_acked t' (oldest_unacked t + of_nat i)) \<and>
     (oldest_unacked t' = send_sequence t \<or> \<not> is_acked t' (oldest_unacked t'))"
proof -
  obtain b t1 where m: "tracker_mark_acked (ack f) t = (b, t1)" by fastforce
  obtain n2 t2 where l: "mark_bits f [0..<32] (if b then 1 else 0, t1) = (n2, t2)" by fastforce
  note e = mark_acked_effect [OF assms(1) m]
  note e2 = mark_bits_effect [OF e(1) l]
  have "t' = advance_oldest t2"
    using assms(2) m l by (simp add: process_acks_def)
  then show ?thesis
    using advance_oldest_edge [of t2] e(5,6) e2 by simp
qed

section \<open>Properties\<close>

lemma recv_rel_receive_all:
  assumes "reorder_bounded n (map fst ps)"
  shows "recv_rel (fold max (map fst ps) n) (insert n (fst ` set ps))
    (receive_all (map (\<lambda>(n, time). (of_nat n, time)) ((n, time) # ps)) tracker_reset)"
  using recv_rel_run [OF recv_rel_first assms, of tracker_reset time]
  by (simp add: tracker_reset_def)

text \<open>
  C1. A packet crosses the wire as a 16-bit number. Let the receiver get the packets numbered
  \<open>n, ps\<close> (unwrapped, in any order, each less than half the counter range from the newest before
  it), write its acknowledgement fields into a packet, and let the sender read and process them.
  Then for every packet less than 32 below the newest one received, the sender has it
  acknowledged afterwards exactly if it was acknowledged before, or the receiver did receive it
  and the window still records it.
\<close>

theorem ack_end_to_end:
  assumes "reorder_bounded n (map fst ps)"
    and "rx = receive_all (map (\<lambda>(n, time). (of_nat n, time)) ((n, time) # ps)) tracker_reset"
    and "trk_ok tx"
    and "process_acks (read_ack_fields (write_ack_fields (build_ack_fields now rx) @ payload)) tx = (k, tx')"
    and "m \<le> fold max (map fst ps) n" and "fold max (map fst ps) n < m + 32"
  shows "is_acked tx' (of_nat m) \<longleftrightarrow>
     is_acked tx (of_nat m) \<or> m \<in> set (n # map fst ps) \<and> recorded tx (of_nat m)"
proof -
  note R = recv_rel_receive_all [OF assms(1), of time]
  have "covers (build_ack_fields now rx) (of_nat m) \<longleftrightarrow> m \<in> set (n # map fst ps)"
    using recv_rel_covers [OF R assms(5,6)] assms(2) by simp
  then show ?thesis
    using process_acks_effect [OF assms(3,4)] by (simp add: read_write_ack_fields)
qed

theorem ack_end_to_end_witness:
  "let tx = send_all [0, 0, 0, 0, 0, 0] tracker_reset;
       rx = receive_all (map (\<lambda>(n, time). (of_nat n, time)) [(2, 0), (5, 0), (3, 0)]) tracker_reset;
       tx' = snd (process_acks (read_ack_fields (write_ack_fields (build_ack_fields 0 rx) @ [])) tx)
   in is_acked tx' 3 \<and> \<not> is_acked tx' 4"
proof -
  let ?tx = "send_all [0, 0, 0, 0, 0, 0] tracker_reset"
  let ?rx = "receive_all (map (\<lambda>(n, time). (of_nat n, time)) ((2, 0) # [(5, 0), (3, 0)])) tracker_reset"
  let ?tx' = "snd (process_acks (read_ack_fields (write_ack_fields (build_ack_fields 0 ?rx) @ [])) ?tx)"
  have r: "recorded ?tx 3" "\<not> is_acked ?tx 4" by code_simp+
  have "is_acked ?tx' (of_nat m) \<longleftrightarrow>
     is_acked ?tx (of_nat m) \<or> m \<in> set (2 # map fst [(5, 0 :: real), (3, 0)]) \<and> recorded ?tx (of_nat m)"
    if "m \<in> {3, 4}" for m
    by (rule ack_end_to_end [OF _ refl _ prod.collapse [symmetric]]) (use that in auto)
  from this [of 3] this [of 4] r show ?thesis
    by (simp add: Let_def)
qed

text \<open>
  C15. Whatever 16-bit numbers a receiver that has received anything got, in any order, with any
  loss, duplication and reordering: what the sender newly marks acknowledged from its fields was
  received, and the count \<^verbatim>\<open>process_acks\<close> returns is the number of packets newly marked.
\<close>

theorem ack_sound_and_counted:
  assumes "ps \<noteq> []" and "trk_ok tx"
    and "process_acks (build_ack_fields now (receive_all ps tracker_reset)) tx = (k, tx')"
  shows "newly_acked tx tx' \<subseteq> fst ` set ps \<and> k = card (newly_acked tx tx') \<and> k \<le> 33"
proof -
  have any: "received_any (receive_all ps tracker_reset)"
    using assms(1) by (cases ps) (auto simp: receive_all_received_any)
  have reset: "\<not> tracked tracker_reset s" "recv_ack_bits tracker_reset = 0" for s
    by (simp_all add: tracked_def tracker_reset_def)
  note e = process_acks_effect [OF assms(2,3)]
  then have "newly_acked tx tx' \<subseteq> fst ` set ps"
    using any reset tracked_receive_all [of ps tracker_reset] by (auto simp: newly_acked_def)
  moreover have "newly_acked tx tx' \<subseteq> acked_set (build_ack_fields now (receive_all ps tracker_reset))"
    using e by (auto simp: newly_acked_def covers_acked_set)
  then have "card (newly_acked tx tx') \<le> 33"
    using card_acked_set card_mono [OF finite_acked_set] by (meson le_trans)
  ultimately show ?thesis using e by simp
qed

theorem ack_sound_and_counted_witness:
  "let tx = send_all [0, 0, 0] tracker_reset;
       r = process_acks (build_ack_fields 0 (receive_all [(2, 0), (1, 0), (2, 0)] tracker_reset)) tx
   in newly_acked tx (snd r) \<subseteq> {1, 2} \<and> fst r = card (newly_acked tx (snd r)) \<and> fst r = 2"
proof -
  let ?tx = "send_all [0, 0, 0] tracker_reset"
  let ?r = "process_acks (build_ack_fields 0 (receive_all [(2, 0), (1, 0), (2, 0)] tracker_reset)) ?tx"
  have "fst ?r = 2" by code_simp
  with ack_sound_and_counted [of "[(2, 0), (1, 0), (2, 0)]" ?tx 0 "fst ?r" "snd ?r"]
  show ?thesis by (simp add: Let_def insert_commute)
qed

text \<open>
  C16. The loop that advances the window edge ends, and moves \<^verbatim>\<open>oldest_unacked\<close> over
  acknowledged packets only, never past the next number to send, up to the first packet that is
  not acknowledged.
\<close>

theorem oldest_unacked_edge:
  assumes "trk_ok t" and "process_acks f t = (n, t')"
  shows "\<exists>k\<le>unat (send_sequence t - oldest_unacked t).
     oldest_unacked t' = oldest_unacked t + of_nat k \<and>
     (\<forall>i<k. is_acked t' (oldest_unacked t + of_nat i)) \<and>
     (oldest_unacked t' = send_sequence t \<or> \<not> is_acked t' (oldest_unacked t'))"
  using process_acks_oldest [OF assms] .

theorem oldest_unacked_edge_witness:
  "let t = send_all [0, 0, 0, 0] tracker_reset;
       t' = snd (process_acks \<lparr>ack = 3, ack_bits = 6, ack_delay_us = 0\<rparr> t)
   in oldest_unacked t' = 2 \<and> (oldest_unacked t' = 4 \<or> \<not> is_acked t' (oldest_unacked t'))"
proof -
  let ?t = "send_all [0, 0, 0, 0] tracker_reset"
  let ?r = "process_acks \<lparr>ack = 3, ack_bits = 6, ack_delay_us = 0\<rparr> ?t"
  have "oldest_unacked (snd ?r) = 2" "send_sequence ?t = 4" by code_simp+
  with oldest_unacked_edge [of ?t "\<lparr>ack = 3, ack_bits = 6, ack_delay_us = 0\<rparr>" "fst ?r" "snd ?r"]
  show ?thesis by (auto simp: Let_def)
qed

text \<open>
  Until the 16-bit counter wraps, the sender's window records exactly the last 33 packets
  sent: an acknowledgement for one of them is matched, one for an older packet is not.
\<close>

theorem window_records_last_33:
  assumes "length ts \<le> 65536" and "j < length ts"
  shows "recorded (send_all ts tracker_reset) (of_nat j) \<longleftrightarrow> length ts \<le> j + 33"
  using recorded_send_all [OF assms] .

theorem window_records_last_33_witness:
  "recorded (send_all (replicate 40 0) tracker_reset) 7 \<and> \<not> recorded (send_all (replicate 40 0) tracker_reset) 6"
proof -
  define ts :: "real list" where "ts = replicate 40 0"
  then have "length ts = 40" by simp
  with window_records_last_33 [of ts 7] window_records_last_33 [of ts 6] show ?thesis
    unfolding ts_def [symmetric] by simp
qed

text \<open>
  When the counter wraps the window is shorter, because 33 does not divide 65536: the record
  of packet 65530 is overwritten by the packet sent 31 packets later, although the two are within
  one window, so an acknowledgement of packet 65530 that arrives then is dropped.
\<close>

theorem window_collision_at_wrap:
  assumes "trk_ok t" and "send_sequence t = 65530"
  shows "\<not> recorded (send_all (replicate 32 time) t) 65530"
proof -
  define ts where "ts = replicate 31 time"
  let ?t = "send_all ts t"
  have "send_sequence ?t = 25"
    using assms by (simp add: send_sequence_send_all ts_def)
  moreover have "slot_of 65530 = slot_of 25" "(65530 :: u16) \<noteq> 25"
    by (simp_all add: slot_of_def PACKET_WINDOW_SIZE_def)
  ultimately have "\<not> recorded (snd (send_packet time ?t)) 65530"
    using assms by (simp add: recorded_send)
  moreover have "replicate 32 time = ts @ [time]"
    using replicate_Suc [of 31 time] by (simp add: ts_def replicate_append_same del: replicate_Suc)
  ultimately show ?thesis
    by (simp only: send_all_append send_all.simps not_False_eq_True)
qed

theorem window_collision_at_wrap_witness:
  "\<not> recorded (send_all (replicate 32 0) (tracker_reset\<lparr>send_sequence := 65530\<rparr>)) 65530"
  by (rule window_collision_at_wrap) (simp_all add: trk_ok_def tracker_reset_def)

text \<open>
  A receiver that has received nothing builds the same fields as one that received packet 0
  only: the sender then takes its packet 0 for acknowledged although nothing was received.
\<close>

theorem fresh_receiver_acks_packet_0:
  "is_acked (snd (process_acks (build_ack_fields now tracker_reset) (snd (send_packet time tracker_reset)))) 0"
proof -
  let ?tx = "snd (send_packet time tracker_reset)" and ?f = "build_ack_fields now tracker_reset"
  have "recorded ?tx 0" using recorded_send [OF trk_ok_reset, of time 0] by (simp add: tracker_reset_def)
  moreover have "covers ?f 0" by (simp add: covers_def build_ack_fields_def tracker_reset_def)
  ultimately show ?thesis
    using process_acks_effect [of ?tx ?f "fst (process_acks ?f ?tx)" "snd (process_acks ?f ?tx)"] by simp
qed

end
