(* ===== verification/Replay.thy ===== *)
theory Replay
  imports Netudp_Prelude
begin

text \<open>
  \<^verbatim>\<open>crypto/replay.h\<close>: the replay window over the 64-bit nonce counter. The window is an array
  of 256 slots indexed by the nonce modulo 256, and the highest nonce accepted. The lemmas
  relate it to the set of the nonces accepted so far: no nonce of that set is ever accepted
  again, and a nonce outside it is refused only if it is 256 or more behind the highest one.
\<close>

section \<open>State and operations\<close>

definition WINDOW_SIZE :: nat where
  "WINDOW_SIZE = 256"

definition EMPTY_SLOT :: u64 where
  "EMPTY_SLOT = - 1"

record ReplayProtection =
  most_recent :: u64
  received :: "u64 list"

definition replay_reset :: ReplayProtection where
  "replay_reset = \<lparr>most_recent = 0, received = replicate WINDOW_SIZE EMPTY_SLOT\<rparr>"

text \<open>The sum in the first test is the 64-bit one: it wraps for the last 256 nonces.\<close>

definition is_duplicate :: "ReplayProtection \<Rightarrow> u64 \<Rightarrow> bool" where
  "is_duplicate r nonce \<longleftrightarrow>
     (if of_nat WINDOW_SIZE \<le> most_recent r \<and> nonce + of_nat WINDOW_SIZE \<le> most_recent r then True
      else let slot_val = received r ! (unat nonce mod WINDOW_SIZE)
           in slot_val \<noteq> EMPTY_SLOT \<and> slot_val = nonce)"

definition advance :: "u64 \<Rightarrow> ReplayProtection \<Rightarrow> ReplayProtection" where
  "advance nonce r =
     (let r1 = r\<lparr>received := (received r)[unat nonce mod WINDOW_SIZE := nonce]\<rparr>
      in if nonce > most_recent r1 then r1\<lparr>most_recent := nonce\<rparr> else r1)"

section \<open>The window and the set of accepted nonces\<close>

definition too_old :: "ReplayProtection \<Rightarrow> u64 \<Rightarrow> bool" where
  "too_old r n \<longleftrightarrow> 256 \<le> most_recent r \<and> n + 256 \<le> most_recent r"

definition slot_val :: "ReplayProtection \<Rightarrow> u64 \<Rightarrow> u64" where
  "slot_val r n = received r ! (unat n mod 256)"

lemma is_duplicate_eq: "is_duplicate r n \<longleftrightarrow> too_old r n \<or> slot_val r n = n \<and> n \<noteq> EMPTY_SLOT"
  by (auto simp: is_duplicate_def too_old_def slot_val_def WINDOW_SIZE_def Let_def)

definition replay_rel :: "u64 set \<Rightarrow> ReplayProtection \<Rightarrow> bool" where
  "replay_rel A r \<longleftrightarrow> length (received r) = 256 \<and>
     (\<forall>n\<in>A. n \<le> most_recent r \<and> is_duplicate r n) \<and>
     (\<forall>v\<in>set (received r). v = EMPTY_SLOT \<or> v \<in> A) \<and>
     (most_recent r = 0 \<or> most_recent r \<in> A)"

lemma replay_rel_reset [simp]: "replay_rel {} replay_reset"
  by (simp add: replay_rel_def replay_reset_def WINDOW_SIZE_def)

lemma too_old_nat:
  "too_old r n \<longleftrightarrow> 256 \<le> unat (most_recent r) \<and> (unat n + 256) mod 2 ^ 64 \<le> unat (most_recent r)"
proof -
  have "unat (n + 256) = (unat n + 256) mod 2 ^ 64"
    by (simp add: unat_word_ariths)
  then show ?thesis by (simp add: too_old_def word_le_nat_alt)
qed

lemma advance_simps [simp]:
  "most_recent (advance n r) = max n (most_recent r)"
  "received (advance n r) = (received r)[unat n mod 256 := n]"
  by (auto simp: advance_def WINDOW_SIZE_def Let_def max_def)

lemma too_old_advance: "too_old r n \<Longrightarrow> too_old (advance m r) n"
  by (auto simp: too_old_def max_def)

lemma slot_val_advance:
  "length (received r) = 256 \<Longrightarrow>
   slot_val (advance m r) n = (if unat n mod 256 = unat m mod 256 then m else slot_val r n)"
  by (auto simp: slot_val_def nth_list_update)

lemma is_duplicate_advance_self:
  assumes "length (received r) = 256"
  shows "is_duplicate (advance n r) n"
proof (cases "n = EMPTY_SLOT")
  case True
  then have "most_recent (advance n r) = - 1"
    by (simp add: EMPTY_SLOT_def max.absorb1 word_order.extremum)
  moreover have "n + 256 = 255" using True by (simp add: EMPTY_SLOT_def)
  ultimately show ?thesis
    by (simp add: is_duplicate_eq too_old_def)
next
  case False
  with assms show ?thesis by (simp add: is_duplicate_eq slot_val_advance)
qed

lemma same_residue_gap:
  fixes a b :: nat
  assumes "a mod 256 = b mod 256" and "a < b"
  shows "a + 256 \<le> b"
proof (rule ccontr)
  assume "\<not> a + 256 \<le> b"
  with assms have "a = b" by (intro mod_eq_near [of a 256 b]) simp_all
  with assms(2) show False by simp
qed

lemma overwritten_too_old:
  assumes "\<not> too_old r m" and "n \<noteq> m" and "unat n mod 256 = unat m mod 256" and "n \<le> most_recent r"
  shows "too_old (advance m r) n"
proof -
  let ?M = "unat (most_recent r)"
  have bound: "unat n < 2 ^ 64" "unat m < 2 ^ 64" "?M < 2 ^ 64"
    using unsigned_less [where ?'b = 64 and ?'a = nat] by simp_all
  have le: "unat n \<le> ?M" and ne: "unat n \<noteq> unat m"
    using assms by (simp_all add: word_le_nat_alt word_unat_eq_iff)
  have low: "unat n < unat m"
  proof (rule ccontr)
    assume "\<not> unat n < unat m"
    then have gap: "unat m + 256 \<le> unat n"
      using same_residue_gap [of "unat m" "unat n"] assms(3) ne by simp
    then have "(unat m + 256) mod 2 ^ 64 = unat m + 256"
      using bound by (intro mod_less) simp
    with gap le assms(1) show False by (simp add: too_old_nat)
  qed
  then have "unat n + 256 \<le> unat m"
    using same_residue_gap assms(3) by blast
  then show ?thesis
    using bound by (auto simp: too_old_nat max_def word_le_nat_alt)
qed

lemma replay_rel_advance:
  assumes R: "replay_rel A r" and m: "\<not> is_duplicate r m"
  shows "replay_rel (insert m A) (advance m r)"
proof -
  have len: "length (received r) = 256" using R by (simp add: replay_rel_def)
  have "is_duplicate (advance m r) n" if n: "n \<in> A" for n
  proof (cases "too_old r n")
    case True
    then show ?thesis by (simp add: is_duplicate_eq too_old_advance)
  next
    case False
    have "n \<le> most_recent r" "is_duplicate r n" "n \<noteq> m"
      using R n m by (auto simp: replay_rel_def)
    with False m len overwritten_too_old [of r m n] show ?thesis
      by (auto simp: is_duplicate_eq slot_val_advance)
  qed
  then show ?thesis
    using R is_duplicate_advance_self [OF len]
    by (auto simp: replay_rel_def max_def dest!: set_update_subset_insert [THEN subsetD])
qed

text \<open>
  A nonce is refused exactly if it was accepted before or lies 256 or more behind the highest
  one. The last 256 nonces of the 64-bit range, where the sum of the code wraps, are excluded.
\<close>

lemma is_duplicate_iff:
  assumes R: "replay_rel A r" and n: "unat n < 2 ^ 64 - 256"
  shows "is_duplicate r n \<longleftrightarrow> n \<in> A \<or> unat n + 256 \<le> unat (most_recent r)"
proof -
  have old: "too_old r n \<longleftrightarrow> unat n + 256 \<le> unat (most_recent r)"
    using n by (auto simp: too_old_nat)
  have "received r ! (unat n mod 256) \<in> set (received r)"
    using R by (intro nth_mem) (simp add: replay_rel_def)
  then have "slot_val r n = n \<Longrightarrow> n \<noteq> EMPTY_SLOT \<Longrightarrow> n \<in> A"
    using R by (auto simp: replay_rel_def slot_val_def)
  moreover have "n \<in> A \<Longrightarrow> is_duplicate r n"
    using R by (simp add: replay_rel_def)
  ultimately show ?thesis
    using old by (auto simp: is_duplicate_eq)
qed

end
