(* ===== verification/Aead.thy ===== *)
theory Aead
  imports Netudp_Prelude
begin

text \<open>
  The authenticated-encryption interface behind the function pointers \<^verbatim>\<open>g_aead_encrypt\<close> and
  \<^verbatim>\<open>g_aead_decrypt\<close> of \<^verbatim>\<open>crypto/aead_dispatch.cpp\<close>, the two providers that file defines itself
  (plaintext and XOR), and the selection of a provider. A negative return value is \<open>None\<close>;
  a non-negative one is the list of the bytes written.
\<close>

section \<open>The contract of a provider\<close>

type_synonym aead_fn = "byte list \<Rightarrow> byte list \<Rightarrow> byte list \<Rightarrow> byte list \<Rightarrow> byte list option"

locale aead =
  fixes enc dec :: aead_fn
    and overhead :: nat
  assumes enc_total: "\<exists>ct. enc key nonce aad pt = Some ct \<and> length ct = length pt + overhead"
    and dec_enc: "enc key nonce aad pt = Some ct \<Longrightarrow> dec key nonce aad ct = Some pt"
    and dec_length: "dec key nonce aad ct = Some pt \<Longrightarrow> length ct = length pt + overhead"
begin

lemma enc_cases:
  obtains ct where "enc key nonce aad pt = Some ct" "length ct = length pt + overhead"
    "dec key nonce aad ct = Some pt"
  using enc_total [of key nonce aad pt] dec_enc by blast

lemma enc_inj:
  assumes "enc key nonce aad p = enc key nonce aad q"
  shows "p = q"
proof -
  obtain ct where "enc key nonce aad p = Some ct" "dec key nonce aad ct = Some p"
    by (rule enc_cases)
  with assms dec_enc [of key nonce aad q ct] show ?thesis by simp
qed

end

section \<open>The providers of aead\_dispatch.cpp\<close>

definition none_encrypt :: aead_fn where
  "none_encrypt key nonce aad pt = Some pt"

definition none_decrypt :: aead_fn where
  "none_decrypt key nonce aad ct = Some ct"

definition xor_bytes :: "byte list \<Rightarrow> byte list \<Rightarrow> byte list" where
  "xor_bytes key xs = map (\<lambda>i. xs ! i XOR key ! (i AND 31)) [0..<length xs]"

definition xor_encrypt :: aead_fn where
  "xor_encrypt key nonce aad pt = Some (xor_bytes key pt)"

definition xor_decrypt :: aead_fn where
  "xor_decrypt key nonce aad ct = Some (xor_bytes key ct)"

lemma length_xor_bytes [simp]: "length (xor_bytes key xs) = length xs"
  by (simp add: xor_bytes_def)

lemma xor_bytes_twice [simp]: "xor_bytes key (xor_bytes key xs) = xs"
  by (rule nth_equalityI) (simp_all add: xor_bytes_def xor.assoc)

interpretation none_mode: aead none_encrypt none_decrypt 0
  by unfold_locales (simp_all add: none_encrypt_def none_decrypt_def)

interpretation xor_mode: aead xor_encrypt xor_decrypt 0
  by unfold_locales (auto simp: xor_encrypt_def xor_decrypt_def)

text \<open>A provider for examples, whose tag is the start of the nonce: it satisfies the contract, and
  decryption under another nonce counter fails.\<close>

definition example_tag :: "byte list \<Rightarrow> byte list" where
  "example_tag nonce = take 16 (nonce @ replicate 16 0)"

definition example_encrypt :: aead_fn where
  "example_encrypt key nonce aad pt = Some (pt @ example_tag nonce)"

definition example_decrypt :: aead_fn where
  "example_decrypt key nonce aad ct =
     (if length ct < 16 \<or> drop (length ct - 16) ct \<noteq> example_tag nonce then None else Some (take (length ct - 16) ct))"

interpretation example_mode: aead example_encrypt example_decrypt 16
  by unfold_locales (auto simp: example_encrypt_def example_decrypt_def example_tag_def split: if_splits)

section \<open>Selecting a provider\<close>

datatype crypto_mode = NETUDP_CRYPTO_AUTO | NETUDP_CRYPTO_XCHACHA20 | NETUDP_CRYPTO_AES_GCM
  | NETUDP_CRYPTO_XOR | NETUDP_CRYPTO_NONE | Crypto_unknown

datatype aead_alg = Alg_xchacha20 | Alg_aesgcm | Alg_xor | Alg_none

record aesgcm_platform =
  platform_windows :: bool
  has_aesni :: bool
  aesgcm_init :: bool

text \<open>Whether the build is for Windows, the CPU has AES-NI and BCrypt initialises are given.\<close>

definition try_select_aesgcm :: "aesgcm_platform \<Rightarrow> bool" where
  "try_select_aesgcm p \<longleftrightarrow>
     (if platform_windows p then (if \<not> has_aesni p then False else if \<not> aesgcm_init p then False else True)
      else False)"

definition aead_dispatch_init :: "aesgcm_platform \<Rightarrow> crypto_mode \<Rightarrow> aead_alg" where
  "aead_dispatch_init p mode =
     (if mode = NETUDP_CRYPTO_NONE then Alg_none
      else if mode = NETUDP_CRYPTO_AES_GCM then (if \<not> try_select_aesgcm p then Alg_xchacha20 else Alg_aesgcm)
      else if mode = NETUDP_CRYPTO_AUTO then (if \<not> try_select_aesgcm p then Alg_xchacha20 else Alg_aesgcm)
      else if mode = NETUDP_CRYPTO_XOR then Alg_xor
      else Alg_xchacha20)"

lemma aead_dispatch_secure:
  "aead_dispatch_init p mode \<in> {Alg_none, Alg_xor} \<longleftrightarrow> mode \<in> {NETUDP_CRYPTO_NONE, NETUDP_CRYPTO_XOR}"
  by (auto simp: aead_dispatch_init_def)

end
