(* ===== verification/Packet_Crypto.thy ===== *)
theory Packet_Crypto
  imports Replay Aead
begin

text \<open>
  \<^verbatim>\<open>crypto/packet_crypto.h\<close> and \<^verbatim>\<open>crypto/packet_crypto.cpp\<close>: the key epoch of a connection, packet
  encryption and decryption with replay protection, and rekeying. The AEAD and the keyed
  Blake2b hash are arguments; \<open>aead\<close> is the contract the round trips rest on. The lemmas show
  that a packet decrypts to what was encrypted, that no nonce is accepted twice in an epoch,
  that the nonces of an epoch are all different, and that both ends agree after a rekey.
\<close>

section \<open>State and operations\<close>

definition REKEY_NONCE_THRESHOLD :: u64 where
  "REKEY_NONCE_THRESHOLD = push_bit 30 1"

definition REKEY_BYTES_THRESHOLD :: u64 where
  "REKEY_BYTES_THRESHOLD = push_bit 30 1"

definition REKEY_EPOCH_SECONDS :: real where
  "REKEY_EPOCH_SECONDS = 3600"

definition REKEY_GRACE_PACKETS :: nat where
  "REKEY_GRACE_PACKETS = 256"

record KeyEpoch =
  tx_key :: "byte list"
  rx_key :: "byte list"
  old_rx_key :: "byte list"
  tx_nonce_counter :: u64
  bytes_transmitted :: u64
  epoch_start_time :: real
  epoch_number :: u32
  grace_packets_remaining :: nat
  rekey_pending :: bool
  replay :: ReplayProtection

definition key_epoch_init :: KeyEpoch where
  "key_epoch_init = \<lparr>tx_key = replicate 32 0, rx_key = replicate 32 0, old_rx_key = replicate 32 0,
     tx_nonce_counter = 0, bytes_transmitted = 0, epoch_start_time = 0, epoch_number = 0,
     grace_packets_remaining = 0, rekey_pending = False, replay = replay_reset\<rparr>"

definition build_nonce :: "u64 \<Rightarrow> byte list" where
  "build_nonce counter = write_at 0 (le_bytes 8 counter) (replicate 24 0)"

text \<open>The 13 bytes of \<^verbatim>\<open>"NETUDP 1.01\0"\<close>, its terminating zero included.\<close>

definition NETUDP_VERSION_INFO :: "byte list" where
  "NETUDP_VERSION_INFO = [78, 69, 84, 85, 68, 80, 32, 49, 46, 48, 49, 0, 0]"

definition build_aad :: "u64 \<Rightarrow> byte \<Rightarrow> byte list" where
  "build_aad protocol_id prefix_byte = NETUDP_VERSION_INFO @ le_bytes 8 protocol_id @ [prefix_byte]"

text \<open>\<open>kdf key msg\<close> is the 32-byte Blake2b hash of \<open>msg\<close> keyed with \<open>key\<close>.\<close>

type_synonym kdf_fn = "byte list \<Rightarrow> byte list \<Rightarrow> byte list"

definition kRekeyLabel :: "byte list" where
  "kRekeyLabel = [0x6E, 0x65, 0x74, 0x75, 0x64, 0x70, 0x2D, 0x72, 0x65, 0x6B, 0x65, 0x79]"

definition derive_key :: "kdf_fn \<Rightarrow> byte list \<Rightarrow> u32 \<Rightarrow> byte list" where
  "derive_key kdf old_key epoch = kdf old_key (kRekeyLabel @ le_bytes 4 epoch)"

definition should_rekey :: "KeyEpoch \<Rightarrow> real \<Rightarrow> bool" where
  "should_rekey e current_time \<longleftrightarrow>
     (if tx_nonce_counter e \<ge> REKEY_NONCE_THRESHOLD then True
      else if bytes_transmitted e \<ge> REKEY_BYTES_THRESHOLD then True
      else if epoch_start_time e > 0 \<and> current_time - epoch_start_time e \<ge> REKEY_EPOCH_SECONDS then True
      else False)"

definition prepare_rekey :: "KeyEpoch \<Rightarrow> KeyEpoch" where
  "prepare_rekey e = e\<lparr>old_rx_key := rx_key e, rekey_pending := True\<rparr>"

definition activate_rekey :: "kdf_fn \<Rightarrow> real \<Rightarrow> KeyEpoch \<Rightarrow> KeyEpoch" where
  "activate_rekey kdf current_time e =
     (let next_epoch = epoch_number e + 1
      in e\<lparr>tx_key := derive_key kdf (tx_key e) next_epoch,
           rx_key := derive_key kdf (rx_key e) next_epoch,
           tx_nonce_counter := 0, bytes_transmitted := 0, epoch_start_time := current_time,
           epoch_number := next_epoch, grace_packets_remaining := REKEY_GRACE_PACKETS,
           rekey_pending := False, replay := replay_reset\<rparr>)"

definition on_receive_rekey :: "kdf_fn \<Rightarrow> real \<Rightarrow> KeyEpoch \<Rightarrow> KeyEpoch" where
  "on_receive_rekey kdf current_time e = activate_rekey kdf current_time (e\<lparr>old_rx_key := rx_key e\<rparr>)"

definition packet_decrypt_grace ::
    "aead_fn \<Rightarrow> u64 \<Rightarrow> byte \<Rightarrow> u64 \<Rightarrow> byte list \<Rightarrow> KeyEpoch \<Rightarrow> byte list option \<times> KeyEpoch" where
  "packet_decrypt_grace dec protocol_id prefix_byte nonce_counter ct e =
     (if length ct < 1 then (None, e)
      else if grace_packets_remaining e \<le> 0 then (None, e)
      else case dec (old_rx_key e) (build_nonce nonce_counter) (build_aad protocol_id prefix_byte) ct of
        None \<Rightarrow> (None, e)
      | Some pt \<Rightarrow>
          let e1 = e\<lparr>grace_packets_remaining := grace_packets_remaining e - 1\<rparr>
          in (Some pt, if grace_packets_remaining e1 = 0 then e1\<lparr>old_rx_key := replicate 32 0\<rparr> else e1))"

definition packet_encrypt ::
    "aead_fn \<Rightarrow> u64 \<Rightarrow> byte \<Rightarrow> byte list \<Rightarrow> KeyEpoch \<Rightarrow> byte list option \<times> KeyEpoch" where
  "packet_encrypt enc protocol_id prefix_byte pt e =
     (case enc (tx_key e) (build_nonce (tx_nonce_counter e)) (build_aad protocol_id prefix_byte) pt of
        None \<Rightarrow> (None, e)
      | Some ct \<Rightarrow>
          (Some ct, e\<lparr>tx_nonce_counter := tx_nonce_counter e + 1,
                     bytes_transmitted := bytes_transmitted e + of_nat (length pt)\<rparr>))"

definition packet_decrypt ::
    "aead_fn \<Rightarrow> u64 \<Rightarrow> byte \<Rightarrow> u64 \<Rightarrow> byte list \<Rightarrow> KeyEpoch \<Rightarrow> byte list option \<times> KeyEpoch" where
  "packet_decrypt dec protocol_id prefix_byte nonce_counter ct e =
     (if length ct < 1 then (None, e)
      else if is_duplicate (replay e) nonce_counter then (None, e)
      else case dec (rx_key e) (build_nonce nonce_counter) (build_aad protocol_id prefix_byte) ct of
        None \<Rightarrow> (None, e)
      | Some pt \<Rightarrow> (Some pt, e\<lparr>replay := advance nonce_counter (replay e)\<rparr>))"

section \<open>Nonces and associated data\<close>

lemma build_nonce_eq: "build_nonce c = le_bytes 8 c @ replicate 16 0"
  by (simp add: build_nonce_def write_at_def)

lemma length_build_nonce [simp]: "length (build_nonce c) = 24"
  by (simp add: build_nonce_eq)

lemma build_nonce_inject [simp]: "build_nonce c = build_nonce d \<longleftrightarrow> c = d"
  by (simp add: build_nonce_eq le_bytes_inject)

lemma length_build_aad [simp]: "length (build_aad p b) = 22"
  by (simp add: build_aad_def NETUDP_VERSION_INFO_def)

lemma build_aad_inject: "build_aad p b = build_aad q c \<longleftrightarrow> p = q \<and> b = c"
  by (simp add: build_aad_def le_bytes_inject)

section \<open>Runs of an epoch\<close>

text \<open>A sender encrypts packets one after the other; a receiver is given nonces and ciphertexts.\<close>

fun encrypt_run ::
    "aead_fn \<Rightarrow> u64 \<Rightarrow> byte \<Rightarrow> byte list list \<Rightarrow> KeyEpoch \<Rightarrow> byte list option list \<times> KeyEpoch" where
  "encrypt_run enc pid prefix [] e = ([], e)"
| "encrypt_run enc pid prefix (pt # pts) e =
     (let (r, e1) = packet_encrypt enc pid prefix pt e; (rs, e2) = encrypt_run enc pid prefix pts e1
      in (r # rs, e2))"

fun decrypt_run ::
    "aead_fn \<Rightarrow> u64 \<Rightarrow> (byte \<times> u64 \<times> byte list) list \<Rightarrow> KeyEpoch \<Rightarrow> byte list option list \<times> KeyEpoch" where
  "decrypt_run dec pid [] e = ([], e)"
| "decrypt_run dec pid ((prefix, nonce, ct) # ps) e =
     (let (r, e1) = packet_decrypt dec pid prefix nonce ct e; (rs, e2) = decrypt_run dec pid ps e1
      in (r # rs, e2))"

lemma decrypt_run_Cons:
  "fst (decrypt_run dec pid ((prefix, nonce, ct) # ps) e) =
     fst (packet_decrypt dec pid prefix nonce ct e) #
     fst (decrypt_run dec pid ps (snd (packet_decrypt dec pid prefix nonce ct e)))"
  by (simp add: Let_def split_beta)

lemma length_decrypt_run [simp]: "length (fst (decrypt_run dec pid ps e)) = length ps"
  by (induction ps arbitrary: e) (auto simp: Let_def split_beta)

lemma length_encrypt_run [simp]: "length (fst (encrypt_run enc pid prefix pts e)) = length pts"
  by (induction pts arbitrary: e) (auto simp: Let_def split_beta)

text \<open>The nonces for which a run of the receiver returned a packet.\<close>

definition accepted_nonces :: "(byte \<times> u64 \<times> byte list) list \<Rightarrow> byte list option list \<Rightarrow> u64 list" where
  "accepted_nonces ps rs = map (\<lambda>(p, r). fst (snd p)) (filter (\<lambda>(p, r). r \<noteq> None) (zip ps rs))"

lemma packet_decrypt_cases:
  obtains (refused) "packet_decrypt dec pid prefix nonce ct e = (None, e)"
  | (opened) pt where "packet_decrypt dec pid prefix nonce ct e =
      (Some pt, e\<lparr>replay := advance nonce (replay e)\<rparr>)" "\<not> is_duplicate (replay e) nonce"
      "dec (rx_key e) (build_nonce nonce) (build_aad pid prefix) ct = Some pt"
proof (cases "length ct < 1 \<or> is_duplicate (replay e) nonce \<or>
    dec (rx_key e) (build_nonce nonce) (build_aad pid prefix) ct = None")
  case True
  then show ?thesis by (intro refused) (auto simp: packet_decrypt_def)
next
  case False
  then show ?thesis using opened by (auto simp: packet_decrypt_def)
qed

lemma packet_decrypt_keys [simp]:
  "rx_key (snd (packet_decrypt dec pid prefix nonce ct e)) = rx_key e"
  "tx_key (snd (packet_decrypt dec pid prefix nonce ct e)) = tx_key e"
  by (cases rule: packet_decrypt_cases [of dec pid prefix nonce ct e]; simp)+

lemma accepted_nonces_fresh:
  assumes "replay_rel A (replay e)"
  shows "distinct (accepted_nonces ps (fst (decrypt_run dec pid ps e))) \<and>
    set (accepted_nonces ps (fst (decrypt_run dec pid ps e))) \<inter> A = {}"
  using assms
proof (induction dec pid ps e arbitrary: A rule: decrypt_run.induct)
  case (1 dec pid e)
  then show ?case by (simp add: accepted_nonces_def)
next
  case (2 dec pid prefix nonce ct ps e)
  show ?case
  proof (cases rule: packet_decrypt_cases [of dec pid prefix nonce ct e])
    case refused
    then show ?thesis
      using "2.IH" [OF refused [symmetric] refl "2.prems"]
      by (simp add: accepted_nonces_def Let_def split_beta)
  next
    case (opened pt)
    let ?e1 = "e\<lparr>replay := advance nonce (replay e)\<rparr>"
    have "replay_rel (insert nonce A) (replay ?e1)"
      using replay_rel_advance [OF "2.prems" opened(2)] by simp
    from "2.IH" [OF opened(1) [symmetric] refl this] opened "2.prems" show ?thesis
      by (auto simp: accepted_nonces_def Let_def split_beta replay_rel_def)
  qed
qed

lemma encrypt_run_nth:
  assumes "i < length pts" and "\<And>key nonce aad pt. enc key nonce aad pt \<noteq> None"
  shows "fst (encrypt_run enc pid prefix pts e) ! i =
    enc (tx_key e) (build_nonce (tx_nonce_counter e + of_nat i)) (build_aad pid prefix) (pts ! i)"
  using assms(1)
proof (induction pts arbitrary: i e)
  case (Cons pt pts)
  obtain ct where ct: "enc (tx_key e) (build_nonce (tx_nonce_counter e)) (build_aad pid prefix) pt = Some ct"
    using assms(2) by blast
  show ?case
    using Cons.IH [of "i - 1"] Cons.prems ct
    by (cases i) (simp_all add: packet_encrypt_def Let_def split_beta add.assoc)
qed simp

section \<open>Delivery over a lossy network\<close>

text \<open>
  \<open>delivered_rel D r\<close>: the window after the packets with numbers \<open>D\<close> were handed to the receiver.
  Of these a subset was accepted; the others were refused as too old.
\<close>

definition delivered_rel :: "nat set \<Rightarrow> ReplayProtection \<Rightarrow> bool" where
  "delivered_rel D r \<longleftrightarrow> (\<exists>A. replay_rel (of_nat ` A) r \<and> A \<subseteq> D \<and>
     (\<forall>n\<in>D. n < 2 ^ 64 - 256 \<and> n \<le> unat (most_recent r) \<and> (n \<in> A \<or> n + 256 \<le> unat (most_recent r))))"

lemma unat_of_nat_u64: "n < 2 ^ 64 \<Longrightarrow> unat (of_nat n :: u64) = n"
  by (simp add: unat_of_nat)

lemma delivered_rel_reset [simp]: "delivered_rel {} replay_reset"
  unfolding delivered_rel_def by (intro exI [of _ "{}"]) simp

definition refused :: "nat set \<Rightarrow> nat \<Rightarrow> bool" where
  "refused D n \<longleftrightarrow> n \<in> D \<or> (\<exists>j\<in>D. n + 256 \<le> j)"

lemma delivered_rel_duplicate:
  assumes R: "delivered_rel D r" and n: "n < 2 ^ 64 - 256"
  shows "is_duplicate r (of_nat n) \<longleftrightarrow> refused D n"
proof -
  obtain A where A: "replay_rel (of_nat ` A) r" "A \<subseteq> D"
    "\<And>n. n \<in> D \<Longrightarrow> n < 2 ^ 64 - 256 \<and> n \<le> unat (most_recent r) \<and> (n \<in> A \<or> n + 256 \<le> unat (most_recent r))"
    using R by (auto simp: delivered_rel_def)
  have u: "unat (of_nat m :: u64) = m" if "m < 2 ^ 64 - 256" for m
    using that by (intro unat_of_nat_u64) simp
  have mem: "(of_nat n :: u64) \<in> of_nat ` A \<longleftrightarrow> n \<in> A"
  proof
    assume "(of_nat n :: u64) \<in> of_nat ` A"
    then obtain m where "m \<in> A" "(of_nat n :: u64) = of_nat m" by blast
    moreover have "m < 2 ^ 64 - 256" using A(2,3) \<open>m \<in> A\<close> by blast
    ultimately show "n \<in> A" using u n by metis
  qed simp
  have top: "\<exists>j\<in>D. unat (most_recent r) = j" if nz: "most_recent r \<noteq> 0"
  proof -
    obtain j where "j \<in> A" "most_recent r = of_nat j"
      using A(1) nz by (auto simp: replay_rel_def)
    moreover have "j < 2 ^ 64 - 256" using A(2,3) \<open>j \<in> A\<close> by blast
    ultimately show ?thesis using A(2) u by auto
  qed
  have "is_duplicate r (of_nat n) \<longleftrightarrow> n \<in> A \<or> n + 256 \<le> unat (most_recent r)"
    using is_duplicate_iff [OF A(1), of "of_nat n"] u [OF n] n mem by simp
  also have "\<dots> \<longleftrightarrow> refused D n"
  proof
    assume "n \<in> A \<or> n + 256 \<le> unat (most_recent r)"
    then show "refused D n"
    proof
      assume "n + 256 \<le> unat (most_recent r)"
      with top show ?thesis by (cases "most_recent r = 0") (auto simp: refused_def)
    qed (use A(2) in \<open>auto simp: refused_def\<close>)
  next
    assume "refused D n"
    then show "n \<in> A \<or> n + 256 \<le> unat (most_recent r)"
      using A(3) by (fastforce simp: refused_def)
  qed
  finally show ?thesis .
qed

lemma delivered_rel_refused:
  assumes R: "delivered_rel D r" and n: "n < 2 ^ 64 - 256" "is_duplicate r (of_nat n)"
  shows "delivered_rel (insert n D) r"
proof -
  obtain A where A: "replay_rel (of_nat ` A) r" "A \<subseteq> D"
    "\<forall>n\<in>D. n < 2 ^ 64 - 256 \<and> n \<le> unat (most_recent r) \<and> (n \<in> A \<or> n + 256 \<le> unat (most_recent r))"
    using R by (auto simp: delivered_rel_def)
  have "refused D n" using delivered_rel_duplicate [OF R n(1)] n(2) by simp
  then have "n \<in> A \<or> n + 256 \<le> unat (most_recent r)" "n \<le> unat (most_recent r)"
    using A(3) by (fastforce simp: refused_def)+
  then show ?thesis
    unfolding delivered_rel_def using A n(1) by (intro exI [of _ A]) auto
qed

lemma delivered_rel_accepted:
  assumes R: "delivered_rel D r" and n: "n < 2 ^ 64 - 256" "\<not> is_duplicate r (of_nat n)"
  shows "delivered_rel (insert n D) (advance (of_nat n) r)"
proof -
  obtain A where A: "replay_rel (of_nat ` A) r" "A \<subseteq> D"
    "\<forall>n\<in>D. n < 2 ^ 64 - 256 \<and> n \<le> unat (most_recent r) \<and> (n \<in> A \<or> n + 256 \<le> unat (most_recent r))"
    using R by (auto simp: delivered_rel_def)
  have "unat (of_nat n :: u64) = n" using n(1) by (intro unat_of_nat_u64) simp
  then have mr: "unat (max (of_nat n) (most_recent r)) = max n (unat (most_recent r))"
    by (auto simp: max_def word_le_nat_alt)
  show ?thesis
    unfolding delivered_rel_def
  proof (intro exI [of _ "insert n A"] conjI ballI)
    show "replay_rel (of_nat ` insert n A) (advance (of_nat n) r)"
      using replay_rel_advance [OF A(1) n(2)] by simp
  qed (use A(2,3) n(1) in \<open>fastforce simp: mr\<close>)+
qed

context aead
begin

lemma decrypt_delivered:
  assumes "delivered_rel D (replay b)" and "enc (rx_key b) (build_nonce (of_nat n)) (build_aad pid prefix) pt = Some ct"
    and "n < 2 ^ 64 - 256" and "0 < length pt + overhead"
  shows "fst (packet_decrypt dec pid prefix (of_nat n) ct b) = (if refused D n then None else Some pt)"
    and "delivered_rel (insert n D) (replay (snd (packet_decrypt dec pid prefix (of_nat n) ct b)))"
proof -
  obtain ct' where "enc (rx_key b) (build_nonce (of_nat n)) (build_aad pid prefix) pt = Some ct'"
    "length ct' = length pt + overhead" by (rule enc_cases)
  with assms(2,4) have "\<not> length ct < 1" by simp
  moreover have "dec (rx_key b) (build_nonce (of_nat n)) (build_aad pid prefix) ct = Some pt"
    using dec_enc assms(2) by blast
  ultimately have *: "packet_decrypt dec pid prefix (of_nat n) ct b =
      (if is_duplicate (replay b) (of_nat n) then (None, b)
       else (Some pt, b\<lparr>replay := advance (of_nat n) (replay b)\<rparr>))"
    by (simp add: packet_decrypt_def)
  then show "fst (packet_decrypt dec pid prefix (of_nat n) ct b) = (if refused D n then None else Some pt)"
    using delivered_rel_duplicate [OF assms(1,3)] by simp
  show "delivered_rel (insert n D) (replay (snd (packet_decrypt dec pid prefix (of_nat n) ct b)))"
    using * delivered_rel_refused [OF assms(1,3)] delivered_rel_accepted [OF assms(1,3)] by simp
qed

lemma run_delivered:
  assumes "delivered_rel D (replay b)" and "length pts \<le> 2 ^ 64 - 256"
    and "\<And>j. j \<in> set js \<Longrightarrow> j < length pts \<and> 0 < length (pts ! j) + overhead \<and>
      enc (rx_key b) (build_nonce (of_nat j)) (build_aad pid prefix) (pts ! j) = Some (cts ! j)"
    and "k < length js"
  shows "fst (decrypt_run dec pid (map (\<lambda>j. (prefix, of_nat j, cts ! j)) js) b) ! k =
    (if refused (D \<union> set (take k js)) (js ! k) then None else Some (pts ! (js ! k)))"
  using assms
proof (induction js arbitrary: D b k)
  case (Cons j js)
  let ?d = "packet_decrypt dec pid prefix (of_nat j) (cts ! j) b"
  have j: "j < 2 ^ 64 - 256" "0 < length (pts ! j) + overhead"
    "enc (rx_key b) (build_nonce (of_nat j)) (build_aad pid prefix) (pts ! j) = Some (cts ! j)"
    using Cons.prems(2,3) by fastforce+
  note d = decrypt_delivered [OF Cons.prems(1) j(3,1,2)]
  show ?case
  proof (cases k)
    case 0
    then show ?thesis using d(1) by (simp add: Let_def split_beta)
  next
    case (Suc k')
    have "fst (decrypt_run dec pid (map (\<lambda>j. (prefix, of_nat j, cts ! j)) js) (snd ?d)) ! k' =
        (if refused (insert j D \<union> set (take k' js)) (js ! k') then None else Some (pts ! (js ! k')))"
      by (rule Cons.IH [OF d(2)]) (use Cons.prems Suc in auto)
    with Suc show ?thesis
      by (simp add: decrypt_run_Cons del: decrypt_run.simps)
  qed
qed simp

end

section \<open>Rekeying\<close>

text \<open>Two ends are paired when each end's sending key is the other's receiving key.\<close>

definition paired :: "KeyEpoch \<Rightarrow> KeyEpoch \<Rightarrow> bool" where
  "paired a b \<longleftrightarrow> tx_key a = rx_key b \<and> rx_key a = tx_key b \<and> epoch_number a = epoch_number b"

definition fresh_epoch :: "KeyEpoch \<Rightarrow> bool" where
  "fresh_epoch e \<longleftrightarrow> tx_nonce_counter e = 0 \<and> replay e = replay_reset"

lemma activate_rekey_simps [simp]:
  "tx_key (activate_rekey kdf time e) = derive_key kdf (tx_key e) (epoch_number e + 1)"
  "rx_key (activate_rekey kdf time e) = derive_key kdf (rx_key e) (epoch_number e + 1)"
  "old_rx_key (activate_rekey kdf time e) = old_rx_key e"
  "epoch_number (activate_rekey kdf time e) = epoch_number e + 1"
  "grace_packets_remaining (activate_rekey kdf time e) = 256"
  "fresh_epoch (activate_rekey kdf time e)"
  by (simp_all add: activate_rekey_def Let_def REKEY_GRACE_PACKETS_def fresh_epoch_def)

lemma packet_encrypt_keys [simp]:
  "tx_key (snd (packet_encrypt enc pid prefix pt e)) = tx_key e"
  "rx_key (snd (packet_encrypt enc pid prefix pt e)) = rx_key e"
  "old_rx_key (snd (packet_encrypt enc pid prefix pt e)) = old_rx_key e"
  "epoch_number (snd (packet_encrypt enc pid prefix pt e)) = epoch_number e"
  "replay (snd (packet_encrypt enc pid prefix pt e)) = replay e"
  by (simp_all add: packet_encrypt_def split: option.splits)

lemma packet_decrypt_epoch [simp]:
  "epoch_number (snd (packet_decrypt dec pid prefix nonce ct e)) = epoch_number e"
  by (cases rule: packet_decrypt_cases [of dec pid prefix nonce ct e]; simp)

lemma is_duplicate_reset [simp]: "\<not> is_duplicate replay_reset n"
proof -
  have "replicate 256 EMPTY_SLOT ! (unat n mod 256) = EMPTY_SLOT"
    by (rule nth_replicate) simp
  then show ?thesis by (simp add: is_duplicate_def replay_reset_def WINDOW_SIZE_def)
qed

text \<open>The packets a run of the grace window opens.\<close>

fun grace_run ::
    "aead_fn \<Rightarrow> u64 \<Rightarrow> (byte \<times> u64 \<times> byte list) list \<Rightarrow> KeyEpoch \<Rightarrow> byte list list \<times> KeyEpoch" where
  "grace_run dec pid [] e = ([], e)"
| "grace_run dec pid ((prefix, nonce, ct) # ps) e =
     (let (r, e1) = packet_decrypt_grace dec pid prefix nonce ct e; (rs, e2) = grace_run dec pid ps e1
      in (case r of None \<Rightarrow> rs | Some pt \<Rightarrow> pt # rs, e2))"

lemma grace_step:
  assumes "packet_decrypt_grace dec pid prefix nonce ct e = (r, e')"
  shows "grace_packets_remaining e = (if r = None then 0 else 1) + grace_packets_remaining e'"
    and "grace_packets_remaining e' = 0 \<Longrightarrow> r \<noteq> None \<Longrightarrow> old_rx_key e' = replicate 32 0"
    and "grace_packets_remaining e' \<noteq> 0 \<or> r = None \<Longrightarrow> old_rx_key e' = old_rx_key e"
  using assms
  by (auto simp: packet_decrypt_grace_def Let_def split: if_splits option.splits)

lemma grace_run_bound:
  assumes "grace_run dec pid ps e = (pts, e')"
  shows "grace_packets_remaining e = length pts + grace_packets_remaining e'"
    and "pts \<noteq> [] \<Longrightarrow> grace_packets_remaining e' = 0 \<Longrightarrow> old_rx_key e' = replicate 32 0"
proof -
  have "grace_packets_remaining e = length pts + grace_packets_remaining e' \<and>
    (grace_packets_remaining e' = 0 \<longrightarrow> pts \<noteq> [] \<or> old_rx_key e = replicate 32 0 \<longrightarrow> old_rx_key e' = replicate 32 0)"
    using assms
  proof (induction ps arbitrary: e pts)
    case (Cons p ps)
    obtain prefix nonce ct where p: "p = (prefix, nonce, ct)" by (cases p)
    obtain r e1 where d: "packet_decrypt_grace dec pid prefix nonce ct e = (r, e1)" by fastforce
    obtain rs e2 where g: "grace_run dec pid ps e1 = (rs, e2)" by fastforce
    have e2: "e2 = e'" "pts = (case r of None \<Rightarrow> rs | Some pt \<Rightarrow> pt # rs)"
      using Cons.prems p d g by simp_all
    note ih = Cons.IH [OF g [unfolded e2(1)]]
    show ?case
      using ih grace_step [OF d] e2(2) by (cases r; cases rs) auto
  qed simp
  then show "grace_packets_remaining e = length pts + grace_packets_remaining e'"
    and "pts \<noteq> [] \<Longrightarrow> grace_packets_remaining e' = 0 \<Longrightarrow> old_rx_key e' = replicate 32 0"
    by auto
qed

section \<open>Properties\<close>

text \<open>
  C4. Replay protection. Whatever packets an attacker feeds to the receiver of an epoch, with
  whatever nonces and whatever the AEAD returns: the nonces of the packets that
  \<^verbatim>\<open>packet_decrypt\<close> hands out are pairwise different.
\<close>

theorem no_nonce_accepted_twice:
  "distinct (accepted_nonces ps (fst (decrypt_run dec pid ps (e\<lparr>replay := replay_reset\<rparr>))))"
  using accepted_nonces_fresh [of "{}" "e\<lparr>replay := replay_reset\<rparr>"] by simp

text \<open>
  C5. Delivery. A sender encrypts the packets \<open>pts\<close> in a fresh epoch; the network delivers the
  packets with the numbers \<open>js\<close>, in any order, with losses and duplicates. With a correct AEAD the
  receiver returns the \<open>k\<close>-th delivered packet's plaintext exactly if that packet was not
  delivered before and is less than 256 behind every packet delivered before.
\<close>

theorem delivery_exactly_once:
  assumes "aead enc dec overhead"
    and "rx_key b = tx_key a" and "tx_nonce_counter a = 0" and "replay b = replay_reset"
    and "length pts \<le> 2 ^ 64 - 256" and "\<forall>pt\<in>set pts. 0 < length pt + overhead"
    and "\<forall>j\<in>set js. j < length pts" and "k < length js"
    and "cts = fst (encrypt_run enc pid prefix pts a)"
  shows "fst (decrypt_run dec pid (map (\<lambda>j. (prefix, of_nat j, the (cts ! j))) js) b) ! k =
    (if refused (set (take k js)) (js ! k) then None else Some (pts ! (js ! k)))"
proof -
  have total: "\<exists>ct. enc key nonce aad pt = Some ct" for key nonce aad pt
    using aead.enc_total [OF assms(1)] by blast
  have ct: "enc (rx_key b) (build_nonce (of_nat j)) (build_aad pid prefix) (pts ! j) = Some (map the cts ! j)"
    if "j < length pts" for j
  proof -
    have "cts ! j = enc (rx_key b) (build_nonce (of_nat j)) (build_aad pid prefix) (pts ! j)"
      using encrypt_run_nth [OF that, of enc pid prefix a] total assms(2,3,9) by fastforce
    moreover have "length cts = length pts" using assms(9) by simp
    ultimately show ?thesis
      using total that by (metis nth_map option.sel)
  qed
  have pos: "0 < length (pts ! j) + overhead" if "j < length pts" for j
    using assms(6) nth_mem [OF that] by blast
  have "map the cts ! j = the (cts ! j)" if "j \<in> set js" for j
    using that assms(7,9) by (intro nth_map) simp
  then have eq: "map (\<lambda>j. (prefix, of_nat j, the (cts ! j))) js =
      map (\<lambda>j. (prefix, of_nat j, map the cts ! j)) js"
    by simp
  have "fst (decrypt_run dec pid (map (\<lambda>j. (prefix, of_nat j, map the cts ! j)) js) b) ! k =
      (if refused ({} \<union> set (take k js)) (js ! k) then None else Some (pts ! (js ! k)))"
    by (rule aead.run_delivered [OF assms(1)]) (use assms(4,5,7,8) ct pos in auto)
  then show ?thesis by (simp add: eq)
qed

theorem delivery_exactly_once_witness:
  "let a = key_epoch_init\<lparr>tx_key := replicate 32 7\<rparr>; b = key_epoch_init\<lparr>rx_key := replicate 32 7\<rparr>;
       cts = fst (encrypt_run xor_encrypt 1 4 [[1], [2], [3]] a);
       out = fst (decrypt_run xor_decrypt 1 (map (\<lambda>j. (4, of_nat j, the (cts ! j))) [2, 0, 2]) b)
   in out ! 0 = Some [3] \<and> out ! 1 = Some [1] \<and> out ! 2 = None"
proof -
  let ?a = "key_epoch_init\<lparr>tx_key := replicate 32 7\<rparr>" and ?b = "key_epoch_init\<lparr>rx_key := replicate 32 7\<rparr>"
  let ?cts = "fst (encrypt_run xor_encrypt 1 4 [[1], [2], [3]] ?a)"
  have "fst (decrypt_run xor_decrypt 1 (map (\<lambda>j. (4, of_nat j, the (?cts ! j))) [2, 0, 2]) ?b) ! k =
      (if refused (set (take k [2, 0, 2])) ([2, 0, 2] ! k) then None else Some ([[1], [2], [3]] ! ([2, 0, 2] ! k)))"
    if "k < 3" for k
    by (rule delivery_exactly_once [OF xor_mode.aead_axioms, of _ ?a])
      (use that in \<open>simp_all add: key_epoch_init_def\<close>)
  from this [of 0] this [of 1] this [of 2] show ?thesis
    by (simp add: Let_def refused_def)
qed

text \<open>
  C17. Nonces are not reused. In an epoch of fewer than \<open>2^64\<close> packets the \<open>i\<close>-th packet is encrypted
  under the epoch's key with a nonce of its own.
\<close>

theorem nonces_not_reused:
  assumes "aead enc dec overhead" and "i < length pts" and "j < length pts" and "length pts \<le> 2 ^ 64"
  shows "\<exists>nonce. fst (encrypt_run enc pid prefix pts e) ! i = enc (tx_key e) (nonce i) (build_aad pid prefix) (pts ! i) \<and>
    fst (encrypt_run enc pid prefix pts e) ! j = enc (tx_key e) (nonce j) (build_aad pid prefix) (pts ! j) \<and>
    (nonce i = nonce j \<longrightarrow> i = j)"
proof (intro exI [of _ "\<lambda>i. build_nonce (tx_nonce_counter e + of_nat i)"] conjI impI)
  have total: "enc key nonce aad pt \<noteq> None" for key nonce aad pt
    using aead.enc_total [OF assms(1), of key nonce aad pt] by auto
  show "fst (encrypt_run enc pid prefix pts e) ! i =
      enc (tx_key e) (build_nonce (tx_nonce_counter e + of_nat i)) (build_aad pid prefix) (pts ! i)"
    and "fst (encrypt_run enc pid prefix pts e) ! j =
      enc (tx_key e) (build_nonce (tx_nonce_counter e + of_nat j)) (build_aad pid prefix) (pts ! j)"
    using encrypt_run_nth total assms(2,3) by blast+
next
  assume "build_nonce (tx_nonce_counter e + of_nat i) = build_nonce (tx_nonce_counter e + of_nat j)"
  then have "(of_nat i :: u64) = of_nat j" by simp
  moreover have "i < 2 ^ 64" "j < 2 ^ 64" using assms(2-4) by linarith+
  ultimately show "i = j"
    using unat_of_nat_u64 by metis
qed

theorem nonces_not_reused_witness:
  "\<exists>nonce. fst (encrypt_run xor_encrypt 1 4 [[1], [2]] key_epoch_init) ! 0 =
      xor_encrypt (tx_key key_epoch_init) (nonce 0) (build_aad 1 4) [1] \<and>
    fst (encrypt_run xor_encrypt 1 4 [[1], [2]] key_epoch_init) ! 1 =
      xor_encrypt (tx_key key_epoch_init) (nonce 1) (build_aad 1 4) [2] \<and> nonce 0 \<noteq> nonce (1 :: nat)"
  using nonces_not_reused [OF xor_mode.aead_axioms, of 0 "[[1], [2]]" 1 1 4 key_epoch_init] by auto

text \<open>
  C9. Rekeying. End \<open>a\<close> prepares a rekey, sends one packet with the rekey prefix and activates the
  new epoch; end \<open>b\<close> opens that packet and then switches. If the two ends were paired and \<open>b\<close> had not
  seen the nonce, \<open>b\<close> gets the plaintext, both ends are paired again under the next epoch number with
  their counters and windows reset, and a packet \<open>b\<close> had encrypted under the old keys still opens
  at \<open>a\<close> through the grace window.
\<close>

theorem rekey_agreement:
  assumes "aead enc dec overhead" and "paired a b" and "0 < length pt + overhead"
    and "\<not> is_duplicate (replay b) (tx_nonce_counter a)"
    and "packet_encrypt enc pid 12 pt (prepare_rekey a) = (Some ct, a1)"
    and "packet_decrypt dec pid 12 (tx_nonce_counter a) ct b = (r, b1)"
    and "packet_encrypt enc pid prefix late b = (Some late_ct, b0)" and "0 < length late + overhead"
  shows "r = Some pt \<and> paired (activate_rekey kdf ta a1) (on_receive_rekey kdf tb b1) \<and>
    epoch_number (activate_rekey kdf ta a1) = epoch_number a + 1 \<and>
    fresh_epoch (activate_rekey kdf ta a1) \<and> fresh_epoch (on_receive_rekey kdf tb b1) \<and>
    fst (packet_decrypt_grace dec pid prefix (tx_nonce_counter b) late_ct (activate_rekey kdf ta a1)) = Some late"
proof -
  have keys: "tx_key a = rx_key b" "rx_key a = tx_key b" "epoch_number a = epoch_number b"
    using assms(2) by (simp_all add: paired_def)
  have e: "enc (tx_key a) (build_nonce (tx_nonce_counter a)) (build_aad pid 12) pt = Some ct"
    and a1: "tx_key a1 = tx_key a" "rx_key a1 = rx_key a" "old_rx_key a1 = rx_key a" "epoch_number a1 = epoch_number a"
    using assms(5) packet_encrypt_keys [of enc pid 12 pt "prepare_rekey a"]
    by (auto simp: packet_encrypt_def prepare_rekey_def split: option.splits)
  have l: "enc (tx_key b) (build_nonce (tx_nonce_counter b)) (build_aad pid prefix) late = Some late_ct"
    using assms(7) by (auto simp: packet_encrypt_def split: option.splits)
  have ne: "ct \<noteq> []" "late_ct \<noteq> []"
    using aead.dec_length [OF assms(1) aead.dec_enc [OF assms(1) e]]
      aead.dec_length [OF assms(1) aead.dec_enc [OF assms(1) l]] assms(3,8) by auto
  have d: "dec (rx_key b) (build_nonce (tx_nonce_counter a)) (build_aad pid 12) ct = Some pt"
    "dec (rx_key a) (build_nonce (tx_nonce_counter b)) (build_aad pid prefix) late_ct = Some late"
    using aead.dec_enc [OF assms(1)] e l keys by auto
  have "r = Some pt"
    using assms(4,6) d(1) ne by (auto simp: packet_decrypt_def split: if_splits)
  moreover have "rx_key b1 = rx_key b" "tx_key b1 = tx_key b" "epoch_number b1 = epoch_number b"
    using assms(6) packet_decrypt_keys [of dec pid 12 "tx_nonce_counter a" ct b]
      packet_decrypt_epoch [of dec pid 12 "tx_nonce_counter a" ct b] by simp_all
  ultimately show ?thesis
    using a1 keys d(2) ne
    by (simp add: paired_def on_receive_rekey_def packet_decrypt_grace_def)
qed

theorem rekey_agreement_witness:
  "let k = replicate 32 7; a = key_epoch_init\<lparr>tx_key := k\<rparr>; b = key_epoch_init\<lparr>rx_key := k\<rparr>;
       (ct, a1) = packet_encrypt xor_encrypt 1 12 [5] (prepare_rekey a);
       (r, b1) = packet_decrypt xor_decrypt 1 12 0 (the ct) b
   in r = Some [5] \<and> paired (activate_rekey xor_bytes 0 a1) (on_receive_rekey xor_bytes 0 b1)"
proof -
  let ?a = "key_epoch_init\<lparr>tx_key := replicate 32 7\<rparr>" and ?b = "key_epoch_init\<lparr>rx_key := replicate 32 7\<rparr>"
  let ?e = "packet_encrypt xor_encrypt 1 12 [5] (prepare_rekey ?a)"
  let ?d = "packet_decrypt xor_decrypt 1 12 (tx_nonce_counter ?a) (the (fst ?e)) ?b"
  let ?l = "packet_encrypt xor_encrypt 1 4 [6] ?b"
  have some: "?e = (Some (the (fst ?e)), snd ?e)" "?l = (Some (the (fst ?l)), snd ?l)"
    by (simp_all add: packet_encrypt_def xor_encrypt_def)
  have init: "paired ?a ?b" "\<not> is_duplicate (replay ?b) (tx_nonce_counter ?a)"
    "0 < length [5 :: byte] + 0" "0 < length [6 :: byte] + 0"
    by (simp_all add: paired_def key_epoch_init_def)
  have "fst ?d = Some [5] \<and> paired (activate_rekey xor_bytes 0 (snd ?e)) (on_receive_rekey xor_bytes 0 (snd ?d))"
    using rekey_agreement [OF xor_mode.aead_axioms init(1,3,2) some(1) prod.collapse [symmetric] some(2) init(4),
        where kdf = xor_bytes and ta = 0 and tb = 0] by blast
  moreover have "tx_nonce_counter ?a = 0"
    by (simp add: key_epoch_init_def)
  ultimately show ?thesis
    unfolding Let_def split_beta by (simp only:)
qed

text \<open>
  C18. The grace window is bounded. After a rekey at most 256 packets open under the old key,
  whatever arrives, and when the last of them is opened the old key is zeroed.
\<close>

theorem grace_window_bounded:
  assumes "grace_run dec pid ps (activate_rekey kdf time e) = (pts, e')"
  shows "length pts \<le> 256 \<and> (length pts = 256 \<longrightarrow> old_rx_key e' = replicate 32 0)"
  using grace_run_bound [OF assms] by (cases pts) auto

theorem grace_window_bounded_witness:
  "length (fst (grace_run none_decrypt 1 [(4, 0, [1])] (activate_rekey xor_bytes 0 key_epoch_init))) \<le> 256"
  using grace_window_bounded [OF prod.collapse [symmetric],
      of none_decrypt 1 "[(4, 0, [1])]" xor_bytes 0 key_epoch_init] by blast

text \<open>
  The grace window has no replay protection: a packet that opens under the old key opens a
  second time, with the same nonce, as long as two grace packets remain.
\<close>

theorem grace_window_replay:
  assumes "packet_decrypt_grace dec pid prefix nonce ct e = (Some pt, e1)" and "2 \<le> grace_packets_remaining e"
  shows "fst (packet_decrypt_grace dec pid prefix nonce ct e1) = Some pt"
  using assms
  by (auto simp: packet_decrypt_grace_def Let_def split: if_splits option.splits)

theorem grace_window_replay_witness:
  "fst (packet_decrypt_grace none_decrypt 1 4 0 [9]
     (snd (packet_decrypt_grace none_decrypt 1 4 0 [9] (activate_rekey xor_bytes 0 key_epoch_init)))) = Some [9]"
proof (rule grace_window_replay)
  show "packet_decrypt_grace none_decrypt 1 4 0 [9] (activate_rekey xor_bytes 0 key_epoch_init) =
    (Some [9], snd (packet_decrypt_grace none_decrypt 1 4 0 [9] (activate_rekey xor_bytes 0 key_epoch_init)))"
    by (simp add: packet_decrypt_grace_def none_decrypt_def Let_def)
qed simp

end
