(* ===== verification/Reliable_Channel.thy ===== *)
theory Reliable_Channel
  imports Netudp_Prelude
begin

text \<open>
  \<^verbatim>\<open>reliability/reliable_channel.h\<close>: the per-channel state of reliable messages. The sender keeps
  the last 64 messages for retransmission; the receiver buffers up to 64 messages ahead of the
  next expected one and delivers them in order, or, on an unordered channel, remembers which
  numbers it saw. A message is the list of its bytes; an array \<^verbatim>\<open>data[1200]\<close> with its
  \<^verbatim>\<open>data_len\<close> is one list.
\<close>

section \<open>State and operations\<close>

record SentMessage =
  sm_sequence :: u16
  sm_packet_sequence :: u16
  sm_send_time :: real
  sm_retry_count :: nat
  sm_data :: "byte list"
  sm_acked :: bool
  sm_valid :: bool

record ReceivedMessage =
  rm_sequence :: u16
  rm_data :: "byte list"
  rm_valid :: bool

definition RELIABLE_BUFFER_SIZE :: nat where
  "RELIABLE_BUFFER_SIZE = 64"

definition MAX_RETRIES :: nat where
  "MAX_RETRIES = 10"

record ReliableChannelState =
  send_seq :: u16
  recv_seq :: u16
  rel_oldest_unacked :: u16
  sent_buffer :: "SentMessage list"
  recv_buffer :: "ReceivedMessage list"
  messages_dropped :: u32

definition empty_sent :: SentMessage where
  "empty_sent = \<lparr>sm_sequence = 0, sm_packet_sequence = 0, sm_send_time = 0, sm_retry_count = 0,
     sm_data = [], sm_acked = False, sm_valid = False\<rparr>"

definition empty_received :: ReceivedMessage where
  "empty_received = \<lparr>rm_sequence = 0, rm_data = [], rm_valid = False\<rparr>"

definition reliable_reset :: ReliableChannelState where
  "reliable_reset = \<lparr>send_seq = 0, recv_seq = 0, rel_oldest_unacked = 0,
     sent_buffer = replicate RELIABLE_BUFFER_SIZE empty_sent,
     recv_buffer = replicate RELIABLE_BUFFER_SIZE empty_received, messages_dropped = 0\<rparr>"

definition rel_idx :: "u16 \<Rightarrow> nat" where
  "rel_idx seq = unat seq mod RELIABLE_BUFFER_SIZE"

definition record_send :: "byte list \<Rightarrow> u16 \<Rightarrow> real \<Rightarrow> ReliableChannelState \<Rightarrow> bool \<times> ReliableChannelState" where
  "record_send data packet_seq time c =
     (if length data = 0 \<or> 1200 < length data then (False, c)
      else let msg = \<lparr>sm_sequence = send_seq c, sm_packet_sequence = packet_seq, sm_send_time = time,
                       sm_retry_count = 0, sm_data = data, sm_acked = False, sm_valid = True\<rparr>
           in (True, c\<lparr>sent_buffer := (sent_buffer c)[rel_idx (send_seq c) := msg],
                       send_seq := send_seq c + 1\<rparr>))"

function rel_advance_oldest :: "ReliableChannelState \<Rightarrow> ReliableChannelState" where
  "rel_advance_oldest c =
     (if rel_oldest_unacked c \<noteq> send_seq c then
        let oidx = rel_idx (rel_oldest_unacked c); msg = sent_buffer c ! oidx
        in if \<not> sm_acked msg \<or> sm_sequence msg \<noteq> rel_oldest_unacked c then c
           else rel_advance_oldest
             (c\<lparr>sent_buffer := (sent_buffer c)[oidx := msg\<lparr>sm_valid := False\<rparr>],
                rel_oldest_unacked := rel_oldest_unacked c + 1\<rparr>)
      else c)"
  by pat_completeness auto

termination rel_advance_oldest
  by (relation "measure (\<lambda>c. unat (send_seq c - rel_oldest_unacked c))") (auto simp: unat_diff_Suc_less)

declare rel_advance_oldest.simps [simp del]

definition rel_mark_acked :: "u16 \<Rightarrow> ReliableChannelState \<Rightarrow> ReliableChannelState" where
  "rel_mark_acked msg_seq c =
     (let idx = rel_idx msg_seq; msg = sent_buffer c ! idx;
          c1 = (if sm_valid msg \<and> sm_sequence msg = msg_seq
                then c\<lparr>sent_buffer := (sent_buffer c)[idx := msg\<lparr>sm_acked := True\<rparr>]\<rparr> else c)
      in rel_advance_oldest c1)"

definition get_for_retransmit :: "ReliableChannelState \<Rightarrow> u16 \<Rightarrow> SentMessage option" where
  "get_for_retransmit c msg_seq =
     (let msg = sent_buffer c ! rel_idx msg_seq
      in if sm_valid msg \<and> sm_sequence msg = msg_seq \<and> \<not> sm_acked msg then Some msg else None)"

text \<open>The loop of \<^verbatim>\<open>find_retransmits\<close>: the sequence numbers written so far are \<open>out\<close>.\<close>

function find_retransmits_loop ::
    "real \<Rightarrow> real \<Rightarrow> nat \<Rightarrow> u16 \<Rightarrow> u16 list \<Rightarrow> ReliableChannelState \<Rightarrow> u16 list \<times> ReliableChannelState" where
  "find_retransmits_loop now rto max_count seq out c =
     (if seq \<noteq> send_seq c \<and> length out < max_count then
        let idx = rel_idx seq; msg = sent_buffer c ! idx
        in if \<not> sm_valid msg \<or> sm_sequence msg \<noteq> seq \<or> sm_acked msg
           then find_retransmits_loop now rto max_count (seq + 1) out c
           else let effective_rto = rto * 2 ^ min (sm_retry_count msg) 5
             in if now - sm_send_time msg \<ge> effective_rto then
                  if sm_retry_count msg \<ge> MAX_RETRIES
                  then find_retransmits_loop now rto max_count (seq + 1) out
                         (c\<lparr>sent_buffer := (sent_buffer c)[idx := msg\<lparr>sm_valid := False\<rparr>],
                            messages_dropped := messages_dropped c + 1\<rparr>)
                  else find_retransmits_loop now rto max_count (seq + 1) (out @ [seq]) c
                else find_retransmits_loop now rto max_count (seq + 1) out c
      else (out, c))"
  by pat_completeness auto

termination find_retransmits_loop
  by (relation "measure (\<lambda>(now, rto, max_count, seq, out, c). unat (send_seq c - seq))")
    (auto simp: unat_diff_Suc_less)

declare find_retransmits_loop.simps [simp del]

definition find_retransmits ::
    "real \<Rightarrow> real \<Rightarrow> nat \<Rightarrow> ReliableChannelState \<Rightarrow> u16 list \<times> ReliableChannelState" where
  "find_retransmits now rto max_count c = find_retransmits_loop now rto max_count (rel_oldest_unacked c) [] c"

definition buffer_received_ordered ::
    "u16 \<Rightarrow> byte list \<Rightarrow> ReliableChannelState \<Rightarrow> bool \<times> ReliableChannelState" where
  "buffer_received_ordered msg_seq data c =
     (let diff = seq_diff msg_seq (recv_seq c)
      in if diff < 0 then (False, c)
         else if diff \<ge> int RELIABLE_BUFFER_SIZE then (False, c)
         else let idx = rel_idx msg_seq
           in if rm_valid (recv_buffer c ! idx) \<and> rm_sequence (recv_buffer c ! idx) = msg_seq then (False, c)
              else (True, c\<lparr>recv_buffer := (recv_buffer c)
                     [idx := \<lparr>rm_sequence = msg_seq, rm_data = take 1200 data, rm_valid = True\<rparr>]\<rparr>))"

text \<open>
  The delivery loop. The callbacks' arguments are collected in order. The guard on the index is the
  array bound, which always holds (\<open>rel_ok\<close>).
\<close>

definition valid_count :: "ReceivedMessage list \<Rightarrow> nat" where
  "valid_count ms = length (filter rm_valid ms)"

lemma valid_count_clear:
  assumes "i < length ms" and "rm_valid (ms ! i)"
  shows "valid_count (ms[i := (ms ! i)\<lparr>rm_valid := False\<rparr>]) < valid_count ms"
proof -
  have "valid_count ms = valid_count (take i ms @ ms ! i # drop (Suc i) ms)"
    using id_take_nth_drop [OF assms(1)] by (rule arg_cong)
  also have "\<dots> = valid_count (take i ms) + Suc (valid_count (drop (Suc i) ms))"
    using assms(2) by (simp add: valid_count_def)
  finally have "valid_count ms = valid_count (take i ms) + Suc (valid_count (drop (Suc i) ms))" .
  moreover have "valid_count (ms[i := (ms ! i)\<lparr>rm_valid := False\<rparr>]) =
      valid_count (take i ms) + valid_count (drop (Suc i) ms)"
    using assms(1) by (simp add: upd_conv_take_nth_drop valid_count_def)
  ultimately show ?thesis by simp
qed

function deliver_ordered :: "ReliableChannelState \<Rightarrow> (byte list \<times> u16) list \<times> ReliableChannelState" where
  "deliver_ordered c =
     (let idx = rel_idx (recv_seq c); msg = recv_buffer c ! idx
      in if idx < length (recv_buffer c) \<and> rm_valid msg \<and> rm_sequence msg = recv_seq c then
           let (out, c') = deliver_ordered
                 (c\<lparr>recv_buffer := (recv_buffer c)[idx := msg\<lparr>rm_valid := False\<rparr>], recv_seq := recv_seq c + 1\<rparr>)
           in ((rm_data msg, recv_seq c) # out, c')
         else ([], c))"
  by pat_completeness auto

termination deliver_ordered
  by (relation "measure (\<lambda>c. valid_count (recv_buffer c))") (auto simp: valid_count_clear)

declare deliver_ordered.simps [simp del]

definition is_received_unordered :: "ReliableChannelState \<Rightarrow> u16 \<Rightarrow> bool" where
  "is_received_unordered c msg_seq \<longleftrightarrow>
     rm_valid (recv_buffer c ! rel_idx msg_seq) \<and> rm_sequence (recv_buffer c ! rel_idx msg_seq) = msg_seq"

definition mark_received_unordered :: "u16 \<Rightarrow> ReliableChannelState \<Rightarrow> ReliableChannelState" where
  "mark_received_unordered msg_seq c =
     (let idx = rel_idx msg_seq
      in c\<lparr>recv_buffer := (recv_buffer c)[idx := (recv_buffer c ! idx)\<lparr>rm_sequence := msg_seq, rm_valid := True\<rparr>]\<rparr>)"

text \<open>
  What the packet handlers of server and client do with a reliable message of each kind: the data
  handed to the application, in order.
\<close>

definition receive_ordered ::
    "u16 \<Rightarrow> byte list \<Rightarrow> ReliableChannelState \<Rightarrow> (byte list \<times> u16) list \<times> ReliableChannelState" where
  "receive_ordered msg_seq data c =
     (let (new, c1) = buffer_received_ordered msg_seq data c
      in if new then let (out, c2) = deliver_ordered c1 in (map (\<lambda>(d, s). (take 1200 d, s)) out, c2)
         else ([], c1))"

definition receive_unordered ::
    "u16 \<Rightarrow> byte list \<Rightarrow> ReliableChannelState \<Rightarrow> (byte list \<times> u16) list \<times> ReliableChannelState" where
  "receive_unordered msg_seq data c =
     (if \<not> is_received_unordered c msg_seq
      then ([(take 1200 data, msg_seq)], mark_received_unordered msg_seq c) else ([], c))"

section \<open>Ordered delivery refines an unbounded message stream\<close>

text \<open>
  The stream \<open>m\<close> of messages the peer sent is indexed by unwrapped numbers. \<open>R\<close> is the number of the
  next message to deliver and \<open>B\<close> the set of the messages held in the buffer.
\<close>

definition stored :: "(nat \<Rightarrow> byte list) \<Rightarrow> nat \<Rightarrow> ReceivedMessage" where
  "stored m n = \<lparr>rm_sequence = of_nat n, rm_data = take 1200 (m n), rm_valid = True\<rparr>"

definition ordered_rel :: "(nat \<Rightarrow> byte list) \<Rightarrow> nat \<Rightarrow> nat set \<Rightarrow> ReliableChannelState \<Rightarrow> bool" where
  "ordered_rel m R B c \<longleftrightarrow> recv_seq c = of_nat R \<and> length (recv_buffer c) = 64 \<and>
     (\<forall>n\<in>B. R \<le> n \<and> n < R + 64 \<and> recv_buffer c ! (n mod 64) = stored m n) \<and>
     (\<forall>i<64. rm_valid (recv_buffer c ! i) \<longrightarrow> (\<exists>n\<in>B. n mod 64 = i))"

lemma ordered_relD:
  assumes "ordered_rel m R B c"
  shows "recv_seq c = of_nat R" "length (recv_buffer c) = 64"
    "n \<in> B \<Longrightarrow> R \<le> n" "n \<in> B \<Longrightarrow> n < R + 64" "n \<in> B \<Longrightarrow> recv_buffer c ! (n mod 64) = stored m n"
    "i < 64 \<Longrightarrow> rm_valid (recv_buffer c ! i) \<Longrightarrow> \<exists>n\<in>B. n mod 64 = i"
  using assms by (auto simp: ordered_rel_def)

lemma ordered_rel_reset [simp]: "ordered_rel m 0 {} reliable_reset"
  by (simp add: ordered_rel_def reliable_reset_def RELIABLE_BUFFER_SIZE_def empty_received_def)

lemma rel_idx_of_nat [simp]: "rel_idx (of_nat n) = n mod 64"
proof -
  have "n mod 65536 mod 64 = n mod (64 :: nat)"
    by (rule mod_mod_cancel) simp
  then show ?thesis by (simp add: rel_idx_def RELIABLE_BUFFER_SIZE_def unat_of_nat)
qed

lemma same_slot_eq:
  assumes "ordered_rel m R B c" and "n \<in> B" and "R \<le> k" and "k < R + 64" and "n mod 64 = k mod 64"
  shows "n = k"
  using ordered_relD(3,4) [OF assms(1,2)] assms(3-5) by (intro mod_eq_near [of n 64 k]) simp_all

lemma slot_holds:
  assumes R: "ordered_rel m R B c" and n: "R \<le> n" "n < R + 64"
  shows "rm_valid (recv_buffer c ! (n mod 64)) \<and> rm_sequence (recv_buffer c ! (n mod 64)) = of_nat n \<longleftrightarrow> n \<in> B"
proof
  assume "rm_valid (recv_buffer c ! (n mod 64)) \<and> rm_sequence (recv_buffer c ! (n mod 64)) = of_nat n"
  then obtain k where "k \<in> B" "k mod 64 = n mod 64"
    using ordered_relD(6) [OF R, of "n mod 64"] by auto
  then show "n \<in> B" using same_slot_eq [OF R _ n] by blast
next
  assume "n \<in> B"
  then show "rm_valid (recv_buffer c ! (n mod 64)) \<and> rm_sequence (recv_buffer c ! (n mod 64)) = of_nat n"
    using ordered_relD(5) [OF R] by (simp add: stored_def)
qed

lemma ordered_rel_buffer:
  assumes R: "ordered_rel m R B c" and near: "- 32768 \<le> int n - int R" "int n - int R < 32768"
    and step: "buffer_received_ordered (of_nat n) (m n) c = (new, c')"
  shows "new \<longleftrightarrow> R \<le> n \<and> n < R + 64 \<and> n \<notin> B" and "ordered_rel m R (if new then insert n B else B) c'"
proof -
  note r = ordered_relD [OF R]
  have diff: "seq_diff (of_nat n) (recv_seq c) = int n - int R"
    using r(1) near by (simp add: seq_diff_of_nat)
  show new: "new \<longleftrightarrow> R \<le> n \<and> n < R + 64 \<and> n \<notin> B"
    using step slot_holds [OF R] diff
    by (auto simp: buffer_received_ordered_def Let_def RELIABLE_BUFFER_SIZE_def split: if_splits)
  show "ordered_rel m R (if new then insert n B else B) c'"
  proof (cases new)
    case False
    then show ?thesis
      using R step by (auto simp: buffer_received_ordered_def Let_def split: if_splits)
  next
    case True
    then have n: "R \<le> n" "n < R + 64" "n \<notin> B" using new by simp_all
    have c': "c' = c\<lparr>recv_buffer := (recv_buffer c)[n mod 64 := stored m n]\<rparr>"
      using step True by (auto simp: buffer_received_ordered_def Let_def stored_def split: if_splits)
    have apart: False if "k \<in> B" "n mod 64 = k mod 64" for k
      using same_slot_eq [OF R that(1) n(1,2)] that n(3) by simp
    from r n True show ?thesis
      by (auto simp: ordered_rel_def c' nth_list_update dest: apart)
  qed
qed

lemma ordered_rel_pop:
  assumes R: "ordered_rel m R B c" and mem: "R \<in> B"
  shows "ordered_rel m (Suc R) (B - {R})
    (c\<lparr>recv_buffer := (recv_buffer c)[R mod 64 := (recv_buffer c ! (R mod 64))\<lparr>rm_valid := False\<rparr>],
       recv_seq := recv_seq c + 1\<rparr>)"
proof -
  note r = ordered_relD [OF R]
  have apart: False if "k \<in> B" "k \<noteq> R" "R mod 64 = k mod 64" for k
    using same_slot_eq [OF R that(1), of R] that by simp
  have "Suc R \<le> k \<and> k < Suc R + 64" if "k \<in> B - {R}" for k
    using r(3,4) [of k] that by auto
  moreover have "\<exists>n\<in>B - {R}. n mod 64 = i" if "i < 64" "i \<noteq> R mod 64" "rm_valid (recv_buffer c ! i)" for i
    using r(6) [OF that(1,3)] that(2) by auto
  ultimately show ?thesis
    using r(1,2,5) by (auto simp: ordered_rel_def nth_list_update add.commute dest: apart)
qed

lemma deliver_ordered_spec:
  assumes "ordered_rel m R B c" and "deliver_ordered c = (out, c')"
  shows "\<exists>R'. R \<le> R' \<and> {R..<R'} \<subseteq> B \<and> R' \<notin> B \<and>
    out = map (\<lambda>n. (take 1200 (m n), of_nat n)) [R..<R'] \<and> ordered_rel m R' (B - {R..<R'}) c'"
  using assms
proof (induction c arbitrary: R B out rule: deliver_ordered.induct)
  case (1 c)
  note r = ordered_relD [OF "1.prems"(1)]
  let ?c = "c\<lparr>recv_buffer := (recv_buffer c)[R mod 64 := (recv_buffer c ! (R mod 64))\<lparr>rm_valid := False\<rparr>],
       recv_seq := recv_seq c + 1\<rparr>"
  show ?case
  proof (cases "R \<in> B")
    case False
    then have "deliver_ordered c = ([], c)"
      using slot_holds [OF "1.prems"(1), of R] r(1) by (subst deliver_ordered.simps) (auto simp: Let_def)
    with False "1.prems" show ?thesis by (intro exI [of _ R]) auto
  next
    case True
    obtain out1 c1 where d: "deliver_ordered ?c = (out1, c1)" by fastforce
    have hold: "rm_valid (recv_buffer c ! (R mod 64))" "rm_sequence (recv_buffer c ! (R mod 64)) = of_nat R"
      "rm_data (recv_buffer c ! (R mod 64)) = take 1200 (m R)"
      using r(5) [OF True] by (simp_all add: stored_def)
    have "deliver_ordered c = ((take 1200 (m R), of_nat R) # out1, c1)"
      using hold r(1,2) d by (subst deliver_ordered.simps) (simp add: Let_def)
    then have out: "out = (take 1200 (m R), of_nat R) # out1" "c' = c1" using "1.prems"(2) by simp_all
    have "rel_idx (recv_seq c) = R mod 64" by (simp add: r(1))
    from "1.IH" [OF this [symmetric] refl, unfolded r(1)] hold r(1,2)
    have "\<And>R B out. ordered_rel m R B ?c \<Longrightarrow> deliver_ordered ?c = (out, c') \<Longrightarrow>
      \<exists>R'. R \<le> R' \<and> {R..<R'} \<subseteq> B \<and> R' \<notin> B \<and>
        out = map (\<lambda>n. (take 1200 (m n), of_nat n)) [R..<R'] \<and> ordered_rel m R' (B - {R..<R'}) c'"
      by simp
    from this [OF ordered_rel_pop [OF "1.prems"(1) True] d [folded out(2)]]
    obtain R' where R': "Suc R \<le> R'" "{Suc R..<R'} \<subseteq> B - {R}" "R' \<notin> B - {R}"
      "out1 = map (\<lambda>n. (take 1200 (m n), of_nat n)) [Suc R..<R']" "ordered_rel m R' (B - {R} - {Suc R..<R'}) c'"
      by blast
    have split: "{R..<R'} = insert R {Suc R..<R'}" "[R..<R'] = R # [Suc R..<R']"
      using R'(1) by (auto simp: upt_conv_Cons)
    have "B - {R} - {Suc R..<R'} = B - {R..<R'}" using split(1) by auto
    then show ?thesis
      using R' True split out by (intro exI [of _ R']) auto
  qed
qed

text \<open>
  A run of arrivals on an ordered channel. \<open>arrivals_within W\<close> holds if every message arrives less than
  \<open>W\<close> ahead of the next expected one and at most half the counter range behind it; \<open>R\<close> counts the
  messages delivered so far.
\<close>

fun ordered_run ::
    "(nat \<Rightarrow> byte list) \<Rightarrow> nat list \<Rightarrow> ReliableChannelState \<Rightarrow> (byte list \<times> u16) list \<times> ReliableChannelState" where
  "ordered_run m [] c = ([], c)"
| "ordered_run m (n # ns) c =
     (let (out, c1) = receive_ordered (of_nat n) (m n) c; (outs, c2) = ordered_run m ns c1 in (out @ outs, c2))"

fun arrivals_within ::
    "nat \<Rightarrow> (nat \<Rightarrow> byte list) \<Rightarrow> nat \<Rightarrow> nat list \<Rightarrow> ReliableChannelState \<Rightarrow> bool" where
  "arrivals_within W m R [] c = True"
| "arrivals_within W m R (n # ns) c \<longleftrightarrow>
     int n < int R + int W \<and> int R \<le> int n + 32768 \<and>
     (let (out, c1) = receive_ordered (of_nat n) (m n) c in arrivals_within W m (R + length out) ns c1)"

lemma arrivals_within_mono: "arrivals_within W m R ns c \<Longrightarrow> W \<le> V \<Longrightarrow> arrivals_within V m R ns c"
  by (induction W m R ns c rule: arrivals_within.induct) (auto simp: Let_def split_beta)

abbreviation stream_out :: "(nat \<Rightarrow> byte list) \<Rightarrow> nat \<Rightarrow> nat \<Rightarrow> (byte list \<times> u16) list" where
  "stream_out m R R' \<equiv> map (\<lambda>n. (take 1200 (m n), of_nat n)) [R..<R']"

lemma receive_ordered_spec:
  assumes R: "ordered_rel m R B c" "R \<notin> B" and near: "n < R + W" "W \<le> 32768" "R \<le> n + 32768"
    and step: "receive_ordered (of_nat n) (m n) c = (out, c')"
  shows "\<exists>R' B'. R \<le> R' \<and> out = stream_out m R R' \<and> ordered_rel m R' B' c' \<and> R' \<notin> B' \<and>
    {R..<R'} \<union> B' = (if R \<le> n \<and> n < R + 64 then insert n B else B)"
proof -
  obtain new c1 where b: "buffer_received_ordered (of_nat n) (m n) c = (new, c1)" by fastforce
  have new: "new \<longleftrightarrow> R \<le> n \<and> n < R + 64 \<and> n \<notin> B"
    and rel: "ordered_rel m R (if new then insert n B else B) c1"
    using ordered_rel_buffer [OF R(1) _ _ b] near by simp_all
  show ?thesis
  proof (cases new)
    case False
    then have "out = []" "c' = c1" using step b by (simp_all add: receive_ordered_def)
    then show ?thesis
      using False new rel R(2) by (intro exI [of _ R] exI [of _ B]) auto
  next
    case True
    obtain out1 c2 where d: "deliver_ordered c1 = (out1, c2)" by fastforce
    have out: "out = map (\<lambda>(d, s). (take 1200 d, s)) out1" "c' = c2"
      using step b d True by (simp_all add: receive_ordered_def)
    from rel True have rel': "ordered_rel m R (insert n B) c1" by simp
    from deliver_ordered_spec [OF rel' d]
    obtain R' where R': "R \<le> R'" "{R..<R'} \<subseteq> insert n B" "R' \<notin> insert n B"
      "out1 = stream_out m R R'" "ordered_rel m R' (insert n B - {R..<R'}) c2"
      by blast
    have "out = stream_out m R R'" using out(1) R'(4) by simp
    then show ?thesis
      using R' out(2) True new by (intro exI [of _ R'] exI [of _ "insert n B - {R..<R'}"]) auto
  qed
qed

lemma ordered_run_spec:
  assumes "ordered_rel m R B c" and "R \<notin> B" and "W \<le> 32768"
    and "arrivals_within W m R ns c" and "ordered_run m ns c = (outs, c')"
  shows "\<exists>R' B'. R \<le> R' \<and> outs = stream_out m R R' \<and> ordered_rel m R' B' c' \<and> R' \<notin> B' \<and>
    {R..<R'} \<union> B' \<subseteq> B \<union> set ns \<and> (W \<le> 64 \<longrightarrow> B \<union> set ns \<subseteq> {..<R'} \<union> B')"
  using assms
proof (induction ns arbitrary: R B c outs c')
  case Nil
  then show ?case by (intro exI [of _ R] exI [of _ B]) auto
next
  case (Cons n ns)
  obtain out c1 where s: "receive_ordered (of_nat n) (m n) c = (out, c1)" by fastforce
  obtain outs1 c2 where t: "ordered_run m ns c1 = (outs1, c2)" by fastforce
  have near: "n < R + W" "R \<le> n + 32768" and within: "arrivals_within W m (R + length out) ns c1"
    using Cons.prems(4) s by simp_all
  from receive_ordered_spec [OF Cons.prems(1,2) near(1) Cons.prems(3) near(2) s]
  obtain R1 B1 where r1: "R \<le> R1" "out = stream_out m R R1" "ordered_rel m R1 B1 c1" "R1 \<notin> B1"
    "{R..<R1} \<union> B1 = (if R \<le> n \<and> n < R + 64 then insert n B else B)" by blast
  have "R + length out = R1" using r1(1,2) by simp
  with within have "arrivals_within W m R1 ns c1" by simp
  from Cons.IH [OF r1(3,4) Cons.prems(3) this t]
  obtain R' B' where r2: "R1 \<le> R'" "outs1 = stream_out m R1 R'" "ordered_rel m R' B' c2" "R' \<notin> B'"
    "{R1..<R'} \<union> B' \<subseteq> B1 \<union> set ns" "W \<le> 64 \<longrightarrow> B1 \<union> set ns \<subseteq> {..<R'} \<union> B'" by blast
  have "[R..<R'] = [R..<R1] @ [R1..<R']"
    using upt_add_eq_append [of R R1 "R' - R1"] r1(1) r2(1) by simp
  then have "outs = stream_out m R R'" "c' = c2"
    using Cons.prems(5) s t r1(2) r2(2) by simp_all
  moreover have "{R..<R'} \<union> B' \<subseteq> B \<union> set (n # ns)"
  proof -
    have "{R..<R'} = {R..<R1} \<union> {R1..<R'}" using r1(1) r2(1) by auto
    then show ?thesis using r1(5) r2(5) by (auto split: if_splits)
  qed
  moreover have "B \<union> set (n # ns) \<subseteq> {..<R'} \<union> B'" if "W \<le> 64"
  proof -
    have "insert n B \<subseteq> {..<R1} \<union> B1"
      using r1(5) near(1) that r1(1) by (auto split: if_splits)
    then show ?thesis using r2(1,6) that by auto
  qed
  ultimately show ?case
    using r1(1) r2(1,3,4) by (intro exI [of _ R'] exI [of _ B']) auto
qed

section \<open>Retransmission\<close>

definition due :: "real \<Rightarrow> real \<Rightarrow> ReliableChannelState \<Rightarrow> u16 \<Rightarrow> bool" where
  "due now rto c s \<longleftrightarrow> (case get_for_retransmit c s of None \<Rightarrow> False
     | Some msg \<Rightarrow> sm_retry_count msg < 10 \<and> rto * 2 ^ min (sm_retry_count msg) 5 \<le> now - sm_send_time msg)"

definition seq_range :: "u16 \<Rightarrow> u16 \<Rightarrow> u16 list" where
  "seq_range a b = map (\<lambda>i. a + of_nat i) [0..<unat (b - a)]"

lemma seq_range_self [simp]: "seq_range a a = []"
  by (simp add: seq_range_def)

lemma seq_range_step: "a \<noteq> b \<Longrightarrow> seq_range a b = a # seq_range (a + 1) b"
proof -
  assume "a \<noteq> b"
  then have "b - a \<noteq> 0" by simp
  then have "unat (b - a) = Suc (unat (b - (a + 1)))"
    using unat_minus_one [of "b - a"] unat_gt_0 [of "b - a"] by (simp add: diff_diff_eq)
  then show ?thesis
    by (simp add: seq_range_def upt_conv_Cons del: upt_Suc flip: map_Suc_upt)
qed

lemma due_drop:
  assumes "length (sent_buffer c) = 64" and "MAX_RETRIES \<le> sm_retry_count (sent_buffer c ! rel_idx seq)"
  shows "due now rto (c\<lparr>sent_buffer := (sent_buffer c)[rel_idx seq := (sent_buffer c ! rel_idx seq)\<lparr>sm_valid := False\<rparr>],
           messages_dropped := k\<rparr>) = due now rto c"
proof (rule ext)
  fix s
  let ?c = "c\<lparr>sent_buffer := (sent_buffer c)[rel_idx seq := (sent_buffer c ! rel_idx seq)\<lparr>sm_valid := False\<rparr>],
           messages_dropped := k\<rparr>"
  have idx: "rel_idx seq < 64" by (simp add: rel_idx_def RELIABLE_BUFFER_SIZE_def)
  show "due now rto ?c s = due now rto c s"
  proof (cases "rel_idx s = rel_idx seq")
    case True
    then have "get_for_retransmit ?c s = None"
      using assms(1) idx by (simp add: get_for_retransmit_def)
    moreover
    define r where "r = sent_buffer c ! rel_idx seq"
    have "sent_buffer c ! rel_idx s = r" "10 \<le> sm_retry_count r"
      using True assms(2) by (simp_all add: r_def MAX_RETRIES_def)
    then have "\<not> due now rto c s"
      by (simp add: due_def get_for_retransmit_def Let_def)
    ultimately show ?thesis by (simp add: due_def)
  next
    case False
    then show ?thesis by (simp add: due_def get_for_retransmit_def)
  qed
qed

lemma find_retransmits_loop_spec:
  assumes "length (sent_buffer c) = 64" and "length out \<le> max_count"
  shows "fst (find_retransmits_loop now rto max_count seq out c) =
    take max_count (out @ filter (due now rto c) (seq_range seq (send_seq c)))"
  using assms
proof (induction now rto max_count seq out c rule: find_retransmits_loop.induct)
  case (1 now rto max_count seq out c)
  let ?msg = "sent_buffer c ! rel_idx seq"
  let ?drop = "c\<lparr>sent_buffer := (sent_buffer c)[rel_idx seq := ?msg\<lparr>sm_valid := False\<rparr>],
                messages_dropped := messages_dropped c + 1\<rparr>"
  show ?case
  proof (cases "seq \<noteq> send_seq c \<and> length out < max_count")
    case False
    then show ?thesis
      using "1.prems" by (subst find_retransmits_loop.simps) auto
  next
    case go: True
    then have range: "seq_range seq (send_seq c) = seq # seq_range (seq + 1) (send_seq c)"
      by (simp add: seq_range_step)
    consider (skip) "\<not> sm_valid ?msg \<or> sm_sequence ?msg \<noteq> seq \<or> sm_acked ?msg"
      | (early) "sm_valid ?msg" "sm_sequence ?msg = seq" "\<not> sm_acked ?msg"
          "\<not> now - sm_send_time ?msg \<ge> rto * 2 ^ min (sm_retry_count ?msg) 5"
      | (drop) "sm_valid ?msg" "sm_sequence ?msg = seq" "\<not> sm_acked ?msg"
          "now - sm_send_time ?msg \<ge> rto * 2 ^ min (sm_retry_count ?msg) 5" "sm_retry_count ?msg \<ge> MAX_RETRIES"
      | (resend) "sm_valid ?msg" "sm_sequence ?msg = seq" "\<not> sm_acked ?msg"
          "now - sm_send_time ?msg \<ge> rto * 2 ^ min (sm_retry_count ?msg) 5" "\<not> sm_retry_count ?msg \<ge> MAX_RETRIES"
      by blast
    then show ?thesis
    proof cases
      case skip
      then have "\<not> due now rto c seq" by (auto simp: due_def get_for_retransmit_def Let_def)
      with skip go range "1.IH"(1) [OF go refl refl skip] "1.prems" show ?thesis
        by (subst find_retransmits_loop.simps) (simp add: Let_def)
    next
      case early
      then have "\<not> due now rto c seq" by (auto simp: due_def get_for_retransmit_def Let_def)
      with early go range "1.IH"(4) [OF go refl refl _ refl] "1.prems" show ?thesis
        by (subst find_retransmits_loop.simps) (simp add: Let_def)
    next
      case drop
      then have "\<not> due now rto c seq" by (auto simp: due_def get_for_retransmit_def MAX_RETRIES_def Let_def)
      moreover have "due now rto ?drop = due now rto c"
        using due_drop [OF "1.prems"(1)] drop by simp
      ultimately show ?thesis
        using drop go range "1.IH"(2) [OF go refl refl _ refl] "1.prems"
        by (subst find_retransmits_loop.simps) (simp add: Let_def)
    next
      case resend
      then have "due now rto c seq" by (auto simp: due_def get_for_retransmit_def MAX_RETRIES_def Let_def)
      with resend go range "1.IH"(3) [OF go refl refl _ refl] "1.prems" show ?thesis
        by (subst find_retransmits_loop.simps) (simp add: Let_def)
    qed
  qed
qed

section \<open>Unordered duplicate detection\<close>

fun unordered_run ::
    "(u16 \<times> byte list) list \<Rightarrow> ReliableChannelState \<Rightarrow> (byte list \<times> u16) list \<times> ReliableChannelState" where
  "unordered_run [] c = ([], c)"
| "unordered_run ((s, d) # ms) c =
     (let (out, c1) = receive_unordered s d c; (outs, c2) = unordered_run ms c1 in (out @ outs, c2))"

lemma rel_idx_less [simp]: "rel_idx s < 64"
  by (simp add: rel_idx_def RELIABLE_BUFFER_SIZE_def)

text \<open>The newest arrival of a list in the slot of \<open>s\<close>, given what the slot held before.\<close>

fun slot_owner :: "u16 \<Rightarrow> u16 option \<Rightarrow> (u16 \<times> byte list) list \<Rightarrow> u16 option" where
  "slot_owner s prev [] = prev"
| "slot_owner s prev ((k, d) # ms) = slot_owner s (if rel_idx k = rel_idx s then Some k else prev) ms"

definition slot_content :: "ReliableChannelState \<Rightarrow> u16 \<Rightarrow> u16 option" where
  "slot_content c s = (let r = recv_buffer c ! rel_idx s in if rm_valid r then Some (rm_sequence r) else None)"

lemma is_received_unordered_content: "is_received_unordered c s \<longleftrightarrow> slot_content c s = Some s"
  by (simp add: is_received_unordered_def slot_content_def Let_def)

lemma slot_content_receive:
  assumes "length (recv_buffer c) = 64"
  shows "slot_content (snd (receive_unordered k d c)) s = (if rel_idx k = rel_idx s then Some k else slot_content c s)"
    and "length (recv_buffer (snd (receive_unordered k d c))) = 64"
  using assms
  by (auto simp: receive_unordered_def is_received_unordered_content slot_content_def
      mark_received_unordered_def Let_def nth_list_update split: if_splits)

lemma slot_content_run:
  assumes "length (recv_buffer c) = 64"
  shows "slot_content (snd (unordered_run ms c)) s = slot_owner s (slot_content c s) ms"
  using assms
proof (induction ms arbitrary: c)
  case (Cons p ms)
  obtain k d where p: "p = (k, d)" by fastforce
  show ?case
    using Cons.IH [OF slot_content_receive(2) [OF Cons.prems, of k d]] slot_content_receive(1) [OF Cons.prems]
    by (simp add: p Let_def split_beta)
qed simp

section \<open>The retransmission window\<close>

fun record_all :: "byte list list \<Rightarrow> ReliableChannelState \<Rightarrow> ReliableChannelState" where
  "record_all [] c = c"
| "record_all (d # ds) c = record_all ds (snd (record_send d 0 0 c))"

definition overwritten :: "ReliableChannelState \<Rightarrow> bool" where
  "overwritten c \<longleftrightarrow> length (sent_buffer c) = 64 \<and> rel_oldest_unacked c \<noteq> send_seq c \<and>
     sm_sequence (sent_buffer c ! rel_idx (rel_oldest_unacked c)) \<noteq> rel_oldest_unacked c"

lemma rel_mark_acked_stuck:
  assumes "overwritten c"
  shows "overwritten (rel_mark_acked s c)" "rel_oldest_unacked (rel_mark_acked s c) = rel_oldest_unacked c"
proof -
  let ?msg = "sent_buffer c ! rel_idx s"
  let ?c1 = "if sm_valid ?msg \<and> sm_sequence ?msg = s
      then c\<lparr>sent_buffer := (sent_buffer c)[rel_idx s := ?msg\<lparr>sm_acked := True\<rparr>]\<rparr> else c"
  have ow: "overwritten ?c1" and old: "rel_oldest_unacked ?c1 = rel_oldest_unacked c"
    using assms by (auto simp: overwritten_def nth_list_update)
  have "rel_advance_oldest ?c1 = ?c1"
    using ow by (subst rel_advance_oldest.simps) (simp add: overwritten_def Let_def del: if_split)
  then have "rel_mark_acked s c = ?c1" by (simp add: rel_mark_acked_def Let_def)
  with ow old show "overwritten (rel_mark_acked s c)" "rel_oldest_unacked (rel_mark_acked s c) = rel_oldest_unacked c"
    by simp_all
qed

lemma fold_mark_acked_stuck:
  assumes "overwritten c"
  shows "rel_oldest_unacked (fold rel_mark_acked ss c) = rel_oldest_unacked c"
  using assms by (induction ss arbitrary: c) (simp_all add: rel_mark_acked_stuck)

lemma record_all_append: "record_all (xs @ ys) c = record_all ys (record_all xs c)"
  by (induction xs c rule: record_all.induct) simp_all

definition sendable :: "byte list \<Rightarrow> bool" where
  "sendable d \<longleftrightarrow> 0 < length d \<and> length d \<le> 1200"

lemma record_all_slots:
  assumes "\<forall>d\<in>set ds. sendable d"
  shows "send_seq (record_all ds reliable_reset) = of_nat (length ds) \<and>
    length (sent_buffer (record_all ds reliable_reset)) = 64 \<and>
    rel_oldest_unacked (record_all ds reliable_reset) = 0 \<and>
    (\<forall>i<length ds. length ds \<le> i + 64 \<longrightarrow>
       sent_buffer (record_all ds reliable_reset) ! (i mod 64) =
         \<lparr>sm_sequence = of_nat i, sm_packet_sequence = 0, sm_send_time = 0, sm_retry_count = 0,
          sm_data = ds ! i, sm_acked = False, sm_valid = True\<rparr>)"
  using assms
proof (induction ds rule: rev_induct)
  case Nil
  then show ?case by (simp add: reliable_reset_def RELIABLE_BUFFER_SIZE_def)
next
  case (snoc d ds)
  let ?c = "record_all ds reliable_reset" and ?n = "length ds"
  have ih: "send_seq ?c = of_nat ?n" "length (sent_buffer ?c) = 64" "rel_oldest_unacked ?c = 0"
    "\<And>i. i < ?n \<Longrightarrow> ?n \<le> i + 64 \<Longrightarrow> sent_buffer ?c ! (i mod 64) =
         \<lparr>sm_sequence = of_nat i, sm_packet_sequence = 0, sm_send_time = 0, sm_retry_count = 0,
          sm_data = ds ! i, sm_acked = False, sm_valid = True\<rparr>"
    using snoc by auto
  let ?new = "\<lparr>sm_sequence = of_nat ?n, sm_packet_sequence = 0, sm_send_time = 0, sm_retry_count = 0,
          sm_data = d, sm_acked = False, sm_valid = True\<rparr>"
  have c: "record_all (ds @ [d]) reliable_reset =
      ?c\<lparr>sent_buffer := (sent_buffer ?c)[?n mod 64 := ?new], send_seq := of_nat ?n + 1\<rparr>"
    using snoc.prems ih(1) by (simp add: record_all_append record_send_def sendable_def Let_def)
  have apart: "?n mod 64 \<noteq> i mod 64" if "i < ?n" "?n < i + 64" for i
    using mod_eq_near [of ?n 64 i] that by auto
  have "sent_buffer (record_all (ds @ [d]) reliable_reset) ! (i mod 64) =
         \<lparr>sm_sequence = of_nat i, sm_packet_sequence = 0, sm_send_time = 0, sm_retry_count = 0,
          sm_data = (ds @ [d]) ! i, sm_acked = False, sm_valid = True\<rparr>" if "i < Suc ?n" "Suc ?n \<le> i + 64" for i
    using ih(2) ih(4) [of i] that apart [of i] by (cases "i = ?n") (auto simp: c nth_append)
  moreover have "send_seq (record_all (ds @ [d]) reliable_reset) = of_nat (Suc ?n)"
    "length (sent_buffer (record_all (ds @ [d]) reliable_reset)) = 64"
    "rel_oldest_unacked (record_all (ds @ [d]) reliable_reset) = 0"
    using ih by (simp_all add: c add.commute)
  ultimately show ?case by simp
qed

lemma record_all_overwritten:
  assumes "\<forall>d\<in>set ds. sendable d" and "64 < length ds" and "length ds < 65536"
  shows "overwritten (record_all ds reliable_reset)" "rel_oldest_unacked (record_all ds reliable_reset) = 0"
proof -
  let ?n = "length ds" and ?c = "record_all ds reliable_reset"
  define i where "i = (?n - 1) div 64 * 64"
  have i: "i mod 64 = 0" "i < ?n" "?n \<le> i + 64" "64 \<le> i"
    using assms(2) by (simp_all add: i_def)
  note r = record_all_slots [OF assms(1)]
  have "(of_nat i :: u16) \<noteq> of_nat 0"
    using i(2,4) assms(3) of_nat_u16_eq [of i 0] by auto
  then have "sm_sequence (sent_buffer ?c ! 0) \<noteq> 0"
    using r i(1-3) by force
  moreover have "(of_nat ?n :: u16) \<noteq> of_nat 0"
    using assms(2,3) of_nat_u16_eq [of ?n 0] by auto
  moreover have "rel_idx 0 = 0" by (simp add: rel_idx_def)
  ultimately show "overwritten ?c"
    using r by (simp add: overwritten_def)
  show "rel_oldest_unacked ?c = 0" using r by simp
qed

section \<open>Properties\<close>

text \<open>
  C2. Ordered delivery. The peer's messages \<open>m 0, m 1, ...\<close> arrive in the order \<open>ns\<close>, each carrying the
  low 16 bits of its number, with losses, duplicates and reordering; each arrival is within half the
  counter's range of the next expected message. Then what the receiver hands out is the peer's stream
  from its first message on, in order and without gaps or repetitions, each message cut to 1200 bytes,
  and every message handed out did arrive.
\<close>

theorem ordered_delivery_prefix:
  assumes "arrivals_within 32768 m 0 ns reliable_reset"
    and "ordered_run m ns reliable_reset = (outs, c)"
  shows "outs = map (\<lambda>n. (take 1200 (m n), of_nat n)) [0..<length outs] \<and> {0..<length outs} \<subseteq> set ns"
proof -
  obtain R' B' where "outs = stream_out m 0 R'" "{0..<R'} \<union> B' \<subseteq> {} \<union> set ns"
    using ordered_run_spec [OF ordered_rel_reset _ _ assms] by auto
  then show ?thesis by auto
qed

theorem ordered_delivery_prefix_witness:
  "let outs = fst (ordered_run (\<lambda>n. [of_nat n]) [1, 0, 1, 3, 2] reliable_reset)
   in outs = map (\<lambda>n. (take 1200 [of_nat n], of_nat n)) [0..<length outs] \<and> {0..<length outs} \<subseteq> set [1, 0, 1, 3, 2]"
proof -
  have "arrivals_within 64 (\<lambda>n. [of_nat n]) 0 [1, 0, 1, 3, 2] reliable_reset" by code_simp
  then have "arrivals_within 32768 (\<lambda>n. [of_nat n]) 0 [1, 0, 1, 3, 2] reliable_reset"
    by (rule arrivals_within_mono) simp
  from ordered_delivery_prefix [OF this prod.collapse [symmetric]] show ?thesis
    by (simp only: Let_def)
qed

text \<open>
  C8. Completeness. If every message arrives less than 64 ahead of the next expected one, the
  receiver hands out every message up to the first that has not arrived at all.
\<close>

theorem ordered_delivery_complete:
  assumes "arrivals_within 64 m 0 ns reliable_reset"
    and "ordered_run m ns reliable_reset = (outs, c)"
  shows "{..<length outs} \<subseteq> set ns \<and> length outs \<notin> set ns"
proof -
  obtain R' B' where "outs = stream_out m 0 R'" "{0..<R'} \<union> B' \<subseteq> {} \<union> set ns" "R' \<notin> B'"
    "{} \<union> set ns \<subseteq> {..<R'} \<union> B'"
    using ordered_run_spec [OF ordered_rel_reset _ _ assms] by auto
  then show ?thesis by auto
qed

theorem ordered_delivery_complete_witness:
  "let outs = fst (ordered_run (\<lambda>n. [of_nat n]) [1, 0, 4, 2] reliable_reset)
   in {..<length outs} \<subseteq> {0, 1, 2, 4} \<and> length outs \<notin> {0, 1, 2, 4}"
proof -
  have "arrivals_within 64 (\<lambda>n. [of_nat n]) 0 [1, 0, 4, 2] reliable_reset" by code_simp
  from ordered_delivery_complete [OF this prod.collapse [symmetric]] show ?thesis
    by (simp only: Let_def) auto
qed

text \<open>
  C19. Unordered duplicate detection. After the messages \<open>ms\<close> arrived on a fresh unordered channel, a
  message numbered \<open>s\<close> is handed out exactly if \<open>s\<close> is not the newest arrival of its slot modulo 64.
\<close>

theorem unordered_duplicates:
  "fst (receive_unordered s d (snd (unordered_run ms reliable_reset))) =
     (if slot_owner s None ms = Some s then [] else [(take 1200 d, s)])"
proof -
  have "length (recv_buffer reliable_reset) = 64" "slot_content reliable_reset s = None"
    by (simp_all add: reliable_reset_def RELIABLE_BUFFER_SIZE_def slot_content_def empty_received_def Let_def)
  then show ?thesis
    using slot_content_run [of reliable_reset ms s]
    by (simp add: receive_unordered_def is_received_unordered_content)
qed

text \<open>
  Reliable unordered messages can be delivered twice: when messages 0 and 64 have arrived, a
  second copy of message 0 is handed out again.
\<close>

theorem unordered_delivered_twice:
  "let c = snd (unordered_run [(0, [1]), (64, [2])] reliable_reset)
   in fst (receive_unordered 0 [1] reliable_reset) = [([1], 0)] \<and> fst (receive_unordered 0 [1] c) = [([1], 0)]"
  by code_simp



text \<open>
  C20. The send buffer is not a window: nothing stops a 65th unacknowledged message, and it overwrites
  message 0. From then on, whatever acknowledgements arrive, \<^verbatim>\<open>oldest_unacked\<close> stays at 0.
\<close>

theorem send_buffer_overrun:
  assumes "\<forall>d\<in>set ds. sendable d" and "64 < length ds" and "length ds < 65536"
  shows "get_for_retransmit (record_all ds reliable_reset) 0 = None \<and>
    rel_oldest_unacked (fold rel_mark_acked ss (record_all ds reliable_reset)) = 0"
proof -
  note r = record_all_overwritten [OF assms]
  have "get_for_retransmit (record_all ds reliable_reset) 0 = None"
    using r by (auto simp: overwritten_def get_for_retransmit_def Let_def)
  then show ?thesis
    using fold_mark_acked_stuck [OF r(1)] r(2) by simp
qed

theorem send_buffer_overrun_witness:
  "rel_oldest_unacked (fold rel_mark_acked [0, 1, 64] (record_all (replicate 65 [1]) reliable_reset)) = 0"
proof -
  define ds :: "byte list list" where "ds = replicate 65 [1]"
  have "\<forall>d\<in>set ds. sendable d" "64 < length ds" "length ds < 65536"
    by (simp_all add: ds_def sendable_def)
  from send_buffer_overrun [OF this, of "[0, 1, 64]"] show ?thesis
    by (simp only: ds_def)
qed

end
