(* ===== verification/Channel.thy ===== *)
theory Channel
  imports Ring_Buffer
begin

text \<open>
  \<^verbatim>\<open>channel/channel.h\<close>: the send queue of a channel with its Nagle timer and the overwriting of
  pending state updates, the receive filter of a sequenced channel, and the scheduler that picks
  the next channel to send from.
\<close>

section \<open>State and operations\<close>

definition NETUDP_MTU :: nat where
  "NETUDP_MTU = 1200"

definition NETUDP_SEND_NO_NAGLE :: u32 where
  "NETUDP_SEND_NO_NAGLE = 2"

definition NETUDP_SEND_NO_DELAY :: u32 where
  "NETUDP_SEND_NO_DELAY = 4"

definition NETUDP_SEND_STATE :: u32 where
  "NETUDP_SEND_STATE = 8"

datatype channel_type = UNRELIABLE | UNRELIABLE_SEQUENCED | RELIABLE_ORDERED | RELIABLE_UNORDERED

record channel_config =
  cc_type :: channel_type
  cc_priority :: byte
  cc_weight :: byte
  cc_nagle_ms :: u16

record QueuedMessage =
  qm_data :: "byte list"
  qm_sequence :: u16
  qm_entity_id :: u16
  qm_flags :: u32
  qm_valid :: bool

definition empty_msg :: QueuedMessage where
  "empty_msg = \<lparr>qm_data = [], qm_sequence = 0, qm_entity_id = 0, qm_flags = 0, qm_valid = False\<rparr>"

record ChannelStats =
  cs_messages_sent :: u32
  cs_messages_received :: u32
  cs_messages_dropped :: u32
  cs_bytes_sent :: u32
  cs_bytes_received :: u32

record Channel =
  ch_index :: nat
  ch_config :: channel_config
  ch_send_seq :: u16
  ch_recv_seq :: u16
  last_delivered_seq :: u16
  nagle_accumulate_time :: real
  nagle_threshold_sec :: real
  nagle_ready :: bool
  ch_stats :: ChannelStats
  send_queue :: "QueuedMessage FixedRingBuffer"

definition no_channel_stats :: ChannelStats where
  "no_channel_stats = \<lparr>cs_messages_sent = 0, cs_messages_received = 0, cs_messages_dropped = 0,
     cs_bytes_sent = 0, cs_bytes_received = 0\<rparr>"

text \<open>The members of a channel before \<^verbatim>\<open>init\<close>; \<open>init\<close> sets all of them but \<^verbatim>\<open>nagle_ready_\<close>.\<close>

definition new_channel :: "channel_config \<Rightarrow> Channel" where
  "new_channel config = \<lparr>ch_index = 0, ch_config = config, ch_send_seq = 0, ch_recv_seq = 0,
     last_delivered_seq = 0, nagle_accumulate_time = 0, nagle_threshold_sec = 0, nagle_ready = False,
     ch_stats = no_channel_stats, send_queue = rb_new 256 empty_msg\<rparr>"

definition channel_init :: "nat \<Rightarrow> channel_config \<Rightarrow> Channel \<Rightarrow> Channel" where
  "channel_init index config c =
     c\<lparr>ch_index := index, ch_config := config, ch_send_seq := 0, ch_recv_seq := 0, last_delivered_seq := 0,
       nagle_accumulate_time := 0, nagle_threshold_sec := real (unat (cc_nagle_ms config)) / 1000,
       ch_stats := no_channel_stats, send_queue := rb_clear empty_msg (send_queue c)\<rparr>"

abbreviation has_flag :: "u32 \<Rightarrow> u32 \<Rightarrow> bool" where
  "has_flag flags f \<equiv> flags AND f \<noteq> 0"

text \<open>The scan for a pending state update of the same entity, from the newest message back.\<close>

primrec find_state :: "QueuedMessage FixedRingBuffer \<Rightarrow> u16 \<Rightarrow> nat \<Rightarrow> nat option" where
  "find_state q eid 0 = None"
| "find_state q eid (Suc i) =
     (if qm_entity_id (rb_get q i) = eid \<and> has_flag (qm_flags (rb_get q i)) NETUDP_SEND_STATE
      then Some i else find_state q eid i)"

definition bypass_nagle :: "u32 \<Rightarrow> Channel \<Rightarrow> Channel" where
  "bypass_nagle flags c =
     (if has_flag flags NETUDP_SEND_NO_NAGLE \<or> has_flag flags NETUDP_SEND_NO_DELAY
      then c\<lparr>nagle_ready := True\<rparr> else c)"

definition queue_send_impl :: "byte list \<Rightarrow> u32 \<Rightarrow> u16 \<Rightarrow> Channel \<Rightarrow> bool \<times> Channel" where
  "queue_send_impl data flags eid c =
     (if length data = 0 \<or> NETUDP_MTU < length data then (False, c)
      else case (if has_flag flags NETUDP_SEND_STATE \<and> eid \<noteq> 0
                 then find_state (send_queue c) eid (rb_size (send_queue c)) else None) of
        Some i \<Rightarrow>
          let existing = rb_get (send_queue c) i
          in (True, bypass_nagle flags
                (c\<lparr>send_queue := rb_set (send_queue c) i (existing\<lparr>qm_data := data, qm_flags := flags\<rparr>)\<rparr>))
      | None \<Rightarrow>
          if rb_size (send_queue c) = rb_cap (send_queue c) then (False, c)
          else let msg = \<lparr>qm_data = data, qm_sequence = ch_send_seq c, qm_entity_id = eid, qm_flags = flags, qm_valid = True\<rparr>;
                   c1 = bypass_nagle flags (c\<lparr>ch_send_seq := ch_send_seq c + 1\<rparr>)
               in (True, c1\<lparr>send_queue := snd (push_back msg (send_queue c1)),
                    ch_stats := (ch_stats c1)\<lparr>cs_messages_sent := cs_messages_sent (ch_stats c1) + 1,
                      cs_bytes_sent := cs_bytes_sent (ch_stats c1) + of_nat (length data)\<rparr>\<rparr>))"

definition queue_send :: "byte list \<Rightarrow> u32 \<Rightarrow> Channel \<Rightarrow> bool \<times> Channel" where
  "queue_send data flags c = queue_send_impl data flags 0 c"

definition queue_send_state :: "byte list \<Rightarrow> u32 \<Rightarrow> u16 \<Rightarrow> Channel \<Rightarrow> bool \<times> Channel" where
  "queue_send_state data flags eid c = queue_send_impl data (flags OR NETUDP_SEND_STATE) eid c"

definition has_pending :: "real \<Rightarrow> Channel \<Rightarrow> bool" where
  "has_pending now c \<longleftrightarrow>
     (if rb_size (send_queue c) = 0 then False
      else if nagle_ready c then True
      else if nagle_threshold_sec c \<le> 0 then True
      else now - nagle_accumulate_time c \<ge> nagle_threshold_sec c)"

definition dequeue_send :: "Channel \<Rightarrow> QueuedMessage option \<times> Channel" where
  "dequeue_send c =
     (if rb_size (send_queue c) = 0 then (None, c)
      else let (out, q) = pop_front empty_msg (send_queue c)
           in (out, c\<lparr>send_queue := q, nagle_ready := False, nagle_accumulate_time := 0\<rparr>))"

definition start_nagle :: "real \<Rightarrow> Channel \<Rightarrow> Channel" where
  "start_nagle now c = (if nagle_accumulate_time c = 0 then c\<lparr>nagle_accumulate_time := now\<rparr> else c)"

definition channel_flush :: "Channel \<Rightarrow> Channel" where
  "channel_flush c = c\<lparr>nagle_ready := True\<rparr>"

definition count_received :: "Channel \<Rightarrow> Channel" where
  "count_received c = c\<lparr>ch_stats := (ch_stats c)\<lparr>cs_messages_received := cs_messages_received (ch_stats c) + 1\<rparr>\<rparr>"

definition on_recv_unreliable :: "u16 \<Rightarrow> Channel \<Rightarrow> bool \<times> Channel" where
  "on_recv_unreliable seq c = (True, count_received c)"

definition on_recv_unreliable_sequenced :: "u16 \<Rightarrow> Channel \<Rightarrow> bool \<times> Channel" where
  "on_recv_unreliable_sequenced seq c =
     (let c1 = count_received c; diff = seq_diff seq (last_delivered_seq c1)
      in if diff \<le> 0 \<and> last_delivered_seq c1 \<noteq> 0 then (False, c1)
         else (True, c1\<lparr>last_delivered_seq := seq\<rparr>))"

abbreviation ch_priority :: "Channel \<Rightarrow> byte" where
  "ch_priority c \<equiv> cc_priority (ch_config c)"

text \<open>
  The scheduler's loops, over the indices still to visit. \<open>best\<close> is the pair of the best index and its
  priority, \<open>None\<close> for the \<^verbatim>\<open>-1\<close> of the code.
\<close>

definition better :: "Channel list \<Rightarrow> nat \<Rightarrow> (nat \<times> byte) option \<Rightarrow> (nat \<times> byte) option" where
  "better channels i best =
     (if (case best of None \<Rightarrow> True | Some (b, p) \<Rightarrow> ch_priority (channels ! i) > p)
      then Some (i, ch_priority (channels ! i)) else best)"

fun next_channel_loop ::
    "Channel list \<Rightarrow> real \<Rightarrow> nat list \<Rightarrow> (nat \<times> byte) option \<Rightarrow> (nat \<times> byte) option" where
  "next_channel_loop channels now [] best = best"
| "next_channel_loop channels now (i # is) best =
     next_channel_loop channels now is
       (if has_pending now (channels ! i) then better channels i best else best)"

definition next_channel :: "Channel list \<Rightarrow> nat \<Rightarrow> real \<Rightarrow> nat option" where
  "next_channel channels num_channels now =
     map_option fst (next_channel_loop channels now [0..<num_channels] None)"

fun next_channel_fast_loop ::
    "Channel list \<Rightarrow> real \<Rightarrow> byte \<Rightarrow> nat list \<Rightarrow> (nat \<times> byte) option \<times> byte \<Rightarrow> (nat \<times> byte) option \<times> byte" where
  "next_channel_fast_loop channels now pending_mask [] (best, new_mask) = (best, new_mask)"
| "next_channel_fast_loop channels now pending_mask (i # is) (best, new_mask) =
     (if \<not> bit pending_mask i then next_channel_fast_loop channels now pending_mask is (best, new_mask)
      else if has_pending now (channels ! i)
        then next_channel_fast_loop channels now pending_mask is (better channels i best, new_mask OR push_bit i 1)
        else next_channel_fast_loop channels now pending_mask is (best, new_mask))"

definition next_channel_fast :: "Channel list \<Rightarrow> nat \<Rightarrow> real \<Rightarrow> byte \<Rightarrow> nat option \<times> byte" where
  "next_channel_fast channels num_channels now pending_mask =
     (if pending_mask = 0 then (None, pending_mask)
      else let (best, new_mask) =
             next_channel_fast_loop channels now pending_mask [0..<min num_channels 8] (None, 0)
           in (map_option fst best, new_mask))"

section \<open>The send queue\<close>

abbreviation ch_queue :: "Channel \<Rightarrow> QueuedMessage list" where
  "ch_queue c \<equiv> rb_items (send_queue c)"

definition ch_ok :: "Channel \<Rightarrow> bool" where
  "ch_ok c \<longleftrightarrow> rb_ok (send_queue c) \<and> rb_cap (send_queue c) = 256"

definition state_msg :: "u16 \<Rightarrow> QueuedMessage \<Rightarrow> bool" where
  "state_msg eid m \<longleftrightarrow> qm_entity_id m = eid \<and> has_flag (qm_flags m) NETUDP_SEND_STATE"

lemma find_state_Some:
  "find_state q eid n = Some i \<Longrightarrow> i < n \<and> state_msg eid (rb_get q i)"
  by (induction n) (auto simp: state_msg_def split: if_splits)

lemma find_state_None:
  "find_state q eid n = None \<Longrightarrow> i < n \<Longrightarrow> \<not> state_msg eid (rb_get q i)"
  by (induction n) (auto simp: state_msg_def less_Suc_eq split: if_splits)

lemma bypass_nagle_simps [simp]:
  "send_queue (bypass_nagle flags c) = send_queue c" "ch_send_seq (bypass_nagle flags c) = ch_send_seq c"
  "ch_config (bypass_nagle flags c) = ch_config c"
  by (simp_all add: bypass_nagle_def)

text \<open>The three outcomes of queueing a message, over the list the ring represents.\<close>

lemma queue_send_impl_cases:
  assumes "ch_ok c"
  obtains (refused) "queue_send_impl data flags eid c = (False, c)"
    | (overwrote) i c' where "queue_send_impl data flags eid c = (True, c')" "ch_ok c'"
        "i < length (ch_queue c)" "state_msg eid (ch_queue c ! i)" "has_flag flags NETUDP_SEND_STATE" "eid \<noteq> 0"
        "ch_queue c' = (ch_queue c)[i := (ch_queue c ! i)\<lparr>qm_data := data, qm_flags := flags\<rparr>]"
        "ch_send_seq c' = ch_send_seq c" "0 < length data" "length data \<le> 1200"
    | (queued) c' where "queue_send_impl data flags eid c = (True, c')" "ch_ok c'"
        "has_flag flags NETUDP_SEND_STATE \<Longrightarrow> eid \<noteq> 0 \<Longrightarrow> \<forall>m\<in>set (ch_queue c). \<not> state_msg eid m"
        "ch_queue c' = ch_queue c @
           [\<lparr>qm_data = data, qm_sequence = ch_send_seq c, qm_entity_id = eid, qm_flags = flags, qm_valid = True\<rparr>]"
        "ch_send_seq c' = ch_send_seq c + 1" "0 < length data" "length data \<le> 1200"
proof -
  let ?q = "send_queue c"
  let ?find = "if has_flag flags NETUDP_SEND_STATE \<and> eid \<noteq> 0 then find_state ?q eid (rb_size ?q) else None"
  have ok: "rb_ok ?q" using assms by (simp add: ch_ok_def)
  show thesis
  proof (cases "length data = 0 \<or> NETUDP_MTU < length data")
    case True
    then show thesis by (intro refused) (simp add: queue_send_impl_def)
  next
    case size: False
    then have len: "0 < length data" "length data \<le> 1200" by (auto simp: NETUDP_MTU_def)
    show thesis
    proof (cases ?find)
      case (Some i)
      then have st: "has_flag flags NETUDP_SEND_STATE" "eid \<noteq> 0" and f: "find_state ?q eid (rb_size ?q) = Some i"
        by (auto split: if_splits)
      from find_state_Some [OF f] have i: "i < rb_size ?q" "state_msg eid (ch_queue c ! i)"
        by (simp_all add: nth_rb_items)
      let ?m = "(rb_get ?q i)\<lparr>qm_data := data, qm_flags := flags\<rparr>"
      let ?c = "bypass_nagle flags (c\<lparr>send_queue := rb_set ?q i ?m\<rparr>)"
      have "queue_send_impl data flags eid c = (True, ?c)"
        using size st f by (simp add: queue_send_impl_def)
      moreover have "ch_ok ?c" using assms by (simp add: ch_ok_def)
      ultimately show thesis
        using overwrote [of ?c i] i st len rb_items_set [OF ok i(1)] by (simp add: nth_rb_items)
    next
      case None
      show thesis
      proof (cases "rb_size ?q = rb_cap ?q")
        case True
        with size None show thesis by (intro refused) (simp add: queue_send_impl_def)
      next
        case False
        then have room: "rb_size ?q < rb_cap ?q" using ok by (simp add: rb_ok_def)
        let ?m = "\<lparr>qm_data = data, qm_sequence = ch_send_seq c, qm_entity_id = eid, qm_flags = flags, qm_valid = True\<rparr>"
        obtain c' where c': "queue_send_impl data flags eid c = (True, c')"
          "send_queue c' = snd (push_back ?m ?q)" "ch_send_seq c' = ch_send_seq c + 1"
          using size None False by (simp add: queue_send_impl_def Let_def)
        have "\<forall>m\<in>set (ch_queue c). \<not> state_msg eid m" if "has_flag flags NETUDP_SEND_STATE" "eid \<noteq> 0"
          using None that find_state_None [of ?q eid "rb_size ?q"] by (auto simp: in_set_conv_nth nth_rb_items)
        moreover have "ch_ok c'" using assms c'(2) ring.push_ok [OF ok, of ?m] ring.push_cap [OF ok, of ?m] by (simp add: ch_ok_def)
        ultimately show thesis
          using queued [of c'] c' len room ring.push_accepts [OF ok, of ?m] by simp
      qed
    qed
  qed
qed

lemma dequeue_send_cases:
  assumes "ch_ok c"
  obtains (empty) "dequeue_send c = (None, c)" "ch_queue c = []"
    | (msg) m c' where "dequeue_send c = (Some m, c')" "ch_ok c'" "ch_queue c = m # ch_queue c'"
        "ch_send_seq c' = ch_send_seq c"
proof -
  have ok: "rb_ok (send_queue c)" using assms by (simp add: ch_ok_def)
  show thesis
  proof (cases rule: ring.pop_cases [OF ok, of empty_msg])
    case 1
    then have "rb_size (send_queue c) = 0" using length_rb_items [of "send_queue c"] by simp
    then show thesis using 1 by (intro empty) (simp_all add: dequeue_send_def)
  next
    case (2 m ms q)
    then have "rb_size (send_queue c) \<noteq> 0" using length_rb_items [of "send_queue c"] by auto
    then show thesis
      using 2 assms by (intro msg [of m "c\<lparr>send_queue := q, nagle_ready := False, nagle_accumulate_time := 0\<rparr>"])
        (simp_all add: dequeue_send_def ch_ok_def)
  qed
qed

section \<open>The invariant of a channel\<close>

text \<open>
  The pending messages carry consecutive sequence numbers that end just below \<^verbatim>\<open>send_seq_\<close>, each has
  between 1 and 1200 bytes, and no entity has two pending state updates.
\<close>

definition seqs_consecutive :: "u16 \<Rightarrow> QueuedMessage list \<Rightarrow> bool" where
  "seqs_consecutive s ms \<longleftrightarrow>
     (\<forall>i<length ms. qm_sequence (ms ! i) + of_nat (length ms) = s + of_nat i)"

definition state_unique :: "QueuedMessage list \<Rightarrow> bool" where
  "state_unique ms \<longleftrightarrow> (\<forall>eid i j. eid \<noteq> 0 \<longrightarrow> i < length ms \<longrightarrow> j < length ms \<longrightarrow>
     state_msg eid (ms ! i) \<longrightarrow> state_msg eid (ms ! j) \<longrightarrow> i = j)"

definition msg_size_ok :: "QueuedMessage \<Rightarrow> bool" where
  "msg_size_ok m \<longleftrightarrow> 0 < length (qm_data m) \<and> length (qm_data m) \<le> 1200"

definition ch_inv :: "Channel \<Rightarrow> bool" where
  "ch_inv c \<longleftrightarrow> ch_ok c \<and> seqs_consecutive (ch_send_seq c) (ch_queue c) \<and> state_unique (ch_queue c) \<and>
     (\<forall>m\<in>set (ch_queue c). msg_size_ok m)"

lemma state_msg_update [simp]:
  "has_flag flags NETUDP_SEND_STATE \<Longrightarrow> state_msg e (m\<lparr>qm_data := d, qm_flags := flags\<rparr>) \<longleftrightarrow> qm_entity_id m = e"
  by (simp add: state_msg_def)

lemma state_unique_overwrite:
  assumes "state_unique ms" and "i < length ms" and "state_msg eid (ms ! i)" and "has_flag flags NETUDP_SEND_STATE"
  shows "state_unique (ms[i := (ms ! i)\<lparr>qm_data := d, qm_flags := flags\<rparr>])"
proof -
  let ?ms = "ms[i := (ms ! i)\<lparr>qm_data := d, qm_flags := flags\<rparr>]"
  have "state_msg e (?ms ! k) \<longleftrightarrow> state_msg e (ms ! k)" if "k < length ms" for e k
    using that assms(2-4) by (auto simp: nth_list_update state_msg_def)
  with assms(1) show ?thesis by (auto simp: state_unique_def)
qed

lemma state_unique_append:
  assumes "state_unique ms" and "\<And>e. e \<noteq> 0 \<Longrightarrow> state_msg e m \<Longrightarrow> \<forall>x\<in>set ms. \<not> state_msg e x"
  shows "state_unique (ms @ [m])"
  unfolding state_unique_def
proof (intro allI impI)
  fix e :: u16 and i j
  assume *: "e \<noteq> 0" "i < length (ms @ [m])" "j < length (ms @ [m])"
    "state_msg e ((ms @ [m]) ! i)" "state_msg e ((ms @ [m]) ! j)"
  have old: "k = k'" if "k < length ms" "k' < length ms" "state_msg e (ms ! k)" "state_msg e (ms ! k')" for k k'
    using assms(1) *(1) that unfolding state_unique_def by blast
  have new: False if "k < length ms" "state_msg e (ms ! k)" "state_msg e m" for k
    using assms(2) [OF *(1) that(3)] nth_mem [OF that(1)] that(2) by blast
  show "i = j"
    using *(2-5) old [of i j] new [of i] new [of j]
    by (cases "i < length ms"; cases "j < length ms") (simp_all add: nth_append)
qed

lemma seqs_consecutive_append:
  "seqs_consecutive s ms \<Longrightarrow> qm_sequence m = s \<Longrightarrow> seqs_consecutive (s + 1) (ms @ [m])"
  by (auto simp: seqs_consecutive_def nth_append less_Suc_eq algebra_simps)

lemma seqs_consecutive_overwrite:
  "seqs_consecutive s ms \<Longrightarrow> qm_sequence m = qm_sequence (ms ! i) \<Longrightarrow> seqs_consecutive s (ms[i := m])"
  by (cases "i < length ms") (auto simp: seqs_consecutive_def nth_list_update)

lemma seqs_consecutive_tl: "seqs_consecutive s (m # ms) \<Longrightarrow> seqs_consecutive s ms"
  unfolding seqs_consecutive_def
proof (intro allI impI)
  fix i
  assume "\<forall>i<length (m # ms). qm_sequence ((m # ms) ! i) + of_nat (length (m # ms)) = s + of_nat i" "i < length ms"
  then have "qm_sequence ((m # ms) ! Suc i) + of_nat (length (m # ms)) = s + of_nat (Suc i)" by fastforce
  then show "qm_sequence (ms ! i) + of_nat (length ms) = s + of_nat i" by (simp add: add.left_commute)
qed

lemma state_unique_tl: "state_unique (m # ms) \<Longrightarrow> state_unique ms"
  unfolding state_unique_def by (metis Suc_inject Suc_less_eq length_Cons nth_Cons_Suc)

lemma ch_inv_queue:
  assumes "ch_inv c"
  shows "ch_inv (snd (queue_send_impl data flags eid c))"
proof -
  have inv: "ch_ok c" "seqs_consecutive (ch_send_seq c) (ch_queue c)" "state_unique (ch_queue c)"
    "\<forall>m\<in>set (ch_queue c). msg_size_ok m"
    using assms by (simp_all add: ch_inv_def)
  from inv(1) show ?thesis
  proof (cases rule: queue_send_impl_cases [of c data flags eid])
    case refused
    with assms show ?thesis by simp
  next
    case (overwrote i c')
    let ?m = "(ch_queue c ! i)\<lparr>qm_data := data, qm_flags := flags\<rparr>"
    have "\<forall>m\<in>set ((ch_queue c)[i := ?m]). msg_size_ok m"
      using inv(4) overwrote(9,10) set_update_subset_insert [of "ch_queue c" i ?m] by (auto simp: msg_size_ok_def)
    with overwrote inv show ?thesis
      by (simp add: ch_inv_def state_unique_overwrite seqs_consecutive_overwrite)
  next
    case (queued c')
    let ?m = "\<lparr>qm_data = data, qm_sequence = ch_send_seq c, qm_entity_id = eid, qm_flags = flags, qm_valid = True\<rparr>"
    have "state_unique (ch_queue c @ [?m])"
      using queued(3) by (intro state_unique_append [OF inv(3)]) (auto simp: state_msg_def)
    with queued inv show ?thesis
      by (auto simp: ch_inv_def seqs_consecutive_append msg_size_ok_def)
  qed
qed

lemma ch_inv_dequeue: "ch_inv c \<Longrightarrow> ch_inv (snd (dequeue_send c))"
proof -
  assume inv: "ch_inv c"
  then have "ch_ok c" by (simp add: ch_inv_def)
  then show ?thesis
  proof (cases rule: dequeue_send_cases)
    case (msg m c')
    with inv show ?thesis
      by (auto simp: ch_inv_def dest: seqs_consecutive_tl state_unique_tl)
  qed (use inv in simp)
qed

text \<open>What the program does to a channel, as a step relation.\<close>

inductive chan_step :: "Channel \<Rightarrow> Channel \<Rightarrow> bool" where
  queue: "chan_step c (snd (queue_send data flags c))"
| state: "chan_step c (snd (queue_send_state data flags eid c))"
| dequeue: "chan_step c (snd (dequeue_send c))"
| nagle: "chan_step c (start_nagle now c)"
| flush: "chan_step c (channel_flush c)"
| recv: "chan_step c (snd (on_recv_unreliable seq c))"
| recv_sequenced: "chan_step c (snd (on_recv_unreliable_sequenced seq c))"

lemma ch_inv_same_queue:
  "ch_inv c \<Longrightarrow> send_queue c' = send_queue c \<Longrightarrow> ch_send_seq c' = ch_send_seq c \<Longrightarrow> ch_inv c'"
  by (simp add: ch_inv_def ch_ok_def)

lemma ch_inv_step: "chan_step c c' \<Longrightarrow> ch_inv c \<Longrightarrow> ch_inv c'"
proof (induction rule: chan_step.induct)
  case (queue c data flags)
  then show ?case by (simp add: queue_send_def ch_inv_queue)
next
  case (state c data flags eid)
  then show ?case by (simp add: queue_send_state_def ch_inv_queue)
qed (auto simp: ch_inv_dequeue start_nagle_def channel_flush_def on_recv_unreliable_def count_received_def
    on_recv_unreliable_sequenced_def Let_def elim!: ch_inv_same_queue)

lemma ch_inv_init: "ch_inv (channel_init index config (new_channel config0))"
proof -
  have "pow2_capacity 256" using pow2_capacity_power [of 8] by simp
  moreover have "rb_cap (rb_new 256 x) = 256" for x :: QueuedMessage
    by (simp add: rb_new_def)
  ultimately show ?thesis
    by (simp add: ch_inv_def ch_ok_def channel_init_def new_channel_def rb_clear_new rb_new_ok
        seqs_consecutive_def state_unique_def)
qed

lemma filter_single_update:
  assumes "i < length xs" and "P (xs ! i)" and "P y" and "\<And>j. j < length xs \<Longrightarrow> j \<noteq> i \<Longrightarrow> \<not> P (xs ! j)"
  shows "filter P (xs[i := y]) = [y]" and "filter (\<lambda>x. \<not> P x) (xs[i := y]) = filter (\<lambda>x. \<not> P x) xs"
proof -
  have xs: "xs = take i xs @ xs ! i # drop (Suc i) xs" by (rule id_take_nth_drop [OF assms(1)])
  have none: "filter P (take i xs) = []" "filter P (drop (Suc i) xs) = []"
    using assms(1,4) by (auto simp: filter_empty_conv in_set_conv_nth)
  have up: "xs[i := y] = take i xs @ y # drop (Suc i) xs"
    using assms(1) by (rule upd_conv_take_nth_drop)
  show "filter P (xs[i := y]) = [y]" using none assms(3) by (simp add: up)
  show "filter (\<lambda>x. \<not> P x) (xs[i := y]) = filter (\<lambda>x. \<not> P x) xs"
    using assms(2,3) by (subst (2) xs) (simp add: up)
qed

section \<open>The scheduler\<close>

text \<open>\<open>best_among S b\<close>: of the pending channels in \<open>S\<close>, \<open>b\<close> has the highest priority, the lowest index first.\<close>

definition best_among :: "Channel list \<Rightarrow> real \<Rightarrow> nat set \<Rightarrow> nat \<Rightarrow> bool" where
  "best_among chs now S b \<longleftrightarrow> b \<in> S \<and> has_pending now (chs ! b) \<and>
     (\<forall>j\<in>S. has_pending now (chs ! j) \<longrightarrow>
        ch_priority (chs ! j) < ch_priority (chs ! b) \<or> ch_priority (chs ! j) = ch_priority (chs ! b) \<and> b \<le> j)"

definition sched_rel :: "Channel list \<Rightarrow> real \<Rightarrow> nat set \<Rightarrow> (nat \<times> byte) option \<Rightarrow> bool" where
  "sched_rel chs now S best \<longleftrightarrow>
     (case best of None \<Rightarrow> \<forall>j\<in>S. \<not> has_pending now (chs ! j)
      | Some (b, p) \<Rightarrow> best_among chs now S b \<and> p = ch_priority (chs ! b))"

lemma sched_rel_step:
  assumes "sched_rel chs now S best" and "\<forall>j\<in>S. j < i"
  shows "sched_rel chs now (insert i S) (if has_pending now (chs ! i) then better chs i best else best)"
proof (cases best)
  case None
  with assms(1) show ?thesis
    by (auto simp: sched_rel_def best_among_def better_def)
next
  case (Some bp)
  obtain b p where bp: "bp = (b, p)" by fastforce
  with Some assms have best: "best_among chs now S b" "p = ch_priority (chs ! b)" "b < i"
    by (auto simp: sched_rel_def best_among_def)
  show ?thesis
  proof (cases "has_pending now (chs ! i) \<and> p < ch_priority (chs ! i)")
    case True
    then have "ch_priority (chs ! j) < ch_priority (chs ! i)" if "j \<in> S" "has_pending now (chs ! j)" for j
      using best(1,2) that by (auto simp: best_among_def intro: less_trans)
    with True Some bp show ?thesis
      by (auto simp: sched_rel_def best_among_def better_def)
  next
    case False
    then have "best_among chs now (insert i S) b"
      using best by (auto simp: best_among_def not_less order.order_iff_strict)
    with False Some bp best show ?thesis
      by (auto simp: sched_rel_def better_def)
  qed
qed

lemma next_channel_loop_spec:
  assumes "sched_rel chs now {..<k} best"
  shows "sched_rel chs now {..<k + n} (next_channel_loop chs now [k..<k + n] best)"
  using assms
proof (induction n arbitrary: k best)
  case (Suc n)
  have "[k..<k + Suc n] = k # [Suc k..<Suc k + n]" by (simp add: upt_conv_Cons)
  moreover have "sched_rel chs now {..<Suc k} (if has_pending now (chs ! k) then better chs k best else best)"
    using sched_rel_step [OF Suc.prems, of k] by (simp add: lessThan_Suc)
  ultimately show ?case
    using Suc.IH [of "Suc k"] by simp
qed simp

lemma next_channel_sched: "sched_rel chs now {..<n} (next_channel_loop chs now [0..<n] None)"
  using next_channel_loop_spec [of chs now 0 None n] by (simp add: sched_rel_def)

lemma fast_loop_best:
  "fst (next_channel_fast_loop chs now pm is (best, new_mask)) =
     next_channel_loop chs now (filter (bit pm) is) best"
  by (induction "is" arbitrary: best new_mask) auto

lemma fast_loop_mask:
  assumes "\<forall>i\<in>set is. i < 8"
  shows "bit (snd (next_channel_fast_loop chs now pm is (best, new_mask))) k \<longleftrightarrow>
     bit new_mask k \<or> (k \<in> set is \<and> bit pm k \<and> has_pending now (chs ! k))"
  using assms
proof (induction "is" arbitrary: best new_mask)
  case (Cons i "is")
  have "bit (push_bit i (1 :: byte)) k \<longleftrightarrow> k = i"
    using Cons.prems by (auto simp: bit_exp_iff)
  then show ?case
    using Cons by (auto simp: bit_or_iff)
qed simp

lemma next_channel_loop_skip:
  assumes "\<forall>i\<in>set is. has_pending now (chs ! i) \<longrightarrow> P i"
  shows "next_channel_loop chs now (filter P is) best = next_channel_loop chs now is best"
  using assms by (induction "is" arbitrary: best) auto

section \<open>Properties\<close>

text \<open>
  C10. The invariant of a channel. Whatever is queued, dequeued, flushed and received on a channel after
  its initialisation, its ring is well formed, the pending messages carry consecutive sequence numbers
  ending just below the next one to assign, each holds 1 to 1200 bytes, and no entity has two pending
  state updates.
\<close>

theorem channel_invariant:
  assumes "chan_step\<^sup>*\<^sup>* (channel_init index config (new_channel config)) c"
  shows "ch_inv c"
  using assms by (induction rule: rtranclp_induct) (auto simp: ch_inv_init ch_inv_step)

theorem channel_invariant_witness:
  "ch_inv (snd (queue_send [1] 0 (channel_init 0 \<lparr>cc_type = UNRELIABLE, cc_priority = 0, cc_weight = 1, cc_nagle_ms = 0\<rparr>
     (new_channel \<lparr>cc_type = UNRELIABLE, cc_priority = 0, cc_weight = 1, cc_nagle_ms = 0\<rparr>))))"
  by (rule channel_invariant) (rule r_into_rtranclp, rule chan_step.queue)

text \<open>
  C11. State updates: the latest wins. When a state update of an entity is accepted, it is the only
  pending update of that entity and carries the new data; every other pending message stays, in order.
\<close>

theorem state_update_latest_wins:
  assumes "ch_inv c" and "eid \<noteq> 0" and "queue_send_state data flags eid c = (True, c')"
  shows "(\<exists>m. filter (state_msg eid) (ch_queue c') = [m] \<and> qm_data m = data) \<and>
    filter (\<lambda>m. \<not> state_msg eid m) (ch_queue c') = filter (\<lambda>m. \<not> state_msg eid m) (ch_queue c)"
proof -
  let ?flags = "flags OR NETUDP_SEND_STATE"
  have fl: "has_flag ?flags NETUDP_SEND_STATE"
    by (simp add: NETUDP_SEND_STATE_def bit.conj_disj_distrib2)
  have inv: "ch_ok c" "state_unique (ch_queue c)" using assms(1) by (simp_all add: ch_inv_def)
  from inv(1) show ?thesis
  proof (cases rule: queue_send_impl_cases [of c data ?flags eid])
    case refused
    with assms(3) show ?thesis by (simp add: queue_send_state_def)
  next
    case (overwrote i c2)
    let ?m = "(ch_queue c ! i)\<lparr>qm_data := data, qm_flags := ?flags\<rparr>"
    have "ch_queue c' = (ch_queue c)[i := ?m]"
      using overwrote assms(3) by (simp add: queue_send_state_def)
    moreover have "state_msg eid ?m" using overwrote(4) fl by (simp add: state_msg_def)
    moreover have "\<not> state_msg eid (ch_queue c ! j)" if "j < length (ch_queue c)" "j \<noteq> i" for j
      using inv(2) assms(2) overwrote(3,4) that unfolding state_unique_def by blast
    ultimately show ?thesis
      using filter_single_update [of i "ch_queue c" "state_msg eid" ?m] overwrote(3,4) by simp
  next
    case (queued c2)
    let ?m = "\<lparr>qm_data = data, qm_sequence = ch_send_seq c, qm_entity_id = eid, qm_flags = ?flags, qm_valid = True\<rparr>"
    have "ch_queue c' = ch_queue c @ [?m]" using queued assms(3) by (simp add: queue_send_state_def)
    moreover have "filter (state_msg eid) (ch_queue c) = []"
      using queued(3) fl assms(2) by (simp add: filter_empty_conv)
    moreover have "state_msg eid ?m" using fl by (simp add: state_msg_def)
    ultimately show ?thesis by simp
  qed
qed

theorem state_update_latest_wins_witness:
  "let c = channel_init 0 \<lparr>cc_type = UNRELIABLE, cc_priority = 0, cc_weight = 1, cc_nagle_ms = 0\<rparr>
         (new_channel \<lparr>cc_type = UNRELIABLE, cc_priority = 0, cc_weight = 1, cc_nagle_ms = 0\<rparr>);
       c1 = snd (queue_send_state [1] 0 7 c); c2 = snd (queue_send_state [2] 0 7 c1)
   in \<exists>m. filter (state_msg 7) (ch_queue c2) = [m] \<and> qm_data m = [2]"
proof -
  let ?cfg = "\<lparr>cc_type = UNRELIABLE, cc_priority = 0, cc_weight = 1, cc_nagle_ms = 0\<rparr>"
  let ?c1 = "snd (queue_send_state [1] 0 7 (channel_init 0 ?cfg (new_channel ?cfg)))"
  let ?r = "queue_send_state [2] 0 7 ?c1"
  have "ch_inv ?c1" using ch_inv_init by (simp add: queue_send_state_def ch_inv_queue)
  moreover have "fst ?r" by code_simp
  then have "?r = (True, snd ?r)" by (cases ?r) simp
  ultimately show ?thesis
    using state_update_latest_wins [of ?c1 7 "[2]" 0 "snd ?r"] by (simp only: Let_def) simp
qed

text \<open>
  The scheduler picks a pending channel of the highest priority, the lowest index among equals,
  and reports none exactly if no channel is pending.
\<close>

theorem next_channel_best:
  "case next_channel chs n now of
     None \<Rightarrow> \<not> (\<exists>j<n. has_pending now (chs ! j))
   | Some b \<Rightarrow> best_among chs now {..<n} b"
proof -
  have "sched_rel chs now {..<n} (next_channel_loop chs now [0..<n] None)" by (rule next_channel_sched)
  then show ?thesis
    by (auto simp: next_channel_def sched_rel_def split: option.splits)
qed




end
