(* ===== verification/Fragment.thy ===== *)
theory Fragment
  imports Netudp_Prelude
begin

text \<open>
  \<^verbatim>\<open>fragment/fragment.h\<close>: splitting of messages into fragments and their reassembly, with sixteen
  messages reassembled at a time. The lemmas relate the trackers, their bit masks and their
  buffers to a map from message ids to the sets of the fragments received.
\<close>

section \<open>State and operations\<close>

definition MAX_FRAGMENT_COUNT :: nat where
  "MAX_FRAGMENT_COUNT = 255"

definition MAX_CONCURRENT_REASSEMBLIES :: nat where
  "MAX_CONCURRENT_REASSEMBLIES = 16"

definition FRAGMENT_TIMEOUT_SEC :: real where
  "FRAGMENT_TIMEOUT_SEC = 5"

record FragmentHeader =
  fh_message_id :: u16
  fh_fragment_index :: byte
  fh_fragment_count :: byte

definition write_fragment_header :: "FragmentHeader \<Rightarrow> byte list" where
  "write_fragment_header hdr = le_bytes 2 (fh_message_id hdr) @ [fh_fragment_index hdr, fh_fragment_count hdr]"

definition read_fragment_header :: "byte list \<Rightarrow> FragmentHeader" where
  "read_fragment_header buf =
     \<lparr>fh_message_id = of_le (read_at 0 2 buf), fh_fragment_index = buf ! 2, fh_fragment_count = buf ! 3\<rparr>"

definition calc_fragment_count :: "nat \<Rightarrow> nat \<Rightarrow> nat option" where
  "calc_fragment_count message_size max_fragment_payload =
     (if message_size = 0 \<or> max_fragment_payload = 0 then None
      else let count = (message_size + max_fragment_payload - 1) div max_fragment_payload
           in if count > MAX_FRAGMENT_COUNT then None else Some count)"

text \<open>The buffer's length is \<^verbatim>\<open>buffer_capacity\<close>.\<close>

record FragmentTracker =
  ft_message_id :: u16
  ft_total_fragments :: byte
  ft_received_count :: byte
  ft_received_mask :: "byte list"
  ft_first_recv_time :: real
  ft_last_recv_time :: real
  ft_active :: bool
  ft_buffer :: "byte list"
  ft_fragment_sizes :: "nat list"

definition is_complete :: "FragmentTracker \<Rightarrow> bool" where
  "is_complete t \<longleftrightarrow> ft_received_count t = ft_total_fragments t"

definition has_fragment :: "FragmentTracker \<Rightarrow> nat \<Rightarrow> bool" where
  "has_fragment t index \<longleftrightarrow> bit (ft_received_mask t ! (index div 8)) (index mod 8)"

definition mark_fragment :: "nat \<Rightarrow> FragmentTracker \<Rightarrow> FragmentTracker" where
  "mark_fragment index t =
     (if \<not> has_fragment t index then
        t\<lparr>ft_received_mask := (ft_received_mask t)
             [index div 8 := ft_received_mask t ! (index div 8) OR push_bit (index mod 8) 1],
          ft_received_count := ft_received_count t + 1\<rparr>
      else t)"

definition next_missing :: "FragmentTracker \<Rightarrow> nat option" where
  "next_missing t = find (\<lambda>i. \<not> has_fragment t i) [0..<unat (ft_total_fragments t)]"

definition total_message_size :: "FragmentTracker \<Rightarrow> nat" where
  "total_message_size t = sum_list (map (\<lambda>i. ft_fragment_sizes t ! i) [0..<unat (ft_total_fragments t)])"

definition tracker_clear :: "FragmentTracker \<Rightarrow> FragmentTracker" where
  "tracker_clear t =
     \<lparr>ft_message_id = 0, ft_total_fragments = 0, ft_received_count = 0, ft_received_mask = replicate 32 0,
      ft_first_recv_time = 0, ft_last_recv_time = 0, ft_active = False,
      ft_buffer = replicate (length (ft_buffer t)) 0, ft_fragment_sizes = replicate MAX_FRAGMENT_COUNT 0\<rparr>"

type_synonym FragmentReassembler = "FragmentTracker list"

text \<open>\<^verbatim>\<open>init\<close> with memory available; \<^verbatim>\<open>new[]\<close> leaves the buffer's contents open.\<close>

definition reassembler_init :: "nat \<Rightarrow> byte \<Rightarrow> FragmentReassembler" where
  "reassembler_init max_message_size fill =
     replicate MAX_CONCURRENT_REASSEMBLIES
       ((tracker_clear \<lparr>ft_message_id = 0, ft_total_fragments = 0, ft_received_count = 0, ft_received_mask = [],
          ft_first_recv_time = 0, ft_last_recv_time = 0, ft_active = False, ft_buffer = [], ft_fragment_sizes = []\<rparr>)
        \<lparr>ft_buffer := replicate max_message_size fill\<rparr>)"

fun find_tracker_from :: "u16 \<Rightarrow> nat \<Rightarrow> FragmentTracker list \<Rightarrow> nat option" where
  "find_tracker_from mid i [] = None"
| "find_tracker_from mid i (t # ts) =
     (if ft_active t \<and> ft_message_id t = mid then Some i else find_tracker_from mid (i + 1) ts)"

definition find_tracker :: "u16 \<Rightarrow> FragmentReassembler \<Rightarrow> nat option" where
  "find_tracker mid r = find_tracker_from mid 0 r"

fun find_inactive_from :: "nat \<Rightarrow> FragmentTracker list \<Rightarrow> nat option" where
  "find_inactive_from i [] = None"
| "find_inactive_from i (t # ts) = (if \<not> ft_active t then Some i else find_inactive_from (i + 1) ts)"

definition allocate_tracker :: "u16 \<Rightarrow> byte \<Rightarrow> real \<Rightarrow> FragmentReassembler \<Rightarrow> (nat \<times> FragmentReassembler) option" where
  "allocate_tracker mid fragment_count time r =
     (case find_inactive_from 0 r of None \<Rightarrow> None
      | Some i \<Rightarrow> Some (i, r[i := (tracker_clear (r ! i))
          \<lparr>ft_message_id := mid, ft_total_fragments := fragment_count, ft_first_recv_time := time, ft_active := True\<rparr>]))"

text \<open>The message returned is the first \<^verbatim>\<open>*out_size\<close> bytes of the tracker's buffer.\<close>

definition store_fragment ::
    "nat \<Rightarrow> nat \<Rightarrow> byte list \<Rightarrow> real \<Rightarrow> FragmentTracker \<Rightarrow> FragmentTracker" where
  "store_fragment fragment_index offset fragment_data time t =
     (mark_fragment fragment_index
        (t\<lparr>ft_buffer := write_at offset fragment_data (ft_buffer t),
           ft_fragment_sizes := (ft_fragment_sizes t)[fragment_index := length fragment_data]\<rparr>))
        \<lparr>ft_last_recv_time := time\<rparr>"

definition on_fragment_received ::
    "u16 \<Rightarrow> byte \<Rightarrow> byte \<Rightarrow> byte list \<Rightarrow> nat \<Rightarrow> real \<Rightarrow> FragmentReassembler \<Rightarrow> byte list option \<times> FragmentReassembler" where
  "on_fragment_received message_id fragment_index fragment_count fragment_data max_fragment_payload time r =
     (if fragment_count = 0 \<or> fragment_index \<ge> fragment_count then (None, r)
      else case (case find_tracker message_id r of
                   None \<Rightarrow> allocate_tracker message_id fragment_count time r
                 | Some i \<Rightarrow> Some (i, r)) of
        None \<Rightarrow> (None, r)
      | Some (i, r1) \<Rightarrow>
          let t = r1 ! i; offset = unat fragment_index * max_fragment_payload
          in if ft_total_fragments t \<noteq> fragment_count then (None, r1)
             else if has_fragment t (unat fragment_index) then (None, r1)
             else if offset + length fragment_data > length (ft_buffer t) then (None, r1)
             else let t1 = store_fragment (unat fragment_index) offset fragment_data time t
               in if is_complete t1
                  then (Some (take (total_message_size t1) (ft_buffer t1)), r1[i := t1\<lparr>ft_active := False\<rparr>])
                  else (None, r1[i := t1]))"

definition frag_expired :: "real \<Rightarrow> FragmentTracker \<Rightarrow> bool" where
  "frag_expired now t \<longleftrightarrow> ft_active t \<and> now - ft_first_recv_time t > FRAGMENT_TIMEOUT_SEC"

definition cleanup_timeout :: "real \<Rightarrow> FragmentReassembler \<Rightarrow> nat \<times> FragmentReassembler" where
  "cleanup_timeout now r =
     (length (filter (frag_expired now) r),
      map (\<lambda>t. if frag_expired now t then (tracker_clear t)\<lparr>ft_active := False\<rparr> else t) r)"

section \<open>Splitting\<close>

text \<open>The \<open>i\<close>-th fragment of a message for a payload of \<open>P\<close> bytes.\<close>

definition fragment_of :: "nat \<Rightarrow> byte list \<Rightarrow> nat \<Rightarrow> byte list" where
  "fragment_of P msg i = take P (drop (i * P) msg)"

lemma length_fragment_of: "length (fragment_of P msg i) = min P (length msg - i * P)"
  by (simp add: fragment_of_def min.commute)

lemma sum_fragments: "sum_list (map (\<lambda>i. min P (n - i * P)) [0..<k]) = min (k * P) n" for n P k :: nat
  by (induction k) auto

lemma calc_fragment_countD:
  assumes "calc_fragment_count n P = Some k"
  shows "0 < n" "0 < P" "k \<le> 255" "n \<le> k * P" "(k - 1) * P < n" "0 < k"
proof -
  have nz: "0 < n" "0 < P" and k: "k = (n + P - 1) div P" "k \<le> 255"
    using assms by (auto simp: calc_fragment_count_def Let_def MAX_FRAGMENT_COUNT_def split: if_splits)
  have lo: "k * P \<le> n + P - 1"
    unfolding k(1) by (rule div_times_less_eq_dividend)
  have hi: "n + P - 1 < k * P + P"
    using div_mult_mod_eq [of "n + P - 1" P] mod_less_divisor [OF nz(2), of "n + P - 1"] unfolding k(1) by linarith
  show "0 < n" "0 < P" "k \<le> 255" by (fact nz k)+
  show "n \<le> k * P" using hi nz by linarith
  then show "0 < k" using nz by (cases k) auto
  then obtain j where "k = Suc j" using gr0_conv_Suc by blast
  then show "(k - 1) * P < n" using lo nz by simp
qed

section \<open>One tracker\<close>

text \<open>A tracker that has received the fragments \<open>S\<close> of the message \<open>msg\<close>, of \<open>k\<close> fragments in all.\<close>

definition holds :: "nat \<Rightarrow> byte list \<Rightarrow> nat \<Rightarrow> nat set \<Rightarrow> FragmentTracker \<Rightarrow> bool" where
  "holds P msg k S t \<longleftrightarrow> ft_total_fragments t = of_nat k \<and> ft_received_count t = of_nat (card S) \<and>
     S \<subseteq> {..<k} \<and> length (ft_received_mask t) = 32 \<and> length (ft_fragment_sizes t) = 255 \<and>
     length msg \<le> length (ft_buffer t) \<and> (\<forall>i<256. has_fragment t i \<longleftrightarrow> i \<in> S) \<and>
     (\<forall>i\<in>S. ft_fragment_sizes t ! i = length (fragment_of P msg i) \<and>
       read_at (i * P) (length (fragment_of P msg i)) (ft_buffer t) = fragment_of P msg i)"

lemma holdsD:
  assumes "holds P msg k S t"
  shows "ft_total_fragments t = of_nat k" "ft_received_count t = of_nat (card S)" "S \<subseteq> {..<k}"
    "length (ft_received_mask t) = 32" "length (ft_fragment_sizes t) = 255" "length msg \<le> length (ft_buffer t)"
    "i < 256 \<Longrightarrow> has_fragment t i \<longleftrightarrow> i \<in> S" "i \<in> S \<Longrightarrow> ft_fragment_sizes t ! i = length (fragment_of P msg i)"
    "i \<in> S \<Longrightarrow> read_at (i * P) (length (fragment_of P msg i)) (ft_buffer t) = fragment_of P msg i"
  using assms by (auto simp: holds_def)

lemma has_fragment_mark:
  assumes "length (ft_received_mask t) = 32" and "i < 256" and "j < 256"
  shows "has_fragment (mark_fragment i t) j \<longleftrightarrow> j = i \<or> has_fragment t j"
proof (cases "has_fragment t i")
  case True
  then show ?thesis by (auto simp: mark_fragment_def)
next
  case False
  have "i div 8 < 32" "j div 8 < 32" using assms by simp_all
  moreover have "bit (push_bit (i mod 8) (1 :: byte)) (j mod 8) \<longleftrightarrow> j mod 8 = i mod 8"
    by (auto simp: bit_exp_iff)
  moreover have "j = i \<longleftrightarrow> j div 8 = i div 8 \<and> j mod 8 = i mod 8"
    using div_mult_mod_eq [of i 8] div_mult_mod_eq [of j 8] by metis
  ultimately show ?thesis
    using False assms(1) by (auto simp: mark_fragment_def has_fragment_def nth_list_update bit_or_iff)
qed

lemma regions_apart:
  assumes "i \<noteq> j"
  shows "j * P + length (fragment_of P msg j) \<le> i * P \<or> i * P + length (fragment_of P msg i) \<le> j * P"
proof -
  have step: "a * P + P \<le> b * P" if "a < b" for a b
    using that mult_le_mono1 [of "Suc a" b P] by simp
  have len: "length (fragment_of P msg a) \<le> P" for a by (simp add: length_fragment_of)
  show ?thesis
  proof (cases "j < i")
    case True
    from step [OF this] len [of j] show ?thesis by linarith
  next
    case False
    with assms have "i < j" by simp
    from step [OF this] len [of i] show ?thesis by linarith
  qed
qed

lemma fragment_in_buffer:
  assumes "i * P < length msg" and "length msg \<le> n"
  shows "i * P + length (fragment_of P msg i) \<le> n"
  using assms by (simp add: length_fragment_of)

lemma fragment_start:
  assumes "calc_fragment_count (length msg) P = Some k" and "i < k"
  shows "i * P < length msg"
proof -
  have "i * P \<le> (k - 1) * P" using assms(2) by (intro mult_le_mono1) simp
  then show ?thesis using calc_fragment_countD(5) [OF assms(1)] by linarith
qed

lemma holds_store:
  assumes k: "calc_fragment_count (length msg) P = Some k" and H: "holds P msg k S t" and i: "i < k" "i \<notin> S"
  shows "holds P msg k (insert i S) (store_fragment i (i * P) (fragment_of P msg i) time t)"
proof -
  note h = holdsD [OF H]
  let ?f = "fragment_of P msg i" and ?u = "t\<lparr>ft_buffer := write_at (i * P) (fragment_of P msg i) (ft_buffer t),
           ft_fragment_sizes := (ft_fragment_sizes t)[i := length (fragment_of P msg i)]\<rparr>"
  let ?t = "store_fragment i (i * P) ?f time t"
  have i256: "i < 255" "i < 256" using i(1) calc_fragment_countD(3) [OF k] by simp_all
  have fits: "i * P + length ?f \<le> length (ft_buffer t)"
    using fragment_in_buffer [OF fragment_start [OF k i(1)] h(6)] .
  have new: "\<not> has_fragment ?u i" using h(7) [OF i256(2)] i(2) by (simp add: has_fragment_def)
  have fields: "ft_total_fragments ?t = of_nat k" "ft_received_count ?t = of_nat (card S) + 1"
    "length (ft_received_mask ?t) = 32" "ft_fragment_sizes ?t = (ft_fragment_sizes t)[i := length ?f]"
    "ft_buffer ?t = write_at (i * P) ?f (ft_buffer t)"
    using new h(1,2,4) by (simp_all add: store_fragment_def mark_fragment_def)
  have "finite S" using h(3) finite_subset by blast
  then have card: "card (insert i S) = card S + 1" using i(2) by simp
  have has: "has_fragment ?t j \<longleftrightarrow> j \<in> insert i S" if "j < 256" for j
    using has_fragment_mark [of ?u i j] h(4) h(7) [OF that] i256 that
    by (simp add: store_fragment_def has_fragment_def)
  have parts: "ft_fragment_sizes ?t ! j = length (fragment_of P msg j) \<and>
      read_at (j * P) (length (fragment_of P msg j)) (ft_buffer ?t) = fragment_of P msg j" if "j \<in> insert i S" for j
  proof (cases "j = i")
    case True
    then show ?thesis using fields(4,5) h(5) i256 fits by simp
  next
    case False
    then have "j \<in> S" using that by simp
    with False h(8,9) [of j] fields(4,5) read_write_other [OF fits regions_apart [of i j P msg]] show ?thesis
      by (auto simp: nth_list_update)
  qed
  show ?thesis
    using fields card has parts h(3,5,6) i(1) fits by (auto simp: holds_def)
qed

lemma holds_complete:
  assumes k: "calc_fragment_count (length msg) P = Some k" and H: "holds P msg k S t"
  shows "is_complete t \<longleftrightarrow> S = {..<k}"
    and "S = {..<k} \<Longrightarrow> take (total_message_size t) (ft_buffer t) = msg"
proof -
  note h = holdsD [OF H] and kd = calc_fragment_countD [OF k]
  have fin: "finite S" and le: "card S \<le> k"
    using h(3) finite_subset card_mono [of "{..<k}" S] by auto
  have "(of_nat (card S) :: byte) = of_nat k \<longleftrightarrow> card S = k"
    using le kd(3) by (auto simp: word_of_nat_eq_iff take_bit_eq_mod)
  also have "\<dots> \<longleftrightarrow> S = {..<k}"
    using h(3) card_subset_eq [of "{..<k}" S] by auto
  finally show "is_complete t \<longleftrightarrow> S = {..<k}" using h(1,2) by (simp add: is_complete_def)
next
  note h = holdsD [OF H] and kd = calc_fragment_countD [OF k]
  assume S: "S = {..<k}"
  have "unat (ft_total_fragments t) = k" using h(1) kd(3) by (simp add: unat_of_nat)
  moreover have "map (\<lambda>i. ft_fragment_sizes t ! i) [0..<k] = map (\<lambda>i. min P (length msg - i * P)) [0..<k]"
    using h(8) S by (intro map_cong) (auto simp: length_fragment_of)
  ultimately have "total_message_size t = sum_list (map (\<lambda>i. min P (length msg - i * P)) [0..<k])"
    unfolding total_message_size_def by (simp only:)
  then have total: "total_message_size t = length msg"
    using kd(4) by (simp add: sum_fragments)
  have "ft_buffer t ! p = msg ! p" if p: "p < length msg" for p
  proof -
    let ?i = "p div P" and ?q = "p mod P"
    have "?i < k" using p kd(2,4) by (simp add: div_less_iff_less_mult)
    then have r: "read_at (?i * P) (length (fragment_of P msg ?i)) (ft_buffer t) = fragment_of P msg ?i"
      using h(9) S by blast
    have pq: "?i * P + ?q = p" by simp
    have le: "?i * P \<le> length (ft_buffer t)" "?i * P \<le> length msg" using p pq h(6) by linarith+
    have q: "?q < length (fragment_of P msg ?i)"
    proof -
      have "?q < length msg - ?i * P" using p pq by linarith
      moreover have "?q < P" using kd(2) by simp
      ultimately show ?thesis by (simp add: length_fragment_of)
    qed
    have "read_at (?i * P) (length (fragment_of P msg ?i)) (ft_buffer t) ! ?q = ft_buffer t ! p"
      using q le by (simp add: read_at_def)
    moreover have "fragment_of P msg ?i ! ?q = msg ! p"
      using q le by (simp add: fragment_of_def)
    ultimately show ?thesis using r by simp
  qed
  then show "take (total_message_size t) (ft_buffer t) = msg"
    using total h(6) by (auto intro: nth_equalityI)
qed

section \<open>The reassembler\<close>

lemma find_tracker_from_Some:
  "find_tracker_from mid n ts = Some i \<Longrightarrow>
     n \<le> i \<and> i < n + length ts \<and> ft_active (ts ! (i - n)) \<and> ft_message_id (ts ! (i - n)) = mid"
  by (induction mid n ts rule: find_tracker_from.induct) (force simp: nth_Cons' split: if_splits)+

lemma find_tracker_from_None:
  "find_tracker_from mid n ts = None \<longleftrightarrow> (\<forall>t\<in>set ts. \<not> (ft_active t \<and> ft_message_id t = mid))"
  by (induction mid n ts rule: find_tracker_from.induct) auto

lemma find_inactive_from_Some:
  "find_inactive_from n ts = Some i \<Longrightarrow> n \<le> i \<and> i < n + length ts \<and> \<not> ft_active (ts ! (i - n))"
  by (induction n ts rule: find_inactive_from.induct) (force simp: nth_Cons' split: if_splits)+

lemma find_inactive_from_None: "find_inactive_from n ts = None \<longleftrightarrow> (\<forall>t\<in>set ts. ft_active t)"
  by (induction n ts rule: find_inactive_from.induct) auto

text \<open>
  The messages in flight are given by their ids: \<open>msgs\<close> maps an id to its message, \<open>cnt\<close> to its number of
  fragments. \<open>A\<close> maps the id of a message under reassembly to the fragments received.
\<close>

definition msgs_ok :: "nat \<Rightarrow> nat \<Rightarrow> (u16 \<Rightarrow> byte list) \<Rightarrow> (u16 \<Rightarrow> nat) \<Rightarrow> bool" where
  "msgs_ok cap P msgs cnt \<longleftrightarrow>
     (\<forall>mid. calc_fragment_count (length (msgs mid)) P = Some (cnt mid) \<and> length (msgs mid) \<le> cap)"

definition active_slots :: "FragmentReassembler \<Rightarrow> nat set" where
  "active_slots r = {i. i < length r \<and> ft_active (r ! i)}"

definition frag_rel ::
    "nat \<Rightarrow> nat \<Rightarrow> (u16 \<Rightarrow> byte list) \<Rightarrow> (u16 \<Rightarrow> nat) \<Rightarrow> FragmentReassembler \<Rightarrow> (u16 \<rightharpoonup> nat set) \<Rightarrow> bool" where
  "frag_rel cap P msgs cnt r A \<longleftrightarrow> length r = 16 \<and> (\<forall>t\<in>set r. length (ft_buffer t) = cap) \<and>
     bij_betw (\<lambda>i. ft_message_id (r ! i)) (active_slots r) (dom A) \<and>
     (\<forall>i\<in>active_slots r. holds P (msgs (ft_message_id (r ! i))) (cnt (ft_message_id (r ! i)))
        (the (A (ft_message_id (r ! i)))) (r ! i))"

lemma frag_relD:
  assumes "frag_rel cap P msgs cnt r A"
  shows "length r = 16" "i < 16 \<Longrightarrow> length (ft_buffer (r ! i)) = cap"
    "inj_on (\<lambda>i. ft_message_id (r ! i)) (active_slots r)"
    "(\<lambda>i. ft_message_id (r ! i)) ` active_slots r = dom A"
    "i \<in> active_slots r \<Longrightarrow> holds P (msgs (ft_message_id (r ! i))) (cnt (ft_message_id (r ! i)))
        (the (A (ft_message_id (r ! i)))) (r ! i)"
  using assms by (auto simp: frag_rel_def bij_betw_def)

lemma frag_rel_find:
  assumes R: "frag_rel cap P msgs cnt r A"
  shows "find_tracker mid r = None \<Longrightarrow> A mid = None"
    and "find_tracker mid r = Some i \<Longrightarrow> i \<in> active_slots r \<and> ft_message_id (r ! i) = mid \<and> mid \<in> dom A"
proof -
  note f = frag_relD [OF R]
  assume "find_tracker mid r = None"
  then have "mid \<notin> (\<lambda>i. ft_message_id (r ! i)) ` active_slots r"
    by (auto simp: find_tracker_def find_tracker_from_None active_slots_def)
  then show "A mid = None" using f(4) by auto
next
  assume "find_tracker mid r = Some i"
  then have "i \<in> active_slots r" "ft_message_id (r ! i) = mid"
    using find_tracker_from_Some [of mid 0 r i] by (auto simp: find_tracker_def active_slots_def)
  then show "i \<in> active_slots r \<and> ft_message_id (r ! i) = mid \<and> mid \<in> dom A"
    using frag_relD(4) [OF R] by blast
qed

lemma frag_rel_full:
  assumes R: "frag_rel cap P msgs cnt r A"
  shows "find_inactive_from 0 r = None \<longleftrightarrow> 16 \<le> card (dom A)"
proof -
  have len: "length r = 16" using frag_relD(1) [OF R] .
  have card: "card (dom A) = card (active_slots r)"
    using R bij_betw_same_card [of "\<lambda>i. ft_message_id (r ! i)" "active_slots r" "dom A"]
    by (simp add: frag_rel_def)
  have sub: "active_slots r \<subseteq> {..<16}" using len by (auto simp: active_slots_def)
  have "find_inactive_from 0 r = None \<longleftrightarrow> active_slots r = {..<16}"
    using len by (auto simp: find_inactive_from_None active_slots_def all_set_conv_all_nth)
  also have "\<dots> \<longleftrightarrow> 16 \<le> card (active_slots r)"
    using sub card_subset_eq [of "{..<16}" "active_slots r"] card_mono [of "{..<16}" "active_slots r"] by force
  finally show ?thesis using card by simp
qed

text \<open>Updating one slot: the slot's new tracker holds the fragments \<open>S\<close> of message \<open>mid\<close>, or is released.\<close>

lemma frag_rel_set:
  assumes R: "frag_rel cap P msgs cnt r A" and i: "i < 16"
    and owner: "i \<in> active_slots r \<Longrightarrow> ft_message_id (r ! i) = mid"
    and free: "i \<notin> active_slots r \<Longrightarrow> mid \<notin> dom A"
    and t: "ft_active t" "ft_message_id t = mid" "length (ft_buffer t) = cap" "holds P (msgs mid) (cnt mid) S t"
  shows "frag_rel cap P msgs cnt (r[i := t]) (A(mid \<mapsto> S))"
    and "frag_rel cap P msgs cnt (r[i := t\<lparr>ft_active := False\<rparr>]) (A(mid := None))"
proof -
  note f = frag_relD [OF R]
  let ?id = "\<lambda>i. ft_message_id (r ! i)"
  have other: "?id j \<noteq> mid" if "j \<in> active_slots r" "j \<noteq> i" for j
    using that owner free f(3,4) by (metis domIff imageI inj_onD)
  have act: "active_slots (r[i := t]) = insert i (active_slots r)"
    "active_slots (r[i := t\<lparr>ft_active := False\<rparr>]) = active_slots r - {i}"
    using i f(1) t(1) by (auto simp: active_slots_def nth_list_update)
  have dom: "?id ` (active_slots r - {i}) = dom A - {mid}"
  proof
    show "?id ` (active_slots r - {i}) \<subseteq> dom A - {mid}" using f(4) other by blast
    show "dom A - {mid} \<subseteq> ?id ` (active_slots r - {i})"
    proof
      fix x
      assume x: "x \<in> dom A - {mid}"
      then obtain j where "j \<in> active_slots r" "x = ?id j" using f(4) by blast
      moreover have "j \<noteq> i" using x owner calculation by auto
      ultimately show "x \<in> ?id ` (active_slots r - {i})" by blast
    qed
  qed
  have rest: "inj_on ?id (active_slots r - {i})" using f(3) by (rule inj_on_subset) auto
  have buf: "\<forall>u\<in>set (r[i := t]). length (ft_buffer u) = cap"
    "\<forall>u\<in>set (r[i := t\<lparr>ft_active := False\<rparr>]). length (ft_buffer u) = cap"
    using R t(3) set_update_subset_insert by (fastforce simp: frag_rel_def)+
  have "bij_betw ?id (active_slots r - {i}) (dom A - {mid})"
    using dom rest by (simp add: bij_betw_def)
  then have bij0: "bij_betw (\<lambda>j. ft_message_id (r[i := u] ! j)) (active_slots r - {i}) (dom A - {mid})" for u
    by (rule bij_betw_cong [THEN iffD1, rotated]) simp
  have "bij_betw (\<lambda>j. ft_message_id (r[i := t] ! j)) (active_slots r - {i} \<union> {i}) (dom A - {mid} \<union> {ft_message_id (r[i := t] ! i)})"
    using i f(1) t(2) by (intro notIn_Un_bij_betw bij0) simp_all
  then have "bij_betw (\<lambda>j. ft_message_id (r[i := t] ! j)) (insert i (active_slots r)) (insert mid (dom A))"
    using i f(1) t(2) by simp
  then have bij1: "bij_betw (\<lambda>j. ft_message_id (r[i := t] ! j)) (active_slots (r[i := t])) (dom (A(mid \<mapsto> S)))"
    using act(1) by simp
  have keep: "holds P (msgs (?id j)) (cnt (?id j)) (the (A (?id j))) (r ! j)" if "j \<in> active_slots r" for j
    using f(5) [OF that] .
  show "frag_rel cap P msgs cnt (r[i := t]) (A(mid \<mapsto> S))"
    using f(1) buf(1) bij1 keep other t i act(1) by (auto simp: frag_rel_def nth_list_update)
  show "frag_rel cap P msgs cnt (r[i := t\<lparr>ft_active := False\<rparr>]) (A(mid := None))"
    using f(1) buf(2) bij0 keep other act(2) by (auto simp: frag_rel_def nth_list_update)
qed

text \<open>The specification: a fragment joins its message's set; a full set is the message.\<close>

definition spec_fragment ::
    "(u16 \<Rightarrow> byte list) \<Rightarrow> (u16 \<Rightarrow> nat) \<Rightarrow> u16 \<Rightarrow> nat \<Rightarrow> (u16 \<rightharpoonup> nat set) \<Rightarrow> byte list option \<times> (u16 \<rightharpoonup> nat set)" where
  "spec_fragment msgs cnt mid i A =
     (let add = \<lambda>S. if insert i S = {..<cnt mid} then (Some (msgs mid), A(mid := None))
                   else (None, A(mid \<mapsto> insert i S))
      in case A mid of
           None \<Rightarrow> if 16 \<le> card (dom A) then (None, A) else add {}
         | Some S \<Rightarrow> if i \<in> S then (None, A) else add S)"

lemma msgs_okD:
  assumes "msgs_ok cap P msgs cnt"
  shows "calc_fragment_count (length (msgs mid)) P = Some (cnt mid)" "length (msgs mid) \<le> cap" "cnt mid \<le> 255"
  using assms calc_fragment_countD(3) by (auto simp: msgs_ok_def)

lemma frag_rel_init: "frag_rel cap P msgs cnt (reassembler_init cap fill) Map.empty"
proof -
  have "active_slots (reassembler_init cap fill) = {}"
    by (auto simp: active_slots_def reassembler_init_def tracker_clear_def)
  then show ?thesis
    by (simp add: frag_rel_def bij_betw_def) (simp add: reassembler_init_def MAX_CONCURRENT_REASSEMBLIES_def)
qed

lemma holds_allocated:
  assumes "msgs_ok cap P msgs cnt" and "length (ft_buffer t) = cap"
  shows "holds P (msgs mid) (cnt mid) {} ((tracker_clear t)\<lparr>ft_message_id := mid,
    ft_total_fragments := of_nat (cnt mid), ft_first_recv_time := time, ft_active := True\<rparr>)"
  using msgs_okD(2) [OF assms(1)] assms(2)
  by (auto simp: holds_def tracker_clear_def has_fragment_def MAX_FRAGMENT_COUNT_def)

text \<open>Storing a new fragment in the tracker of slot \<open>j\<close>.\<close>

lemma frag_rel_store:
  assumes M: "msgs_ok cap P msgs cnt" and R: "frag_rel cap P msgs cnt r A" and j: "j < 16"
    and owner: "j \<in> active_slots r \<Longrightarrow> ft_message_id (r ! j) = mid"
    and free: "j \<notin> active_slots r \<Longrightarrow> mid \<notin> dom A"
    and t: "ft_active t" "ft_message_id t = mid" "length (ft_buffer t) = cap" "holds P (msgs mid) (cnt mid) S t"
    and i: "i < cnt mid" "i \<notin> S"
    and t1: "t1 = store_fragment i (i * P) (fragment_of P (msgs mid) i) time t"
  shows "is_complete t1 \<longleftrightarrow> insert i S = {..<cnt mid}"
    and "insert i S = {..<cnt mid} \<Longrightarrow> take (total_message_size t1) (ft_buffer t1) = msgs mid"
    and "frag_rel cap P msgs cnt (r[j := t1]) (A(mid \<mapsto> insert i S))"
    and "frag_rel cap P msgs cnt (r[j := t1\<lparr>ft_active := False\<rparr>]) (A(mid := None))"
proof -
  note k = msgs_okD [OF M, of mid]
  have h1: "holds P (msgs mid) (cnt mid) (insert i S) t1"
    unfolding t1 by (rule holds_store [OF k(1) t(4) i])
  show "is_complete t1 \<longleftrightarrow> insert i S = {..<cnt mid}"
    and "insert i S = {..<cnt mid} \<Longrightarrow> take (total_message_size t1) (ft_buffer t1) = msgs mid"
    using holds_complete [OF k(1) h1] by auto
  have "i * P + length (fragment_of P (msgs mid) i) \<le> cap"
    using fragment_in_buffer [OF fragment_start [OF k(1) i(1)] k(2)] .
  then have "ft_active t1" "ft_message_id t1 = mid" "length (ft_buffer t1) = cap"
    using t(1-3) by (simp_all add: t1 store_fragment_def mark_fragment_def)
  from frag_rel_set [OF R j owner free this h1]
  show "frag_rel cap P msgs cnt (r[j := t1]) (A(mid \<mapsto> insert i S))"
    and "frag_rel cap P msgs cnt (r[j := t1\<lparr>ft_active := False\<rparr>]) (A(mid := None))" by blast+
qed

lemma on_fragment_spec:
  assumes M: "msgs_ok cap P msgs cnt" and R: "frag_rel cap P msgs cnt r A" and i: "i < cnt mid"
    and step: "on_fragment_received mid (of_nat i) (of_nat (cnt mid)) (fragment_of P (msgs mid) i) P time r = (out, r')"
  shows "out = fst (spec_fragment msgs cnt mid i A) \<and> frag_rel cap P msgs cnt r' (snd (spec_fragment msgs cnt mid i A))"
proof -
  note k = msgs_okD [OF M, of mid] and f = frag_relD [OF R]
  let ?frag = "fragment_of P (msgs mid) i" and ?n = "of_nat (cnt mid) :: byte" and ?ix = "of_nat i :: byte"
  have u: "unat ?ix = i" "unat ?n = cnt mid" using i k(3) by (simp_all add: unat_of_nat)
  have guard: "\<not> (?n = 0 \<or> ?ix \<ge> ?n)"
    using u i by (auto simp: word_le_nat_alt)
  have fits: "\<not> i * P + length ?frag > cap"
    using fragment_in_buffer [OF fragment_start [OF k(1) i] k(2)] by simp
  show ?thesis
  proof (cases "find_tracker mid r")
    case (Some j)
    from frag_rel_find(2) [OF R Some] obtain S where j: "j \<in> active_slots r" "ft_message_id (r ! j) = mid" "A mid = Some S"
      by auto
    then have j16: "j < 16" "ft_active (r ! j)" using f(1) by (auto simp: active_slots_def)
    have h: "holds P (msgs mid) (cnt mid) S (r ! j)" using f(5) [OF j(1)] j by simp
    have has: "has_fragment (r ! j) i \<longleftrightarrow> i \<in> S" "ft_total_fragments (r ! j) = ?n"
      using holdsD(7) [OF h, of i] holdsD(1) [OF h] i k(3) by simp_all
    let ?t1 = "store_fragment i (i * P) ?frag time (r ! j)"
    have code: "on_fragment_received mid ?ix ?n ?frag P time r =
        (if i \<in> S then (None, r)
         else if is_complete ?t1 then (Some (take (total_message_size ?t1) (ft_buffer ?t1)), r[j := ?t1\<lparr>ft_active := False\<rparr>])
         else (None, r[j := ?t1]))"
      using guard Some u(1) has fits f(2) [OF j16(1)]
      by (simp add: on_fragment_received_def Let_def)
    have spec: "spec_fragment msgs cnt mid i A =
        (if i \<in> S then (None, A)
         else if insert i S = {..<cnt mid} then (Some (msgs mid), A(mid := None)) else (None, A(mid \<mapsto> insert i S)))"
      using j(3) by (simp add: spec_fragment_def)
    show ?thesis
    proof (cases "i \<in> S")
      case True
      with step code spec R show ?thesis by simp
    next
      case False
      from frag_rel_store [OF M R j16(1) j(2) _ j16(2) j(2) f(2) [OF j16(1)] h i False refl, of time] j(1)
      show ?thesis using False step code spec by (cases "insert i S = {..<cnt mid}") auto
    qed
  next
    case None
    then have A: "A mid = None" by (rule frag_rel_find(1) [OF R])
    show ?thesis
    proof (cases "find_inactive_from 0 r")
      case full: None
      then have "16 \<le> card (dom A)" using frag_rel_full [OF R] by simp
      with step guard None full A R show ?thesis
        by (simp add: on_fragment_received_def allocate_tracker_def spec_fragment_def)
    next
      case room: (Some j)
      have j: "j < 16" "j \<notin> active_slots r"
        using find_inactive_from_Some [OF room] f(1) by (auto simp: active_slots_def)
      define t where "t = (tracker_clear (r ! j))\<lparr>ft_message_id := mid, ft_total_fragments := ?n,
          ft_first_recv_time := time, ft_active := True\<rparr>"
      have h: "holds P (msgs mid) (cnt mid) {} t"
        unfolding t_def by (rule holds_allocated [OF M f(2) [OF j(1)]])
      have t: "ft_active t" "ft_message_id t = mid" "length (ft_buffer t) = cap" "ft_total_fragments t = ?n"
        using f(2) [OF j(1)] by (simp_all add: t_def tracker_clear_def)
      have has: "\<not> has_fragment t i" using holdsD(7) [OF h, of i] i k(3) by simp
      have alloc: "allocate_tracker mid ?n time r = Some (j, r[j := t])"
        using room by (simp add: allocate_tracker_def t_def)
      have small: "\<not> 16 \<le> card (dom A)" using frag_rel_full [OF R] room by simp
      let ?t1 = "store_fragment i (i * P) ?frag time t"
      have j': "j \<in> active_slots r \<Longrightarrow> ft_message_id (r ! j) = mid" "mid \<notin> dom A" using j(2) A by auto
      note st = frag_rel_store [OF M R j(1) j' t(1-3) h i _ refl, of time, simplified]
      have "on_fragment_received mid ?ix ?n ?frag P time r =
          (if is_complete ?t1 then (Some (take (total_message_size ?t1) (ft_buffer ?t1)), r[j := ?t1\<lparr>ft_active := False\<rparr>])
           else (None, r[j := ?t1]))"
        using guard None alloc u(1) has fits t(3,4) f(1) j(1)
        by (simp add: on_fragment_received_def Let_def)
      moreover have "spec_fragment msgs cnt mid i A =
          (if {i} = {..<cnt mid} then (Some (msgs mid), A(mid := None)) else (None, A(mid \<mapsto> {i})))"
        using A small by (simp add: spec_fragment_def)
      ultimately show ?thesis
        using step st by (cases "{i} = {..<cnt mid}") auto
    qed
  qed
qed

fun reassembly_run ::
    "(u16 \<Rightarrow> byte list) \<Rightarrow> (u16 \<Rightarrow> nat) \<Rightarrow> nat \<Rightarrow> (u16 \<times> nat \<times> real) list \<Rightarrow> FragmentReassembler \<Rightarrow> byte list option list" where
  "reassembly_run msgs cnt P [] r = []"
| "reassembly_run msgs cnt P ((mid, i, time) # evs) r =
     (let (out, r1) = on_fragment_received mid (of_nat i) (of_nat (cnt mid)) (fragment_of P (msgs mid) i) P time r
      in out # reassembly_run msgs cnt P evs r1)"

fun spec_run ::
    "(u16 \<Rightarrow> byte list) \<Rightarrow> (u16 \<Rightarrow> nat) \<Rightarrow> (u16 \<times> nat \<times> real) list \<Rightarrow> (u16 \<rightharpoonup> nat set) \<Rightarrow> byte list option list" where
  "spec_run msgs cnt [] A = []"
| "spec_run msgs cnt ((mid, i, time) # evs) A =
     (let (out, A1) = spec_fragment msgs cnt mid i A in out # spec_run msgs cnt evs A1)"

lemma reassembly_run_spec:
  assumes "msgs_ok cap P msgs cnt" and "frag_rel cap P msgs cnt r A" and "\<forall>(mid, i, time)\<in>set evs. i < cnt mid"
  shows "reassembly_run msgs cnt P evs r = spec_run msgs cnt evs A"
  using assms(2,3)
proof (induction evs arbitrary: r A)
  case (Cons ev evs)
  obtain mid i time where ev: "ev = (mid, i, time)" by (cases ev)
  obtain out r1 where s: "on_fragment_received mid (of_nat i) (of_nat (cnt mid)) (fragment_of P (msgs mid) i) P time r = (out, r1)"
    by fastforce
  have "i < cnt mid" using Cons.prems(2) ev by simp
  from on_fragment_spec [OF assms(1) Cons.prems(1) this s] Cons.IH [of r1] Cons.prems(2) show ?case
    by (simp add: ev s split_beta)
qed simp

lemma spec_run_one_message:
  assumes "A mid = Some S \<or> A mid = None \<and> S = {} \<and> card (dom A) < 16"
    and "distinct js" and "set js \<inter> S = {}" and "S \<union> set js = {..<cnt mid}" and "js \<noteq> []"
  shows "spec_run msgs cnt (map (\<lambda>j. (mid, j, time)) js) A = replicate (length js - 1) None @ [Some (msgs mid)]"
  using assms
proof (induction js arbitrary: A S)
  case (Cons j js)
  have j: "j \<notin> S" using Cons.prems(3) by auto
  show ?case
  proof (cases "js = []")
    case True
    then have full: "insert j S = {..<cnt mid}" using Cons.prems(4) by auto
    have "spec_fragment msgs cnt mid j A = (Some (msgs mid), A(mid := None))"
      using Cons.prems(1) j full by (cases "A mid") (simp_all add: spec_fragment_def)
    then show ?thesis using True by simp
  next
    case False
    then obtain x where "x \<in> set js" by (cases js) auto
    then have "x \<in> {..<cnt mid}" "x \<notin> insert j S"
      using Cons.prems(2-4) by auto
    then have ne: "insert j S \<noteq> {..<cnt mid}" by blast
    have "spec_fragment msgs cnt mid j A = (None, A(mid \<mapsto> insert j S))"
      using Cons.prems(1) j ne by (cases "A mid") (simp_all add: spec_fragment_def)
    moreover have "spec_run msgs cnt (map (\<lambda>j. (mid, j, time)) js) (A(mid \<mapsto> insert j S)) =
        replicate (length js - 1) None @ [Some (msgs mid)]"
      by (rule Cons.IH [where S = "insert j S"]) (use Cons.prems False in auto)
    ultimately show ?thesis using False by (cases js) simp_all
  qed
qed simp

section \<open>Properties\<close>

text \<open>
  C6. Reassembly refines its specification: for up to sixteen messages at a time, whatever the order in
  which fragments of different messages interleave and repeat, the messages the code hands out are those
  of the map from message ids to the sets of the fragments received.
\<close>

theorem reassembly_refines:
  assumes "msgs_ok cap P msgs cnt" and "\<forall>(mid, i, time)\<in>set evs. i < cnt mid"
  shows "reassembly_run msgs cnt P evs (reassembler_init cap fill) = spec_run msgs cnt evs Map.empty"
  using reassembly_run_spec [OF assms(1) frag_rel_init assms(2)] .

theorem reassembly_refines_witness:
  "reassembly_run (\<lambda>mid. [1, 2, 3]) (\<lambda>mid. 2) 2 [(7, 1, 0), (9, 0, 0), (7, 1, 0), (7, 0, 0)] (reassembler_init 8 0) =
    [None, None, None, Some [1, 2, 3]]"
proof -
  let ?evs = "[(7, 1, 0), (9, 0, 0), (7, 1, 0), (7, 0, 0)] :: (u16 \<times> nat \<times> real) list"
  have "msgs_ok 8 2 (\<lambda>mid. [1, 2, 3]) (\<lambda>mid. 2)"
    by (simp add: msgs_ok_def calc_fragment_count_def MAX_FRAGMENT_COUNT_def)
  moreover have "\<forall>(mid, i, time)\<in>set ?evs. i < (\<lambda>mid. 2) mid" by simp
  ultimately have "reassembly_run (\<lambda>mid. [1, 2, 3]) (\<lambda>mid. 2) 2 ?evs (reassembler_init 8 0) =
      spec_run (\<lambda>mid. [1, 2, 3]) (\<lambda>mid. 2) ?evs Map.empty"
    by (rule reassembly_refines)
  also have "\<dots> = [None, None, None, Some [1, 2, 3]]"
    by (simp add: spec_fragment_def Let_def lessThan_nat_numeral insert_commute doubleton_eq_iff) auto
  finally show ?thesis .
qed

text \<open>
  C14. Any order reassembles. The \<open>k\<close> fragments of a message, delivered once each in any order, yield
  nothing until the last one arrives, and then the message itself, byte for byte.
\<close>

theorem reassembly_any_order:
  assumes "calc_fragment_count (length msg) P = Some k" and "length msg \<le> cap"
    and "distinct js" and "set js = {..<k}"
  shows "reassembly_run (\<lambda>_. msg) (\<lambda>_. k) P (map (\<lambda>j. (mid, j, time)) js) (reassembler_init cap fill) =
    replicate (k - 1) None @ [Some msg]"
proof -
  have "length js = k" using assms(3,4) distinct_card by fastforce
  moreover have "0 < k" using calc_fragment_countD(6) [OF assms(1)] .
  ultimately have "js \<noteq> []" by auto
  have "reassembly_run (\<lambda>_. msg) (\<lambda>_. k) P (map (\<lambda>j. (mid, j, time)) js) (reassembler_init cap fill) =
      spec_run (\<lambda>_. msg) (\<lambda>_. k) (map (\<lambda>j. (mid, j, time)) js) Map.empty"
    using assms by (intro reassembly_run_spec [OF _ frag_rel_init]) (auto simp: msgs_ok_def)
  also have "\<dots> = replicate (length js - 1) None @ [Some msg]"
    using assms(3,4) \<open>js \<noteq> []\<close> by (intro spec_run_one_message [where S = "{}"]) simp_all
  finally show ?thesis using \<open>length js = k\<close> by simp
qed

theorem reassembly_any_order_witness:
  "reassembly_run (\<lambda>_. [1, 2, 3, 4, 5]) (\<lambda>_. 3) 2 (map (\<lambda>j. (1, j, 0)) [2, 0, 1]) (reassembler_init 8 0) =
    [None, None, Some [1, 2, 3, 4, 5]]"
proof -
  have "calc_fragment_count (length [1 :: byte, 2, 3, 4, 5]) 2 = Some 3" by code_simp
  moreover have "set [2, 0, 1] = {..<3 :: nat}" by auto
  ultimately have "reassembly_run (\<lambda>_. [1, 2, 3, 4, 5]) (\<lambda>_. 3) 2 (map (\<lambda>j. (1, j, 0)) [2, 0, 1]) (reassembler_init 8 0) =
      replicate (3 - 1) None @ [Some [1, 2, 3, 4, 5]]"
    by (intro reassembly_any_order) simp_all
  also have "\<dots> = [None, None, Some [1, 2, 3, 4, 5]]" by (simp add: numeral_2_eq_2)
  finally show ?thesis .
qed

end
