(* ===== verification/Flow_Control.thy ===== *)
theory Flow_Control
  imports Netudp_Prelude "HOL-Library.Log_Nat"
begin

text \<open>
  The estimators and limiters of a connection: round-trip times (\<^verbatim>\<open>reliability/rtt.h\<close>), the token
  bucket, the bit budget and the congestion control of \<^verbatim>\<open>bandwidth/bandwidth.h\<close>, and the severity
  monitor of \<^verbatim>\<open>connection/ddos.h\<close>. A \<^verbatim>\<open>double\<close> is a real number; the \<^verbatim>\<open>float\<close> arithmetic of the
  congestion control, whose results are truncated to integers, is rounded to 24 bits exactly.
\<close>

section \<open>Round-trip time estimation\<close>

definition MIN_RTO :: real where
  "MIN_RTO = 1 / 10"

definition MAX_RTO :: real where
  "MAX_RTO = 2"

definition INITIAL_RTO :: real where
  "INITIAL_RTO = 1"

record RttEstimator =
  srtt :: real
  rttvar :: real
  rto :: real
  has_sample :: bool

definition rtt_reset :: RttEstimator where
  "rtt_reset = \<lparr>srtt = 0, rttvar = 0, rto = INITIAL_RTO, has_sample = False\<rparr>"

definition rtt_sample :: "real \<Rightarrow> real \<Rightarrow> u16 \<Rightarrow> real" where
  "rtt_sample send_time now ack_delay_us =
     (let sample = (now - send_time) - real (unat ack_delay_us) / 1000000
      in if sample < 0 then 1 / 1000 else sample)"

definition on_sample :: "real \<Rightarrow> real \<Rightarrow> u16 \<Rightarrow> RttEstimator \<Rightarrow> RttEstimator" where
  "on_sample send_time now ack_delay_us r =
     (let sample = rtt_sample send_time now ack_delay_us;
          r1 = (if \<not> has_sample r then r\<lparr>srtt := sample, rttvar := sample / 2, has_sample := True\<rparr>
                else let alpha = 125 / 1000; beta = 25 / 100
                  in r\<lparr>rttvar := (1 - beta) * rttvar r + beta * \<bar>srtt r - sample\<bar>,
                       srtt := (1 - alpha) * srtt r + alpha * sample\<rparr>)
      in r1\<lparr>rto := max MIN_RTO (min MAX_RTO (srtt r1 + 4 * rttvar r1))\<rparr>)"

definition ping_ms :: "RttEstimator \<Rightarrow> u32" where
  "ping_ms r = word_of_int \<lfloor>srtt r * 1000\<rfloor>"

type_synonym rtt_event = "real \<times> real \<times> u16"

fun rtt_run :: "rtt_event list \<Rightarrow> RttEstimator \<Rightarrow> RttEstimator" where
  "rtt_run [] r = r"
| "rtt_run ((send_time, now, delay) # es) r = rtt_run es (on_sample send_time now delay r)"

lemma rtt_sample_nonneg: "0 \<le> rtt_sample a b d"
  by (simp add: rtt_sample_def Let_def)

text \<open>The estimate is a weighted mean of the samples: it stays in any interval they stay in.\<close>

definition rtt_ok :: "real \<Rightarrow> real \<Rightarrow> RttEstimator \<Rightarrow> bool" where
  "rtt_ok lo hi r \<longleftrightarrow> MIN_RTO \<le> rto r \<and> rto r \<le> MAX_RTO \<and>
     (has_sample r \<longrightarrow> lo \<le> srtt r \<and> srtt r \<le> hi \<and> 0 \<le> rttvar r \<and> rttvar r \<le> hi)"

lemma rtt_ok_step:
  assumes "rtt_ok lo hi r" and "lo \<le> rtt_sample a b d" and "rtt_sample a b d \<le> hi" and "0 \<le> lo"
  shows "rtt_ok lo hi (on_sample a b d r)"
proof (cases "has_sample r")
  case False
  then show ?thesis
    using assms rtt_sample_nonneg [of a b d]
    by (auto simp: rtt_ok_def on_sample_def Let_def MIN_RTO_def MAX_RTO_def max_def min_def)
next
  case True
  let ?s = "rtt_sample a b d"
  have s: "lo \<le> srtt r" "srtt r \<le> hi" "0 \<le> rttvar r" "rttvar r \<le> hi"
    using assms(1) True by (simp_all add: rtt_ok_def)
  have dev: "\<bar>srtt r - ?s\<bar> \<le> hi" using s assms(2-4) by (simp add: abs_le_iff)
  have "lo \<le> 7 / 8 * srtt r + 1 / 8 * ?s" "7 / 8 * srtt r + 1 / 8 * ?s \<le> hi"
    "3 / 4 * rttvar r + 1 / 4 * \<bar>srtt r - ?s\<bar> \<le> hi"
    using s assms(2,3) dev by simp_all
  then show ?thesis
    using True s by (simp add: rtt_ok_def on_sample_def Let_def MIN_RTO_def MAX_RTO_def)
qed

lemma rtt_run_ok:
  assumes "rtt_ok lo hi r" and "\<forall>(a, b, d)\<in>set es. lo \<le> rtt_sample a b d \<and> rtt_sample a b d \<le> hi" and "0 \<le> lo"
  shows "rtt_ok lo hi (rtt_run es r)"
  using assms by (induction es r rule: rtt_run.induct) (auto simp: rtt_ok_step)

lemma rtt_ok_reset: "rtt_ok lo hi rtt_reset"
  by (simp add: rtt_ok_def rtt_reset_def MIN_RTO_def MAX_RTO_def INITIAL_RTO_def)

section \<open>The token bucket\<close>

record BandwidthBucket =
  rate_bytes_per_sec :: u32
  burst_bytes :: u32
  bw_tokens :: real
  last_refill_time :: real

definition bandwidth_new :: BandwidthBucket where
  "bandwidth_new = \<lparr>rate_bytes_per_sec = 256 * 1024, burst_bytes = 32 * 1024, bw_tokens = 0, last_refill_time = 0\<rparr>"

definition bandwidth_init :: "real \<Rightarrow> BandwidthBucket \<Rightarrow> BandwidthBucket" where
  "bandwidth_init time b = b\<lparr>bw_tokens := real (unat (burst_bytes b)), last_refill_time := time\<rparr>"

definition bandwidth_refill :: "real \<Rightarrow> BandwidthBucket \<Rightarrow> BandwidthBucket" where
  "bandwidth_refill now b =
     (let elapsed = now - last_refill_time b
      in if elapsed > 0 then
           b\<lparr>bw_tokens := min (bw_tokens b + real (unat (rate_bytes_per_sec b)) * elapsed) (real (unat (burst_bytes b))),
             last_refill_time := now\<rparr>
         else b)"

definition try_consume :: "nat \<Rightarrow> BandwidthBucket \<Rightarrow> bool \<times> BandwidthBucket" where
  "try_consume bytes b =
     (let needed = real bytes
      in if bw_tokens b \<ge> needed then (True, b\<lparr>bw_tokens := bw_tokens b - needed\<rparr>) else (False, b))"

datatype bucket_op = Refill real | Consume nat

fun bucket_run :: "bucket_op list \<Rightarrow> BandwidthBucket \<Rightarrow> nat \<times> BandwidthBucket" where
  "bucket_run [] b = (0, b)"
| "bucket_run (Refill now # ops) b = bucket_run ops (bandwidth_refill now b)"
| "bucket_run (Consume n # ops) b =
     (let (ok, b1) = try_consume n b; (used, b2) = bucket_run ops b1 in ((if ok then n else 0) + used, b2))"

lemma bandwidth_refill_frame [simp]:
  "rate_bytes_per_sec (bandwidth_refill now b) = rate_bytes_per_sec b"
  "last_refill_time b \<le> last_refill_time (bandwidth_refill now b)"
  by (simp_all add: bandwidth_refill_def Let_def)

lemma bandwidth_refill_tokens:
  "bw_tokens (bandwidth_refill now b) \<le>
     bw_tokens b + real (unat (rate_bytes_per_sec b)) * (last_refill_time (bandwidth_refill now b) - last_refill_time b)"
  by (simp add: bandwidth_refill_def Let_def)

lemma bandwidth_refill_nonneg: "0 \<le> bw_tokens b \<Longrightarrow> 0 \<le> bw_tokens (bandwidth_refill now b)"
  by (auto simp: bandwidth_refill_def Let_def simp del: of_nat_unat)

lemma bucket_run_bound:
  assumes "0 \<le> bw_tokens b" and "bucket_run ops b = (used, b')"
  shows "0 \<le> bw_tokens b' \<and> rate_bytes_per_sec b' = rate_bytes_per_sec b \<and> last_refill_time b \<le> last_refill_time b' \<and>
    real used + bw_tokens b' \<le>
      bw_tokens b + real (unat (rate_bytes_per_sec b)) * (last_refill_time b' - last_refill_time b)"
  using assms
proof (induction ops b arbitrary: used rule: bucket_run.induct)
  case (2 now ops b)
  let ?b = "bandwidth_refill now b"
  have ih: "0 \<le> bw_tokens b' \<and> rate_bytes_per_sec b' = rate_bytes_per_sec ?b \<and> last_refill_time ?b \<le> last_refill_time b' \<and>
    real used + bw_tokens b' \<le> bw_tokens ?b + real (unat (rate_bytes_per_sec ?b)) * (last_refill_time b' - last_refill_time ?b)"
    using 2 bandwidth_refill_nonneg by simp
  then show ?case
    using bandwidth_refill_tokens [of now b]
    by (auto simp: algebra_simps intro: order_trans [OF bandwidth_refill_frame(2)])
next
  case (3 n ops b)
  obtain ok b1 where c: "try_consume n b = (ok, b1)" by fastforce
  obtain t b2 where r: "bucket_run ops b1 = (t, b2)" by fastforce
  have e: "b2 = b'" "used = (if ok then n else 0) + t"
    using "3.prems"(2) c r by simp_all
  have b1: "bw_tokens b1 = bw_tokens b - (if ok then real n else 0)" "0 \<le> bw_tokens b1"
    "rate_bytes_per_sec b1 = rate_bytes_per_sec b" "last_refill_time b1 = last_refill_time b"
    using c "3.prems"(1) by (auto simp: try_consume_def Let_def split: if_splits)
  from "3.IH" [OF c [symmetric] refl b1(2) r [unfolded e(1)]] b1 e(2) show ?case by auto
qed simp

section \<open>The bit budget\<close>

record QueuedBitsBudget =
  queued_bits :: int
  burst_bits :: int

definition budget_new :: QueuedBitsBudget where
  "budget_new = \<lparr>queued_bits = 0, burst_bits = 32 * 1024 * 8\<rparr>"

text \<open>The conversion of the product to \<^verbatim>\<open>int32_t\<close> truncates towards zero.\<close>

definition truncate_real :: "real \<Rightarrow> int" where
  "truncate_real x = (if x < 0 then \<lceil>x\<rceil> else \<lfloor>x\<rfloor>)"

definition budget_refill :: "real \<Rightarrow> nat \<Rightarrow> QueuedBitsBudget \<Rightarrow> QueuedBitsBudget" where
  "budget_refill delta_time send_rate_bps b =
     (let b1 = b\<lparr>queued_bits := queued_bits b - truncate_real (real send_rate_bps * 8 * delta_time)\<rparr>
      in if queued_bits b1 < - burst_bits b1 then b1\<lparr>queued_bits := - burst_bits b1\<rparr> else b1)"

definition budget_consume :: "nat \<Rightarrow> QueuedBitsBudget \<Rightarrow> QueuedBitsBudget" where
  "budget_consume packet_bytes b = b\<lparr>queued_bits := queued_bits b + int packet_bytes * 8\<rparr>"

definition can_send :: "QueuedBitsBudget \<Rightarrow> bool" where
  "can_send b \<longleftrightarrow> queued_bits b \<le> 0"

section \<open>Congestion control\<close>

text \<open>
  Rounding of a positive rational to the nearest \<^verbatim>\<open>float\<close>, ties to even: 24 significant bits. The
  values that occur are far from the overflow and underflow thresholds of the format.
\<close>

definition rat_log2 :: "rat \<Rightarrow> int" where
  "rat_log2 x =
     (let (a, b) = quotient_of x; e = bitlen a - bitlen b
      in if x < 2 powi e then e - 1 else e)"

definition round_even :: "rat \<Rightarrow> int" where
  "round_even x =
     (let q = \<lfloor>x\<rfloor>; r = x - of_int q
      in if r < 1 / 2 \<or> r = 1 / 2 \<and> even q then q else q + 1)"

definition f32_round :: "rat \<Rightarrow> rat" where
  "f32_round x =
     (if x \<le> 0 then 0
      else let ulp = 2 powi (rat_log2 x - 23) in of_int (round_even (x / ulp)) * ulp)"

definition f32 :: "rat \<Rightarrow> rat" where
  "f32 x = (if x < 0 then - f32_round (- x) else f32_round x)"

definition MIN_SEND_RATE :: nat where
  "MIN_SEND_RATE = 32 * 1024"

definition DEFAULT_MAX_RATE :: nat where
  "DEFAULT_MAX_RATE = 256 * 1024"

definition CC_WINDOW_SIZE :: nat where
  "CC_WINDOW_SIZE = 64"

text \<open>The constants of type \<^verbatim>\<open>float\<close>: 0.75, 1.10, 0.05 and 0.01 rounded to 24 bits.\<close>

definition DECREASE_FACTOR :: rat where
  "DECREASE_FACTOR = 3 / 4"

definition INCREASE_FACTOR :: rat where
  "INCREASE_FACTOR = 9227469 / 8388608"

definition LOSS_THRESHOLD_HIGH :: rat where
  "LOSS_THRESHOLD_HIGH = 13421773 / 268435456"

definition LOSS_THRESHOLD_LOW :: rat where
  "LOSS_THRESHOLD_LOW = 5368709 / 536870912"

record CongestionControl =
  send_rate :: nat
  max_send_rate :: nat
  total_packets :: nat
  lost_packets :: nat
  rtt_samples :: nat

definition congestion_init :: "nat \<Rightarrow> CongestionControl" where
  "congestion_init max_rate =
     \<lparr>send_rate = max_rate, max_send_rate = max_rate, total_packets = 0, lost_packets = 0, rtt_samples = 0\<rparr>"

definition on_packet_acked :: "CongestionControl \<Rightarrow> CongestionControl" where
  "on_packet_acked c =
     (let c1 = c\<lparr>total_packets := total_packets c + 1\<rparr>
      in if total_packets c1 > CC_WINDOW_SIZE then
           let c2 = c1\<lparr>total_packets := CC_WINDOW_SIZE\<rparr>
           in if lost_packets c2 > 0 then c2\<lparr>lost_packets := lost_packets c2 - 1\<rparr> else c2
         else c1)"

definition on_packet_lost :: "CongestionControl \<Rightarrow> CongestionControl" where
  "on_packet_lost c =
     (let c1 = c\<lparr>total_packets := total_packets c + 1, lost_packets := lost_packets c + 1\<rparr>
      in if total_packets c1 > CC_WINDOW_SIZE then c1\<lparr>total_packets := CC_WINDOW_SIZE\<rparr> else c1)"

definition on_rtt_sample :: "CongestionControl \<Rightarrow> CongestionControl" where
  "on_rtt_sample c = c\<lparr>rtt_samples := rtt_samples c + 1\<rparr>"

definition loss_rate :: "CongestionControl \<Rightarrow> rat" where
  "loss_rate c =
     (if total_packets c = 0 then 0
      else f32_round (f32_round (of_nat (lost_packets c)) / f32_round (of_nat (total_packets c))))"

text \<open>\<^verbatim>\<open>static_cast<uint32_t>(static_cast<float>(rate) * factor)\<close>\<close>

definition scale_rate :: "nat \<Rightarrow> rat \<Rightarrow> nat" where
  "scale_rate rate factor = nat \<lfloor>f32_round (f32_round (of_nat rate) * factor)\<rfloor> mod 2 ^ 32"

definition cc_evaluate :: "CongestionControl \<Rightarrow> CongestionControl" where
  "cc_evaluate c =
     (if total_packets c < 10 then c
      else let rate = loss_rate c
        in if rate > LOSS_THRESHOLD_HIGH then
             let c1 = c\<lparr>send_rate := scale_rate (send_rate c) DECREASE_FACTOR\<rparr>
             in if send_rate c1 < MIN_SEND_RATE then c1\<lparr>send_rate := MIN_SEND_RATE\<rparr> else c1
           else if rate < LOSS_THRESHOLD_LOW \<and> rtt_samples c \<ge> 10 then
             let c1 = c\<lparr>send_rate := scale_rate (send_rate c) INCREASE_FACTOR\<rparr>
             in if send_rate c1 > max_send_rate c1 then c1\<lparr>send_rate := max_send_rate c1\<rparr> else c1
           else c)"

definition congestion_reset :: "CongestionControl \<Rightarrow> CongestionControl" where
  "congestion_reset c =
     c\<lparr>send_rate := max_send_rate c, total_packets := 0, lost_packets := 0, rtt_samples := 0\<rparr>"

section \<open>The attack monitor\<close>

datatype DDoSSeverity = Sev_None | Sev_Low | Sev_Medium | Sev_High | Sev_Critical

fun severity_level :: "DDoSSeverity \<Rightarrow> nat" where
  "severity_level Sev_None = 0"
| "severity_level Sev_Low = 1"
| "severity_level Sev_Medium = 2"
| "severity_level Sev_High = 3"
| "severity_level Sev_Critical = 4"

fun severity_pred :: "DDoSSeverity \<Rightarrow> DDoSSeverity" where
  "severity_pred Sev_Critical = Sev_High"
| "severity_pred Sev_High = Sev_Medium"
| "severity_pred Sev_Medium = Sev_Low"
| "severity_pred Sev_Low = Sev_None"
| "severity_pred Sev_None = Sev_None"

record DDoSMonitor =
  severity :: DDoSSeverity
  bad_packets_this_window :: nat
  bad_packets_per_sec :: nat
  cooloff_timer :: real
  time_since_last_eval :: real

definition ddos_reset :: DDoSMonitor where
  "ddos_reset = \<lparr>severity = Sev_None, bad_packets_this_window = 0, bad_packets_per_sec = 0,
     cooloff_timer = 0, time_since_last_eval = 0\<rparr>"

definition on_bad_packet :: "DDoSMonitor \<Rightarrow> DDoSMonitor" where
  "on_bad_packet m = m\<lparr>bad_packets_this_window := bad_packets_this_window m + 1\<rparr>"

definition ddos_evaluate :: "nat \<Rightarrow> DDoSMonitor \<Rightarrow> DDoSMonitor" where
  "ddos_evaluate bps m =
     (let new_severity =
        (if bps > 10000 then Sev_Critical
         else if bps > 2000 then Sev_High
         else if bps > 500 then Sev_Medium
         else if bps > 100 then Sev_Low
         else severity m)
      in if severity_level new_severity > severity_level (severity m)
         then m\<lparr>severity := new_severity, cooloff_timer := 0\<rparr>
         else if bps \<le> 100 then
           let cooloff_threshold = (if severity m = Sev_Critical then 60 else 30);
               m1 = m\<lparr>cooloff_timer := cooloff_timer m + 1\<rparr>
           in if cooloff_timer m1 \<ge> cooloff_threshold \<and> severity m1 \<noteq> Sev_None
              then m1\<lparr>severity := severity_pred (severity m1), cooloff_timer := 0\<rparr> else m1
         else m\<lparr>cooloff_timer := 0\<rparr>)"

definition ddos_update :: "real \<Rightarrow> DDoSMonitor \<Rightarrow> DDoSMonitor" where
  "ddos_update dt m =
     (let m1 = m\<lparr>time_since_last_eval := time_since_last_eval m + dt\<rparr>
      in if time_since_last_eval m1 \<ge> 1 then
           let bps = bad_packets_this_window m1
           in ddos_evaluate bps
                (m1\<lparr>bad_packets_per_sec := bps, bad_packets_this_window := 0, time_since_last_eval := 0\<rparr>)
         else m1)"

definition should_process_new_connection :: "DDoSMonitor \<Rightarrow> bool" where
  "should_process_new_connection m \<longleftrightarrow> severity_level (severity m) < severity_level Sev_Critical"

definition should_process_packet :: "DDoSMonitor \<Rightarrow> bool \<Rightarrow> bool" where
  "should_process_packet m is_established \<longleftrightarrow>
     (if severity_level (severity m) \<ge> severity_level Sev_High \<and> \<not> is_established then False else True)"

section \<open>Rounding errors of the congestion control\<close>

lemma bitlen_bounds_rat:
  assumes "0 < (a :: int)"
  shows "2 powi (bitlen a - 1) \<le> (of_int a :: rat)" "(of_int a :: rat) < 2 powi bitlen a"
proof -
  have n: "0 < bitlen a"
    using assms bitlen_eq_zero_iff [of a] bitlen_nonneg [of a] by linarith
  define k where "k = nat (bitlen a) - 1"
  have k: "bitlen a = int (Suc k)" using n by (simp add: k_def)
  have "2 ^ k \<le> a" "a < 2 ^ Suc k"
    using bitlen_bounds [OF assms] k by (simp_all add: nat_add_distrib)
  then have "(of_int (2 ^ k) :: rat) \<le> of_int a" "(of_int a :: rat) < of_int (2 ^ Suc k)"
    by (simp_all only: of_int_le_iff of_int_less_iff)
  then show "2 powi (bitlen a - 1) \<le> (of_int a :: rat)" "(of_int a :: rat) < 2 powi bitlen a"
    using k by (simp_all add: power_int_def nat_add_distrib)
qed

lemma rat_log2_le:
  assumes "0 < x"
  shows "2 powi (rat_log2 x) \<le> x"
proof -
  obtain a b where ab: "quotient_of x = (a, b)" by fastforce
  then have b: "0 < b" using quotient_of_denom_pos by blast
  have x: "x = of_int a / of_int b" using quotient_of_div [OF ab] .
  with assms b have a: "0 < a" by (simp add: zero_less_divide_iff)
  let ?e = "bitlen a - bitlen b"
  have "(2 :: rat) powi (?e - 1) = 2 powi (bitlen a - 1) / 2 powi bitlen b"
    by (simp add: power_int_diff)
  also have "\<dots> \<le> of_int a / of_int b"
    using bitlen_bounds_rat [OF a] bitlen_bounds_rat [OF b] a b by (intro frac_le) auto
  finally have "2 powi (?e - 1) \<le> x" by (simp add: x)
  then show ?thesis
    by (cases "x < 2 powi ?e") (simp_all add: rat_log2_def ab)
qed

lemma round_even_error: "\<bar>of_int (round_even y) - y\<bar> \<le> 1 / 2" for y :: rat
proof -
  have "of_int \<lfloor>y\<rfloor> \<le> y" "y < of_int \<lfloor>y\<rfloor> + 1" by linarith+
  then show ?thesis by (auto simp: round_even_def Let_def abs_le_iff)
qed

lemma f32_round_error:
  assumes "0 < x"
  shows "\<bar>f32_round x - x\<bar> \<le> x / 2 ^ 24"
proof -
  let ?u = "2 powi (rat_log2 x - 23) :: rat"
  have u: "0 < ?u" by simp
  have "f32_round x - x = (of_int (round_even (x / ?u)) - x / ?u) * ?u"
    using assms u by (simp add: f32_round_def Let_def left_diff_distrib)
  then have "\<bar>f32_round x - x\<bar> = \<bar>of_int (round_even (x / ?u)) - x / ?u\<bar> * ?u"
    using u by (simp add: abs_mult)
  also have "\<dots> \<le> 1 / 2 * ?u"
    using round_even_error u by (intro mult_right_mono) auto
  also have "?u = 2 powi rat_log2 x / 2 ^ 23" by (simp add: power_int_diff power_int_numeral)
  also have "1 / 2 * (2 powi rat_log2 x / 2 ^ 23) \<le> x / 2 ^ 24"
    using rat_log2_le [OF assms] by simp
  finally show ?thesis .
qed

lemma f32_round_bounds:
  assumes "0 < x"
  shows "x * (1 - 1 / 2 ^ 24) \<le> f32_round x" "f32_round x \<le> x * (1 + 1 / 2 ^ 24)"
proof -
  have "- (x / 2 ^ 24) \<le> f32_round x - x" "f32_round x - x \<le> x / 2 ^ 24"
    using f32_round_error [OF assms] by linarith+
  then show "x * (1 - 1 / 2 ^ 24) \<le> f32_round x" "f32_round x \<le> x * (1 + 1 / 2 ^ 24)"
    by (simp_all add: right_diff_distrib distrib_left)
qed

lemma f32_product_bounds:
  assumes "0 < n" and "0 < f"
  shows "of_nat n * f * (1 - 1 / 2 ^ 24)\<^sup>2 \<le> f32_round (f32_round (of_nat n) * f)"
    and "f32_round (f32_round (of_nat n) * f) \<le> of_nat n * f * (1 + 1 / 2 ^ 24)\<^sup>2"
proof -
  let ?x = "f32_round (of_nat n)"
  have n: "0 < (of_nat n :: rat)" using assms(1) by simp
  note b = f32_round_bounds [OF n]
  have "0 < ?x" using b(1) n by (auto intro: less_le_trans [rotated])
  then have pos: "0 < ?x * f" using assms(2) by simp
  note c = f32_round_bounds [OF pos]
  have "of_nat n * (1 - 1 / 2 ^ 24) * f * (1 - 1 / 2 ^ 24) \<le> ?x * f * (1 - 1 / 2 ^ 24)"
    using b(1) assms(2) by (intro mult_right_mono) auto
  then show "of_nat n * f * (1 - 1 / 2 ^ 24)\<^sup>2 \<le> f32_round (?x * f)"
    using c(1) by (simp add: power2_eq_square mult.commute mult.left_commute)
  have "?x * f * (1 + 1 / 2 ^ 24) \<le> of_nat n * (1 + 1 / 2 ^ 24) * f * (1 + 1 / 2 ^ 24)"
    using b(2) assms(2) by (intro mult_right_mono) auto
  then show "f32_round (?x * f) \<le> of_nat n * f * (1 + 1 / 2 ^ 24)\<^sup>2"
    using c(2) by (simp add: power2_eq_square mult.commute mult.left_commute)
qed

section \<open>Invariants\<close>

datatype cc_event = Acked | Lost | Rtt_sample | Evaluate | Reset

fun cc_step :: "cc_event \<Rightarrow> CongestionControl \<Rightarrow> CongestionControl" where
  "cc_step Acked = on_packet_acked"
| "cc_step Lost = on_packet_lost"
| "cc_step Rtt_sample = on_rtt_sample"
| "cc_step Evaluate = cc_evaluate"
| "cc_step Reset = congestion_reset"

definition cc_ok :: "CongestionControl \<Rightarrow> bool" where
  "cc_ok c \<longleftrightarrow> MIN_SEND_RATE \<le> send_rate c \<and> send_rate c \<le> max_send_rate c \<and> max_send_rate c < 2 ^ 31 \<and>
     total_packets c \<le> CC_WINDOW_SIZE"

lemma scale_rate_floor:
  assumes "f32_round (f32_round (of_nat n) * f) < 2 ^ 32" and "0 \<le> f32_round (f32_round (of_nat n) * f)"
  shows "int (scale_rate n f) = \<lfloor>f32_round (f32_round (of_nat n) * f)\<rfloor>"
proof -
  have "\<lfloor>f32_round (f32_round (of_nat n) * f)\<rfloor> < 2 ^ 32"
    using assms(1) by (simp add: floor_less_iff)
  moreover have "0 \<le> \<lfloor>f32_round (f32_round (of_nat n) * f)\<rfloor>" using assms(2) by simp
  ultimately show ?thesis by (simp add: scale_rate_def nat_less_iff nat_mod_as_int)
qed

lemma decrease_rate_bounds:
  assumes "0 < n" and "n < 2 ^ 31"
  shows "scale_rate n DECREASE_FACTOR \<le> n"
proof -
  let ?r = "f32_round (f32_round (of_nat n) * DECREASE_FACTOR)"
  have f: "(0 :: rat) < DECREASE_FACTOR" by (simp add: DECREASE_FACTOR_def)
  have n: "(of_nat n :: rat) < 2 ^ 31" using assms(2) by (metis of_nat_less_iff of_nat_numeral of_nat_power)
  have lo: "0 \<le> ?r" and hi: "?r \<le> of_nat n"
    using f32_product_bounds [OF assms(1) f] by (simp_all add: DECREASE_FACTOR_def power2_eq_square)
  have "int (scale_rate n DECREASE_FACTOR) = \<lfloor>?r\<rfloor>"
    using scale_rate_floor lo hi n by auto
  also have "\<dots> \<le> int n" using hi by (simp add: floor_le_iff)
  finally show ?thesis by simp
qed

lemma increase_rate_bounds:
  assumes "0 < n" and "n < 2 ^ 31"
  shows "n \<le> scale_rate n INCREASE_FACTOR"
proof -
  let ?r = "f32_round (f32_round (of_nat n) * INCREASE_FACTOR)"
  have f: "(0 :: rat) < INCREASE_FACTOR" by (simp add: INCREASE_FACTOR_def)
  have n: "(of_nat n :: rat) < 2 ^ 31" using assms(2) by (metis of_nat_less_iff of_nat_numeral of_nat_power)
  have lo: "of_nat n \<le> ?r" and hi: "?r \<le> 2 * of_nat n"
    using f32_product_bounds [OF assms(1) f] by (simp_all add: INCREASE_FACTOR_def power2_eq_square)
  have "int (scale_rate n INCREASE_FACTOR) = \<lfloor>?r\<rfloor>"
    using scale_rate_floor lo hi n by auto
  moreover have "int n \<le> \<lfloor>?r\<rfloor>" using lo by (simp add: le_floor_iff)
  ultimately show ?thesis by simp
qed

lemma cc_ok_step: "cc_ok c \<Longrightarrow> cc_ok (cc_step e c) \<and> max_send_rate (cc_step e c) = max_send_rate c"
proof (cases e)
  case Evaluate
  assume ok: "cc_ok c"
  have "0 < send_rate c" "send_rate c < 2 ^ 31" using ok by (auto simp: cc_ok_def MIN_SEND_RATE_def)
  note r = decrease_rate_bounds [OF this] increase_rate_bounds [OF this]
  from ok r show ?thesis by (auto simp: Evaluate cc_ok_def cc_evaluate_def Let_def)
qed (auto simp: cc_ok_def on_packet_acked_def on_packet_lost_def on_rtt_sample_def congestion_reset_def Let_def)

lemma cc_ok_run:
  "cc_ok c \<Longrightarrow> cc_ok (fold cc_step es c) \<and> max_send_rate (fold cc_step es c) = max_send_rate c"
  by (induction es arbitrary: c) (use cc_ok_step in fastforce)+

text \<open>
  The congestion control keeps the send rate between the floor and the configured maximum: a back-off
  multiplies by 0.75 and never raises the rate, an increase never lowers it, with the rounding of
  both products taken into account.
\<close>

text \<open>
  C22. For every maximum rate from 32 KiB/s up to 2^31 - 1, after any sequence of acknowledgements,
  losses, round-trip samples, evaluations and resets the send rate lies between \<^const>\<open>MIN_SEND_RATE\<close>
  and the maximum, and one more evaluation never raises it when the loss rate is above 5 percent and
  never lowers it otherwise.\<close>

theorem congestion_rate_bounded:
  assumes "MIN_SEND_RATE \<le> max_rate" and "max_rate < 2 ^ 31"
    and c: "c = fold cc_step events (congestion_init max_rate)"
  shows "MIN_SEND_RATE \<le> send_rate c \<and> send_rate c \<le> max_rate \<and> max_send_rate c = max_rate \<and>
    (if loss_rate c > LOSS_THRESHOLD_HIGH then send_rate (cc_evaluate c) \<le> send_rate c
     else send_rate c \<le> send_rate (cc_evaluate c))"
proof -
  have "cc_ok (congestion_init max_rate)"
    using assms(1,2) by (simp add: cc_ok_def congestion_init_def CC_WINDOW_SIZE_def)
  from cc_ok_run [OF this, of events] have ok: "cc_ok c" and m: "max_send_rate c = max_rate"
    by (simp_all add: c congestion_init_def)
  have "0 < send_rate c" "send_rate c < 2 ^ 31" using ok by (auto simp: cc_ok_def MIN_SEND_RATE_def)
  note r = decrease_rate_bounds [OF this] increase_rate_bounds [OF this]
  from ok m r show ?thesis by (auto simp: cc_ok_def cc_evaluate_def Let_def)
qed

theorem congestion_rate_bounded_witness:
  "send_rate (fold cc_step [Acked, Lost, Evaluate] (congestion_init 262144)) \<le> 262144"
proof -
  have "MIN_SEND_RATE \<le> 262144" "(262144 :: nat) < 2 ^ 31" by (simp_all add: MIN_SEND_RATE_def)
  from congestion_rate_bounded [OF this refl, of "[Acked, Lost, Evaluate]"] show ?thesis by (elim conjE)
qed

text \<open>
  C23. Whatever the sequence of refills (at any clock values, even decreasing ones) and consumption
  attempts after initialisation, the bytes admitted never exceed the burst size plus the configured
  rate times the time by which the clock advanced.\<close>

theorem token_bucket_bound:
  assumes "bucket_run ops (bandwidth_init t0 b) = (used, b')"
  shows "real used \<le> real (unat (burst_bytes b)) + real (unat (rate_bytes_per_sec b)) * (last_refill_time b' - t0) \<and>
    t0 \<le> last_refill_time b' \<and> 0 \<le> bw_tokens b'"
proof -
  have "0 \<le> bw_tokens (bandwidth_init t0 b)" by (simp add: bandwidth_init_def del: of_nat_unat)
  from bucket_run_bound [OF this assms] show ?thesis
    by (simp add: bandwidth_init_def del: of_nat_unat)
qed

theorem token_bucket_bound_witness:
  "real (fst (bucket_run [Consume 30000, Consume 30000] (bandwidth_init 0 bandwidth_new))) \<le> 32768"
proof -
  have "bucket_run [Consume 30000, Consume 30000] (bandwidth_init 0 bandwidth_new) =
    (30000, bandwidth_init 0 bandwidth_new\<lparr>bw_tokens := 2768\<rparr>)"
    by (simp add: bandwidth_init_def bandwidth_new_def try_consume_def)
  from token_bucket_bound [OF this] this show ?thesis by (simp add: bandwidth_init_def bandwidth_new_def)
qed

section \<open>The attack monitor cools down\<close>

datatype ddos_event = Bad_packet | Tick real

fun ddos_step :: "ddos_event \<Rightarrow> DDoSMonitor \<Rightarrow> DDoSMonitor" where
  "ddos_step Bad_packet = on_bad_packet"
| "ddos_step (Tick dt) = ddos_update dt"

fun cooloff_seconds :: "DDoSSeverity \<Rightarrow> nat" where
  "cooloff_seconds Sev_None = 0"
| "cooloff_seconds Sev_Critical = 60"
| "cooloff_seconds _ = 30"

fun seconds_below :: "DDoSSeverity \<Rightarrow> nat" where
  "seconds_below Sev_None = 0"
| "seconds_below Sev_Low = 0"
| "seconds_below Sev_Medium = 30"
| "seconds_below Sev_High = 60"
| "seconds_below Sev_Critical = 90"

text \<open>\<^verbatim>\<open>ddos_in k m\<close>: at most \<^verbatim>\<open>k\<close> quiet seconds remain until the severity is back at none.\<close>

definition ddos_in :: "nat \<Rightarrow> DDoSMonitor \<Rightarrow> bool" where
  "ddos_in k m \<longleftrightarrow> severity m = Sev_None \<or>
     (\<exists>t. cooloff_timer m = real t \<and> t < cooloff_seconds (severity m) \<and>
          cooloff_seconds (severity m) - t + seconds_below (severity m) \<le> k)"

definition ddos_ok :: "DDoSMonitor \<Rightarrow> bool" where
  "ddos_ok m \<longleftrightarrow> ddos_in 150 m"

lemma ddos_ok_intro:
  "cooloff_timer m = real t \<Longrightarrow> t < cooloff_seconds (severity m) \<Longrightarrow> ddos_ok m"
  by (cases "severity m") (auto simp: ddos_ok_def ddos_in_def)

lemma ddos_ok_reset: "ddos_ok ddos_reset"
  by (simp add: ddos_ok_def ddos_in_def ddos_reset_def)

lemma ddos_ok_cases:
  assumes "ddos_ok m"
  obtains "severity m = Sev_None" | t where "cooloff_timer m = real t" "t < cooloff_seconds (severity m)"
  using assms by (auto simp: ddos_ok_def ddos_in_def)

lemma ddos_in_frame [simp]:
  "ddos_in k (m\<lparr>time_since_last_eval := a\<rparr>) = ddos_in k m"
  "ddos_in k (m\<lparr>bad_packets_per_sec := b\<rparr>) = ddos_in k m"
  "ddos_in k (m\<lparr>bad_packets_this_window := b\<rparr>) = ddos_in k m"
  by (simp_all add: ddos_in_def)

lemma ddos_quiet_evaluate:
  assumes "ddos_in (Suc k) m" and "bps \<le> 100"
  shows "ddos_in k (ddos_evaluate bps m)"
proof (cases "severity m = Sev_None")
  case False
  then obtain t where t: "cooloff_timer m = real t" "t < cooloff_seconds (severity m)"
    "cooloff_seconds (severity m) - t + seconds_below (severity m) \<le> Suc k"
    using assms(1) by (auto simp: ddos_in_def)
  have thr: "(if severity m = Sev_Critical then 60 else 30 :: real) = real (cooloff_seconds (severity m))"
    using False by (cases "severity m") auto
  show ?thesis
  proof (cases "Suc t < cooloff_seconds (severity m)")
    case True
    have "ddos_evaluate bps m = m\<lparr>cooloff_timer := real (Suc t)\<rparr>"
      unfolding ddos_evaluate_def thr using t True assms(2) by (simp add: Let_def)
    then show ?thesis using t True
      by (auto simp: ddos_in_def simp del: of_nat_Suc intro!: exI [of _ "Suc t"])
  next
    case stop: False
    have e: "ddos_evaluate bps m = m\<lparr>severity := severity_pred (severity m), cooloff_timer := 0\<rparr>"
      unfolding ddos_evaluate_def thr using t stop False assms(2) by (simp add: Let_def)
    have "cooloff_seconds (severity m) - t = 1" using t(2) stop by simp
    then show ?thesis using t(3) False by (cases "severity m") (auto simp: e ddos_in_def)
  qed
qed (use assms(2) in \<open>auto simp: ddos_in_def ddos_evaluate_def Let_def\<close>)

lemma ddos_ok_evaluate:
  assumes "ddos_ok m"
  shows "ddos_ok (ddos_evaluate bps m)"
proof (cases "bps \<le> 100")
  case True
  have "ddos_in (Suc 150) m" using assms by (auto simp: ddos_ok_def ddos_in_def)
  from ddos_quiet_evaluate [OF this True] show ?thesis by (simp add: ddos_ok_def)
next
  case False
  then have "cooloff_timer (ddos_evaluate bps m) = real 0" "severity (ddos_evaluate bps m) \<noteq> Sev_None"
    by (auto simp: ddos_evaluate_def Let_def)
  then show ?thesis
    by (intro ddos_ok_intro [of _ 0]) (cases "severity (ddos_evaluate bps m)"; simp)+
qed

lemma ddos_ok_step: "ddos_ok m \<Longrightarrow> ddos_ok (ddos_step e m)"
proof (cases e)
  case (Tick dt)
  assume "ddos_ok m"
  then show ?thesis
    by (auto simp: Tick ddos_update_def Let_def intro!: ddos_ok_evaluate) (simp_all add: ddos_ok_def)
qed (simp add: on_bad_packet_def ddos_ok_def)

lemma ddos_ok_run: "ddos_ok m \<Longrightarrow> ddos_ok (fold ddos_step es m)"
  by (induction es arbitrary: m) (simp_all add: ddos_ok_step)

lemma ddos_quiet_tick:
  assumes "ddos_in (Suc k) m" and "bad_packets_this_window m \<le> 100" and "0 \<le> time_since_last_eval m" and "1 \<le> dt"
  shows "ddos_in k (ddos_update dt m)"
  using assms
  by (auto simp: ddos_update_def Let_def intro!: ddos_quiet_evaluate)

lemma ddos_tick_frame:
  "1 \<le> dt \<Longrightarrow> 0 \<le> time_since_last_eval m \<Longrightarrow>
     bad_packets_this_window (ddos_update dt m) = 0 \<and> time_since_last_eval (ddos_update dt m) = 0"
  by (simp add: ddos_update_def ddos_evaluate_def Let_def)

lemma ddos_quiet_ticks:
  assumes "ddos_in (length dts) m" and "bad_packets_this_window m = 0" and "time_since_last_eval m = 0"
    and "\<forall>dt\<in>set dts. 1 \<le> dt"
  shows "severity (fold ddos_step (map Tick dts) m) = Sev_None"
  using assms
proof (induction dts arbitrary: m)
  case Nil
  then show ?case by (auto simp: ddos_in_def)
next
  case (Cons dt dts)
  have "ddos_in (length dts) (ddos_update dt m)"
    using Cons.prems by (intro ddos_quiet_tick) auto
  with Cons show ?case using ddos_tick_frame [of dt m] by simp
qed

lemma ddos_in_mono: "ddos_in j m \<Longrightarrow> j \<le> k \<Longrightarrow> ddos_in k m"
  by (auto simp: ddos_in_def)

lemma ddos_time_nonneg:
  assumes "\<forall>dt. Tick dt \<in> set es \<longrightarrow> 0 \<le> dt" and "0 \<le> time_since_last_eval m"
  shows "0 \<le> time_since_last_eval (fold ddos_step es m)"
  using assms
proof (induction es arbitrary: m)
  case (Cons e es)
  have "0 \<le> time_since_last_eval (ddos_step e m)"
    using Cons.prems by (cases e) (auto simp: on_bad_packet_def ddos_update_def ddos_evaluate_def Let_def)
  with Cons show ?case by simp
qed simp



text \<open>
  C25. After any sequence of samples the retransmission timeout stays within 100 ms and 2 s, and once
  a sample was taken the smoothed round-trip time lies between the smallest and the largest sample.\<close>

theorem rto_and_rtt_bounded:
  assumes "\<forall>(a, b, d)\<in>set events. lo \<le> rtt_sample a b d \<and> rtt_sample a b d \<le> hi" and "0 \<le> lo"
  shows "MIN_RTO \<le> rto (rtt_run events rtt_reset) \<and> rto (rtt_run events rtt_reset) \<le> MAX_RTO \<and>
    (has_sample (rtt_run events rtt_reset) \<longrightarrow>
       lo \<le> srtt (rtt_run events rtt_reset) \<and> srtt (rtt_run events rtt_reset) \<le> hi)"
  using rtt_run_ok [OF rtt_ok_reset assms] by (simp add: rtt_ok_def)

theorem rto_and_rtt_bounded_witness: "rto (rtt_run [(0, 1 / 20, 0), (1, 11 / 10, 0)] rtt_reset) \<le> MAX_RTO"
proof -
  have "\<forall>(a, b, d)\<in>set [(0, 1 / 20, 0 :: u16), (1, 11 / 10, 0)]. 1 / 20 \<le> rtt_sample a b d \<and> rtt_sample a b d \<le> 1 / 10"
    by (simp add: rtt_sample_def)
  from rto_and_rtt_bounded [OF this] show ?thesis by simp
qed

end
