(* ===== verification/Hash_Map.thy ===== *)
theory Hash_Map
  imports Netudp_Prelude
begin

text \<open>
  The fixed-capacity open-addressing hash map of \<^verbatim>\<open>core/hash_map.h\<close>. Keys are compared and hashed by
  their memory image, so a key is a list of bytes. A slot that is not \<^verbatim>\<open>occupied\<close> is \<^term>\<open>None\<close>. The
  contract the clients rely on is the locale \<^verbatim>\<open>capped_map\<close>: a finite map with a capacity.
\<close>

section \<open>The contract\<close>

datatype ('k, 'v) map_op = Ins 'k 'v | Del 'k | Get 'k

datatype 'v map_res = Flag bool | Val "'v option"

text \<open>The specification: a partial function that holds at most \<^verbatim>\<open>cap\<close> keys.\<close>

fun spec_op :: "nat \<Rightarrow> ('k, 'v) map_op \<Rightarrow> ('k \<rightharpoonup> 'v) \<Rightarrow> 'v map_res \<times> ('k \<rightharpoonup> 'v)" where
  "spec_op cap (Ins k v) M =
     (if M k \<noteq> None \<or> card (dom M) < cap then (Flag True, M(k \<mapsto> v)) else (Flag False, M))"
| "spec_op cap (Del k) M = (Flag (M k \<noteq> None), M(k := None))"
| "spec_op cap (Get k) M = (Val (M k), M)"

fun impl_op ::
    "('k \<Rightarrow> 'm \<Rightarrow> 'v option) \<Rightarrow> ('k \<Rightarrow> 'v \<Rightarrow> 'm \<Rightarrow> bool \<times> 'm) \<Rightarrow> ('k \<Rightarrow> 'm \<Rightarrow> bool \<times> 'm) \<Rightarrow>
     ('k, 'v) map_op \<Rightarrow> 'm \<Rightarrow> 'v map_res \<times> 'm" where
  "impl_op fnd ins rmv (Ins k v) m = map_prod Flag id (ins k v m)"
| "impl_op fnd ins rmv (Del k) m = map_prod Flag id (rmv k m)"
| "impl_op fnd ins rmv (Get k) m = (Val (fnd k m), m)"

fun run_ops :: "('op \<Rightarrow> 's \<Rightarrow> 'r \<times> 's) \<Rightarrow> 'op list \<Rightarrow> 's \<Rightarrow> 'r list \<times> 's" where
  "run_ops step [] s = ([], s)"
| "run_ops step (op # ops) s = (let (r, s1) = step op s; (rs, s2) = run_ops step ops s1 in (r # rs, s2))"

locale capped_map =
  fixes find :: "'k \<Rightarrow> 'm \<Rightarrow> 'v option"
    and insert :: "'k \<Rightarrow> 'v \<Rightarrow> 'm \<Rightarrow> bool \<times> 'm"
    and remove :: "'k \<Rightarrow> 'm \<Rightarrow> bool \<times> 'm"
    and count :: "'m \<Rightarrow> nat"
    and cap :: "'m \<Rightarrow> nat"
    and ok :: "'m \<Rightarrow> bool"
  assumes insert_accepts: "ok m \<Longrightarrow> find k m \<noteq> None \<or> count m < cap m \<Longrightarrow>
      fst (insert k v m) \<and> (\<lambda>j. find j (snd (insert k v m))) = (\<lambda>j. find j m)(k \<mapsto> v)"
    and insert_rejects: "ok m \<Longrightarrow> find k m = None \<Longrightarrow> cap m \<le> count m \<Longrightarrow> insert k v m = (False, m)"
    and remove_found: "ok m \<Longrightarrow> fst (remove k m) \<longleftrightarrow> find k m \<noteq> None"
    and remove_find: "ok m \<Longrightarrow> (\<lambda>j. find j (snd (remove k m))) = (\<lambda>j. find j m)(k := None)"
    and insert_ok: "ok m \<Longrightarrow> ok (snd (insert k v m))"
    and remove_ok: "ok m \<Longrightarrow> ok (snd (remove k m))"
    and insert_cap: "ok m \<Longrightarrow> cap (snd (insert k v m)) = cap m"
    and remove_cap: "ok m \<Longrightarrow> cap (snd (remove k m)) = cap m"
    and count_dom: "ok m \<Longrightarrow> count m = card {k. find k m \<noteq> None}"
    and dom_finite: "ok m \<Longrightarrow> finite {k. find k m \<noteq> None}"
begin

lemma insert_find:
  assumes "ok m" and "find k m \<noteq> None \<or> count m < cap m"
  shows "find j (snd (insert k v m)) = (if j = k then Some v else find j m)"
proof -
  have "find j (snd (insert k v m)) = ((\<lambda>j. find j m)(k \<mapsto> v)) j"
    using insert_accepts [OF assms] by metis
  then show ?thesis by simp
qed

lemma remove_find_at: "ok m \<Longrightarrow> find j (snd (remove k m)) = (if j = k then None else find j m)"
proof -
  assume "ok m"
  then have "find j (snd (remove k m)) = ((\<lambda>j. find j m)(k := None)) j"
    using remove_find by metis
  then show ?thesis by simp
qed

lemma dom_find: "ok m \<Longrightarrow> card (dom (\<lambda>j. find j m)) = count m"
  using count_dom by (simp add: dom_def)

lemma step_refines:
  assumes "ok m"
  shows "fst (impl_op find insert remove op m) = fst (spec_op (cap m) op (\<lambda>j. find j m)) \<and>
    ok (snd (impl_op find insert remove op m)) \<and> cap (snd (impl_op find insert remove op m)) = cap m \<and>
    (\<lambda>j. find j (snd (impl_op find insert remove op m))) = snd (spec_op (cap m) op (\<lambda>j. find j m))"
proof (cases op)
  case (Ins k v)
  show ?thesis
  proof (cases "find k m \<noteq> None \<or> count m < cap m")
    case True
    then show ?thesis
      using insert_accepts [OF assms True] insert_ok [OF assms] insert_cap [OF assms] dom_find [OF assms]
      by (auto simp: Ins)
  next
    case False
    then show ?thesis using insert_rejects [OF assms] dom_find [OF assms] assms by (simp add: Ins)
  qed
next
  case (Del k)
  then show ?thesis
    using remove_found [OF assms] remove_find [OF assms] remove_ok [OF assms] remove_cap [OF assms] by simp
qed (use assms in simp)

lemma run_refines:
  assumes "ok m"
  shows "fst (run_ops (impl_op find insert remove) ops m) = fst (run_ops (spec_op (cap m)) ops (\<lambda>j. find j m)) \<and>
    (\<lambda>j. find j (snd (run_ops (impl_op find insert remove) ops m))) =
      snd (run_ops (spec_op (cap m)) ops (\<lambda>j. find j m)) \<and>
    ok (snd (run_ops (impl_op find insert remove) ops m))"
  using assms
proof (induction ops arbitrary: m)
  case (Cons op ops)
  note s = step_refines [OF Cons.prems, of op]
  show ?case using s Cons.IH [of "snd (impl_op find insert remove op m)"] by (simp add: split_beta Let_def)
qed simp

text \<open>An insertion can only be refused for want of space: keys from a small enough set always fit.\<close>

lemma insert_fits:
  assumes "ok m" and "{j. find j m \<noteq> None} \<subseteq> K" and "finite K" and "card K \<le> cap m" and "k \<in> K"
  shows "find k m \<noteq> None \<or> count m < cap m"
proof (cases "find k m = None")
  case True
  then have "{j. find j m \<noteq> None} \<subset> K" using assms(2,5) by blast
  then have "count m < card K"
    using psubset_card_mono [OF assms(3)] count_dom [OF assms(1)] by metis
  then show ?thesis using assms(4) by simp
qed simp

lemma insert_dom:
  assumes "ok m"
  shows "{j. find j (snd (insert k v m)) \<noteq> None} \<subseteq> Set.insert k {j. find j m \<noteq> None}"
proof (cases "find k m \<noteq> None \<or> count m < cap m")
  case True
  then show ?thesis using insert_find [OF assms] by auto
next
  case False
  then show ?thesis using insert_rejects [OF assms] by auto
qed

end

section \<open>The table\<close>

type_synonym key = "byte list"

definition fnv1a :: "byte list \<Rightarrow> u32" where
  "fnv1a bytes = foldl (\<lambda>h b. (h XOR ucast b) * 16777619) 2166136261 bytes"

record 'v FixedHashMap =
  slots :: "(key \<times> 'v) option list"
  map_size :: nat

abbreviation hm_cap :: "'v FixedHashMap \<Rightarrow> nat" where
  "hm_cap m \<equiv> length (slots m)"

definition hm_new :: "nat \<Rightarrow> 'v FixedHashMap" where
  "hm_new N = \<lparr>slots = replicate N None, map_size = 0\<rparr>"

definition home :: "'v FixedHashMap \<Rightarrow> key \<Rightarrow> nat" where
  "home m k = mask_index (hm_cap m) (unat (fnv1a k))"

text \<open>The three operations scan the same slots: the first that is free or holds the key.\<close>

definition probe :: "key \<Rightarrow> 'v FixedHashMap \<Rightarrow> nat option" where
  "probe k m =
     List.find (\<lambda>s. case slots m ! s of None \<Rightarrow> True | Some (k', v) \<Rightarrow> k' = k)
       (map (\<lambda>p. mask_index (hm_cap m) (home m k + p)) [0..<hm_cap m])"

definition hm_insert :: "key \<Rightarrow> 'v \<Rightarrow> 'v FixedHashMap \<Rightarrow> bool \<times> 'v FixedHashMap" where
  "hm_insert k v m =
     (case probe k m of None \<Rightarrow> (False, m)
      | Some s \<Rightarrow>
          (True, m\<lparr>slots := (slots m)[s := Some (k, v)],
                   map_size := (if slots m ! s = None then map_size m + 1 else map_size m)\<rparr>))"

definition hm_find :: "key \<Rightarrow> 'v FixedHashMap \<Rightarrow> 'v option" where
  "hm_find k m = (case probe k m of None \<Rightarrow> None | Some s \<Rightarrow> map_option snd (slots m ! s))"

definition hm_vacate :: "nat \<Rightarrow> 'v FixedHashMap \<Rightarrow> 'v FixedHashMap" where
  "hm_vacate s m = m\<lparr>slots := (slots m)[s := None], map_size := map_size m - 1\<rparr>"

text \<open>Not returning is the value \<^term>\<open>None\<close>; \<^verbatim>\<open>rehash_correct\<close> below shows that the loop returns.\<close>

partial_function (option) rehash_after_delete :: "nat \<Rightarrow> 'v FixedHashMap \<Rightarrow> 'v FixedHashMap option" where
  "rehash_after_delete slot m =
     (case slots m ! slot of None \<Rightarrow> Some m
      | Some (k, v) \<Rightarrow>
          rehash_after_delete (mask_index (hm_cap m) (slot + 1)) (snd (hm_insert k v (hm_vacate slot m))))"

definition hm_remove_loop :: "key \<Rightarrow> 'v FixedHashMap \<Rightarrow> (bool \<times> 'v FixedHashMap) option" where
  "hm_remove_loop k m =
     (case probe k m of None \<Rightarrow> Some (False, m)
      | Some s \<Rightarrow>
          (if slots m ! s = None then Some (False, m)
           else map_option (Pair True)
             (rehash_after_delete (mask_index (hm_cap m) (s + 1)) (hm_vacate s m))))"

definition hm_remove :: "key \<Rightarrow> 'v FixedHashMap \<Rightarrow> bool \<times> 'v FixedHashMap" where
  "hm_remove k m = the (hm_remove_loop k m)"

definition hm_clear :: "'v FixedHashMap \<Rightarrow> 'v FixedHashMap" where
  "hm_clear m = hm_new (hm_cap m)"

text \<open>The entries in the order in which \<^verbatim>\<open>for_each\<close> visits them.\<close>

definition hm_entries :: "'v FixedHashMap \<Rightarrow> (key \<times> 'v) list" where
  "hm_entries m = map the (filter (\<lambda>x. x \<noteq> None) (slots m))"

section \<open>Probe sequences\<close>

definition disp :: "'v FixedHashMap \<Rightarrow> key \<Rightarrow> nat \<Rightarrow> nat" where
  "disp m k s = (s + hm_cap m - home m k) mod hm_cap m"

definition path :: "'v FixedHashMap \<Rightarrow> key \<Rightarrow> nat \<Rightarrow> nat" where
  "path m k i = (home m k + i) mod hm_cap m"

definition other_key :: "'v FixedHashMap \<Rightarrow> key \<Rightarrow> nat \<Rightarrow> bool" where
  "other_key m k s \<longleftrightarrow> (\<exists>k' v. slots m ! s = Some (k', v) \<and> k' \<noteq> k)"

text \<open>
  \<^verbatim>\<open>reach X k s m\<close>: the probe sequence of \<^verbatim>\<open>k\<close> meets only other keys before slot \<^verbatim>\<open>s\<close>, the slots of
  \<^verbatim>\<open>X\<close> apart. The table is well-formed when every entry is reached by its key.
\<close>

definition reach :: "nat set \<Rightarrow> 'v FixedHashMap \<Rightarrow> key \<Rightarrow> nat \<Rightarrow> bool" where
  "reach X m k s \<longleftrightarrow> (\<forall>i<disp m k s. path m k i \<in> X \<or> other_key m k (path m k i))"

definition occupied :: "'v FixedHashMap \<Rightarrow> nat set" where
  "occupied m = {s. s < hm_cap m \<and> slots m ! s \<noteq> None}"

definition all_reach :: "nat set \<Rightarrow> 'v FixedHashMap \<Rightarrow> bool" where
  "all_reach X m \<longleftrightarrow> (\<forall>s k v. s < hm_cap m \<longrightarrow> slots m ! s = Some (k, v) \<longrightarrow> reach X m k s)"

definition hm_ok :: "'v FixedHashMap \<Rightarrow> bool" where
  "hm_ok m \<longleftrightarrow> pow2_capacity (hm_cap m) \<and> map_size m = card (occupied m) \<and> all_reach {} m"

lemma pow2_pos: "pow2_capacity N \<Longrightarrow> 0 < N"
  by (simp add: pow2_capacity_def)

lemma home_less [simp]: "pow2_capacity (hm_cap m) \<Longrightarrow> home m k < hm_cap m"
  by (simp add: home_def)

lemma circ_sub:
  "h < N \<Longrightarrow> s < N \<Longrightarrow> (s + N - h) mod N = (if h \<le> s then s - h else s + N - h)" for N :: nat
proof -
  assume a: "h < N" "s < N"
  show ?thesis
  proof (cases "h \<le> s")
    case True
    then have "s + N - h = (s - h) + N" using a by simp
    then show ?thesis using True a by (metis less_imp_diff_less mod_add_self2 mod_less)
  qed (use a in simp)
qed

lemma circ_add: "h < N \<Longrightarrow> i < N \<Longrightarrow> (h + i) mod N = (if h + i < N then h + i else h + i - N)" for N :: nat
  by (auto simp: mod_if)

lemma circ_inverse:
  "h < N \<Longrightarrow> s < N \<Longrightarrow> (h + (s + N - h) mod N) mod N = s"
  "h < N \<Longrightarrow> i < N \<Longrightarrow> ((h + i) mod N + N - h) mod N = i" for N :: nat
  by (auto simp: circ_sub circ_add)

lemma disp_less [simp]: "pow2_capacity (hm_cap m) \<Longrightarrow> disp m k s < hm_cap m"
  unfolding disp_def by (rule mod_less_divisor [OF pow2_pos])

lemma path_less [simp]: "pow2_capacity (hm_cap m) \<Longrightarrow> path m k i < hm_cap m"
  unfolding path_def by (rule mod_less_divisor [OF pow2_pos])

lemma path_disp [simp]:
  assumes "pow2_capacity (hm_cap m)" and "s < hm_cap m"
  shows "path m k (disp m k s) = s"
  unfolding path_def disp_def by (rule circ_inverse [OF home_less [OF assms(1)] assms(2)])

lemma disp_path [simp]:
  assumes "pow2_capacity (hm_cap m)" and "i < hm_cap m"
  shows "disp m k (path m k i) = i"
  unfolding path_def disp_def by (rule circ_inverse [OF home_less [OF assms(1)] assms(2)])

lemma disp_inj:
  "pow2_capacity (hm_cap m) \<Longrightarrow> s < hm_cap m \<Longrightarrow> t < hm_cap m \<Longrightarrow> disp m k s = disp m k t \<Longrightarrow> s = t"
  by (metis path_disp)

lemma reachD:
  assumes "reach X m k s" and "pow2_capacity (hm_cap m)" and "t < hm_cap m" and "disp m k t < disp m k s"
  shows "t \<in> X \<or> other_key m k t"
  using assms by (auto simp: reach_def dest!: spec [of _ "disp m k t"])

lemma reachI:
  assumes "pow2_capacity (hm_cap m)"
    and "\<And>t. t < hm_cap m \<Longrightarrow> disp m k t < disp m k s \<Longrightarrow> t \<in> X \<or> other_key m k t"
  shows "reach X m k s"
  unfolding reach_def
proof (intro allI impI)
  fix i assume i: "i < disp m k s"
  then have "i < hm_cap m" using disp_less [OF assms(1), of k s] by linarith
  then show "path m k i \<in> X \<or> other_key m k (path m k i)"
    using assms(2) [of "path m k i"] assms(1) i by simp
qed

lemma probe_alt:
  assumes "pow2_capacity (hm_cap m)"
  shows "probe k m = List.find (\<lambda>s. \<not> other_key m k s) (map (path m k) [0..<hm_cap m])"
proof -
  have "(case slots m ! s of None \<Rightarrow> True | Some (k', v) \<Rightarrow> k' = k) \<longleftrightarrow> \<not> other_key m k s" for s
    by (auto simp: other_key_def split: option.splits)
  moreover have "map (\<lambda>p. mask_index (hm_cap m) (home m k + p)) [0..<hm_cap m] = map (path m k) [0..<hm_cap m]"
    by (simp add: path_def mask_index_mod [OF assms])
  ultimately show ?thesis by (simp only: probe_def)
qed

lemma probe_Some_iff:
  assumes "pow2_capacity (hm_cap m)"
  shows "probe k m = Some s \<longleftrightarrow> s < hm_cap m \<and> reach {} m k s \<and> \<not> other_key m k s"
proof
  assume "probe k m = Some s"
  then obtain i where i: "i < hm_cap m" "s = path m k i" "\<not> other_key m k s" "\<forall>j<i. other_key m k (path m k j)"
    using assms by (auto simp: probe_alt find_Some_iff)
  then show "s < hm_cap m \<and> reach {} m k s \<and> \<not> other_key m k s"
    using assms by (simp add: reach_def)
next
  assume s: "s < hm_cap m \<and> reach {} m k s \<and> \<not> other_key m k s"
  show "probe k m = Some s"
    unfolding probe_alt [OF assms] find_Some_iff
  proof (intro exI [of _ "disp m k s"] conjI allI impI)
    fix j assume j: "j < disp m k s"
    then have "j < hm_cap m" using disp_less [OF assms, of k s] by linarith
    then show "\<not> \<not> other_key m k (map (path m k) [0..<hm_cap m] ! j)"
      using s j by (simp add: reach_def)
  qed (use assms s in auto)
qed

lemma probe_at:
  assumes "pow2_capacity (hm_cap m)" and "probe k m = Some s"
  shows "slots m ! s = None \<or> (\<exists>v. slots m ! s = Some (k, v))"
  using assms by (cases "slots m ! s") (auto simp: probe_Some_iff other_key_def)

lemma probe_None_iff:
  assumes "pow2_capacity (hm_cap m)"
  shows "probe k m = None \<longleftrightarrow> (\<forall>s<hm_cap m. other_key m k s)"
proof
  assume none: "probe k m = None"
  show "\<forall>s<hm_cap m. other_key m k s"
  proof (intro allI impI)
    fix s assume s: "s < hm_cap m"
    have "s \<in> set (map (path m k) [0..<hm_cap m])"
      using path_disp [OF assms s, of k] disp_less [OF assms, of k s] by force
    then show "other_key m k s" using none assms unfolding probe_alt [OF assms] find_None_iff by blast
  qed
qed (use assms in \<open>auto simp: probe_alt find_None_iff\<close>)

lemma path_cong: "hm_cap m' = hm_cap m \<Longrightarrow> path m' k i = path m k i"
  "hm_cap m' = hm_cap m \<Longrightarrow> disp m' k s = disp m k s" "hm_cap m' = hm_cap m \<Longrightarrow> home m' k = home m k"
  by (simp_all add: path_def disp_def home_def)

text \<open>Two entries with the same key are the same entry.\<close>

lemma entry_unique:
  assumes ok: "pow2_capacity (hm_cap m)" "all_reach X m" and X: "\<forall>x\<in>X. slots m ! x = None"
    and s: "s < hm_cap m" "slots m ! s = Some (k, v)" and t: "t < hm_cap m" "slots m ! t = Some (k, w)"
  shows "s = t"
proof -
  have earlier: "\<not> disp m k a < disp m k b"
    if "a < hm_cap m" "slots m ! a = Some (k, va)" "b < hm_cap m" "slots m ! b = Some (k, vb)" for a b va vb
  proof
    assume "disp m k a < disp m k b"
    moreover have "reach X m k b" using ok(2) that by (auto simp: all_reach_def)
    ultimately have "a \<in> X \<or> other_key m k a" using reachD ok(1) that by blast
    then show False using X that by (auto simp: other_key_def)
  qed
  then have "disp m k s = disp m k t" using s t by (meson linorder_neqE_nat)
  then show ?thesis using disp_inj ok(1) s t by blast
qed

section \<open>Lookup and insertion\<close>

lemma hm_okD [simp]: "hm_ok m \<Longrightarrow> pow2_capacity (hm_cap m)" "hm_ok m \<Longrightarrow> all_reach {} m"
  "hm_ok m \<Longrightarrow> map_size m = card (occupied m)"
  by (simp_all add: hm_ok_def)

lemma finite_occupied [simp]: "finite (occupied m)"
  by (simp add: occupied_def)

lemma hm_find_iff:
  assumes "hm_ok m"
  shows "hm_find k m = Some v \<longleftrightarrow> (\<exists>s<hm_cap m. slots m ! s = Some (k, v))"
proof
  assume "hm_find k m = Some v"
  then obtain s where "probe k m = Some s" "map_option snd (slots m ! s) = Some v"
    by (auto simp: hm_find_def split: option.splits)
  then show "\<exists>s<hm_cap m. slots m ! s = Some (k, v)"
    using assms by (auto simp: probe_Some_iff other_key_def)
next
  assume "\<exists>s<hm_cap m. slots m ! s = Some (k, v)"
  then obtain s where s: "s < hm_cap m" "slots m ! s = Some (k, v)" by blast
  have "reach {} m k s" using hm_okD(2) [OF assms] s unfolding all_reach_def by blast
  then have "probe k m = Some s" using assms s by (simp add: probe_Some_iff other_key_def)
  then show "hm_find k m = Some v" by (simp add: hm_find_def s)
qed

lemma hm_find_None_iff:
  "hm_ok m \<Longrightarrow> hm_find k m = None \<longleftrightarrow> (\<forall>s<hm_cap m. \<forall>v. slots m ! s \<noteq> Some (k, v))"
  by (metis hm_find_iff not_Some_eq)

lemma occupied_find:
  assumes "hm_ok m"
  shows "card (occupied m) = card {k. hm_find k m \<noteq> None}"
proof (rule bij_betw_same_card)
  let ?f = "\<lambda>s. fst (the (slots m ! s))"
  have "inj_on ?f (occupied m)"
  proof (rule inj_onI)
    fix s t assume st: "s \<in> occupied m" "t \<in> occupied m" "?f s = ?f t"
    then obtain k v w where "slots m ! s = Some (k, v)" "slots m ! t = Some (k, w)"
      by (auto simp: occupied_def)
    then show "s = t" using entry_unique [of m "{}"] assms st by (auto simp: occupied_def)
  qed
  moreover have "?f ` occupied m = {k. hm_find k m \<noteq> None}"
    using assms by (force simp: occupied_def hm_find_iff)
  ultimately show "bij_betw ?f (occupied m) {k. hm_find k m \<noteq> None}" by (simp add: bij_betw_def)
qed

lemma hm_new_ok: "pow2_capacity N \<Longrightarrow> hm_ok (hm_new N)"
  by (auto simp: hm_ok_def hm_new_def occupied_def all_reach_def)

lemma hm_find_new [simp]: "pow2_capacity N \<Longrightarrow> hm_find k (hm_new N) = None"
  by (simp add: hm_find_None_iff hm_new_ok) (simp add: hm_new_def)

lemma hm_cap_new [simp]: "hm_cap (hm_new N) = N"
  by (simp add: hm_new_def)

lemma hm_insert_cap [simp]: "hm_cap (snd (hm_insert k v m)) = hm_cap m"
  by (simp add: hm_insert_def split: option.splits)

lemma hm_insert_at:
  assumes ok: "hm_ok m" and s: "probe k m = Some s" and m'_def: "m' = snd (hm_insert k v m)"
  shows "hm_ok m'" and "slots m' = (slots m)[s := Some (k, v)]" and "s < hm_cap m"
    and "slots m ! s = None \<or> (\<exists>w. slots m ! s = Some (k, w))"
proof -
  note p = s [unfolded probe_Some_iff [OF hm_okD(1) [OF ok]]]
  show sl: "slots m' = (slots m)[s := Some (k, v)]" and "s < hm_cap m"
    using s p by (simp_all add: m'_def hm_insert_def)
  show at: "slots m ! s = None \<or> (\<exists>w. slots m ! s = Some (k, w))"
    using probe_at [OF hm_okD(1) [OF ok] s] .
  have cap: "hm_cap m' = hm_cap m" by (simp add: sl)
  have other: "other_key m' j u" if "other_key m j u" "u = s \<Longrightarrow> j \<noteq> k" "u < hm_cap m" for j u
    using that p by (auto simp: other_key_def sl nth_list_update)
  have "all_reach {} m'"
    unfolding all_reach_def
  proof (intro allI impI)
    fix t j w assume t: "t < hm_cap m'" "slots m' ! t = Some (j, w)"
    have r: "reach {} m j t"
      using t p hm_okD(2) [OF ok] by (cases "t = s") (auto simp: sl all_reach_def)
    show "reach {} m' j t"
    proof (rule reachI)
      fix u assume u: "u < hm_cap m'" "disp m' j u < disp m' j t"
      then have o: "other_key m j u"
        using reachD [OF r hm_okD(1) [OF ok], of u] by (simp add: cap path_cong [OF cap])
      have "j \<noteq> k" if "u = s"
        using o at that by (auto simp: other_key_def)
      then show "u \<in> {} \<or> other_key m' j u" using other o u cap by simp
    qed (use ok cap in simp)
  qed
  moreover have "occupied m' = Set.insert s (occupied m)"
    using p by (auto simp: occupied_def sl nth_list_update split: if_splits)
  moreover have "map_size m' = (if slots m ! s = None then map_size m + 1 else map_size m)"
    using s by (simp add: m'_def hm_insert_def)
  moreover have "s \<in> occupied m \<longleftrightarrow> slots m ! s \<noteq> None"
    using p by (simp add: occupied_def)
  ultimately show "hm_ok m'"
    unfolding hm_ok_def using hm_okD(1,3) [OF ok] cap by (simp add: card_insert_if)
qed

lemma hm_insert_ok: "hm_ok m \<Longrightarrow> hm_ok (snd (hm_insert k v m))"
  by (cases "probe k m") (simp add: hm_insert_def, rule hm_insert_at(1) [OF _ _ refl])

lemma hm_insert_find:
  assumes ok: "hm_ok m" and s: "probe k m = Some s"
  shows "hm_find j (snd (hm_insert k v m)) = (if j = k then Some v else hm_find j m)"
proof -
  note i = hm_insert_at [OF ok s refl [of "snd (hm_insert k v m)"]]
  have "hm_find j (snd (hm_insert k v m)) = Some w \<longleftrightarrow> (if j = k then Some v else hm_find j m) = Some w" for w
  proof (cases "j = k")
    case True
    have "hm_find k (snd (hm_insert k v m)) = Some v"
      using i(1-3) by (auto simp: hm_find_iff)
    then show ?thesis using True by simp
  next
    case False
    have "(slots m)[s := Some (k, v)] ! t = Some (j, w) \<longleftrightarrow> slots m ! t = Some (j, w)" if "t < hm_cap m" for t
      using False i(4) that by (cases "t = s") auto
    then have "(\<exists>t<hm_cap m. (slots m)[s := Some (k, v)] ! t = Some (j, w)) \<longleftrightarrow> (\<exists>t<hm_cap m. slots m ! t = Some (j, w))"
      by blast
    then show ?thesis using False i(1-3) ok by (simp add: hm_find_iff)
  qed
  then show ?thesis by (metis not_Some_eq)
qed

lemma probe_full_iff:
  assumes "hm_ok m"
  shows "probe k m = None \<longleftrightarrow> hm_find k m = None \<and> hm_cap m \<le> map_size m"
proof
  assume "probe k m = None"
  then have o: "\<forall>s<hm_cap m. other_key m k s" using assms by (simp add: probe_None_iff)
  then have "occupied m = {..<hm_cap m}" by (auto simp: occupied_def other_key_def)
  moreover have "hm_find k m = None"
    unfolding hm_find_None_iff [OF assms] using o by (auto simp: other_key_def)
  ultimately show "hm_find k m = None \<and> hm_cap m \<le> map_size m" using assms by simp
next
  assume f: "hm_find k m = None \<and> hm_cap m \<le> map_size m"
  have sub: "occupied m \<subseteq> {..<hm_cap m}" by (auto simp: occupied_def)
  have "card (occupied m) \<le> hm_cap m" using card_mono [OF _ sub] by simp
  then have "card (occupied m) = card {..<hm_cap m}" using f hm_okD(3) [OF assms] by simp
  then have all: "occupied m = {..<hm_cap m}" using card_subset_eq [OF _ sub] by simp
  have "other_key m k s" if s: "s < hm_cap m" for s
  proof -
    have "s \<in> occupied m" using all s by blast
    then obtain k' v where "slots m ! s = Some (k', v)" by (auto simp: occupied_def)
    then show ?thesis using f s hm_find_None_iff [OF assms, of k] by (auto simp: other_key_def)
  qed
  then show "probe k m = None" using assms by (simp add: probe_None_iff)
qed

section \<open>Deletion\<close>

text \<open>
  While the entries behind a deleted one are inserted again there is one hole \<^verbatim>\<open>x\<close> that may lie on
  probe sequences. \<^verbatim>\<open>hole_inv x c m\<close>: the entries whose probe sequence crosses the hole all lie
  between the current slot \<^verbatim>\<open>c\<close> and the hole.
\<close>

definition gap :: "'v FixedHashMap \<Rightarrow> nat \<Rightarrow> nat \<Rightarrow> nat" where
  "gap m a b = (b + hm_cap m - a) mod hm_cap m"

definition hole_inv :: "nat \<Rightarrow> nat \<Rightarrow> 'v FixedHashMap \<Rightarrow> bool" where
  "hole_inv x c m \<longleftrightarrow> pow2_capacity (hm_cap m) \<and> x < hm_cap m \<and> c < hm_cap m \<and> slots m ! x = None \<and>
     all_reach {x} m \<and> map_size m = card (occupied m) \<and>
     (\<forall>s k v. s < hm_cap m \<longrightarrow> slots m ! s = Some (k, v) \<longrightarrow> disp m k x < disp m k s \<longrightarrow> gap m c s < gap m c x)"

definition entry_set :: "'v FixedHashMap \<Rightarrow> (key \<times> 'v) set" where
  "entry_set m = {e. \<exists>s<hm_cap m. slots m ! s = Some e}"

definition total_disp :: "'v FixedHashMap \<Rightarrow> nat" where
  "total_disp m = (\<Sum>s\<in>occupied m. disp m (fst (the (slots m ! s))) s)"

lemma circ_next: "c < N \<Longrightarrow> Suc c mod N = (if Suc c < N then Suc c else 0)" for N :: nat
  by (auto simp: mod_if)

lemma circ_next_closer:
  fixes N :: nat
  assumes "c < N" "s < N" "x < N" "s \<noteq> c" "x \<noteq> c" "(s + N - c) mod N < (x + N - c) mod N"
  shows "(s + N - (c + 1) mod N) mod N < (x + N - (c + 1) mod N) mod N"
  using assms by (auto simp: circ_next circ_sub split: if_splits)

lemma circ_next_last:
  fixes N :: nat
  assumes "c < N" "s < N" "s \<noteq> c"
  shows "(s + N - (c + 1) mod N) mod N < (c + N - (c + 1) mod N) mod N"
  using assms by (auto simp: circ_next circ_sub split: if_splits)

lemma circ_between:
  fixes N :: nat
  assumes "h < N" "c < N" "s < N" "x < N" "s \<noteq> c"
    and "(x + N - h) mod N < (s + N - h) mod N" "(s + N - c) mod N < (x + N - c) mod N"
  shows "(c + N - h) mod N < (s + N - h) mod N"
  using assms by (auto simp: circ_sub split: if_splits)

lemma hole_invD:
  assumes "hole_inv x c m"
  shows "pow2_capacity (hm_cap m)" "x < hm_cap m" "c < hm_cap m" "slots m ! x = None" "all_reach {x} m"
    "map_size m = card (occupied m)"
    "s < hm_cap m \<Longrightarrow> slots m ! s = Some (k, v) \<Longrightarrow> disp m k x < disp m k s \<Longrightarrow> gap m c s < gap m c x"
    "s < hm_cap m \<Longrightarrow> slots m ! s = Some (k, v) \<Longrightarrow> reach {x} m k s"
  using assms by (auto simp: hole_inv_def all_reach_def)

lemma hole_closed:
  assumes h: "hole_inv x c m" and free: "slots m ! c = None"
  shows "hm_ok m"
proof -
  note d = hole_invD [OF h]
  have "reach {} m k s" if s: "s < hm_cap m" "slots m ! s = Some (k, v)" for s k v
  proof (rule reachI [OF d(1)])
    fix u assume u: "u < hm_cap m" "disp m k u < disp m k s"
    have "u \<noteq> x"
    proof
      assume "u = x"
      then have near: "gap m c s < gap m c x" using d(7) s u by blast
      have "s \<noteq> c" using free s by auto
      then have "disp m k c < disp m k s"
        using near u \<open>u = x\<close> d(1-3) s unfolding disp_def gap_def by (intro circ_between [of _ _ c s x]) auto
      then have "c = x \<or> other_key m k c" using reachD [OF d(8) [OF s] d(1,3)] by blast
      then show False using near free by (auto simp: other_key_def gap_def)
    qed
    then show "u \<in> {} \<or> other_key m k u" using reachD [OF d(8) [OF s] d(1) u] by blast
  qed
  then show ?thesis unfolding hm_ok_def all_reach_def using d by blast
qed

lemma hole_inv_frame:
  "hole_inv x c m \<Longrightarrow> slots m' = slots m \<Longrightarrow> map_size m' = map_size m \<Longrightarrow> hole_inv x c m'"
  by (simp add: hole_inv_def all_reach_def reach_def other_key_def occupied_def gap_def disp_def path_def home_def)

lemma vacate_simps:
  "slots (hm_vacate c m) = (slots m)[c := None]" "map_size (hm_vacate c m) = map_size m - 1"
  by (simp_all add: hm_vacate_def)

lemma other_key_vacate: "u \<noteq> c \<Longrightarrow> other_key (hm_vacate c m) k u = other_key m k u"
  by (simp add: other_key_def vacate_simps)

lemma vacate_cong [simp]: "disp (hm_vacate c m) k s = disp m k s" "hm_cap (hm_vacate c m) = hm_cap m"
  by (simp_all add: vacate_simps disp_def home_def)

lemma hole_count:
  assumes "hole_inv x c m" and "slots m ! c = Some (k, v)"
  shows "map_size m - 1 + 1 = map_size m"
proof -
  have "c \<in> occupied m" using hole_invD [OF assms(1)] assms(2) by (simp add: occupied_def)
  then have "0 < card (occupied m)" by (auto simp: card_gt_0_iff)
  then show ?thesis using hole_invD(6) [OF assms(1)] by simp
qed

lemma rehash_stay:
  assumes h: "hole_inv x c m" and c: "slots m ! c = Some (k, v)" and nb: "\<not> disp m k x < disp m k c"
  shows "snd (hm_insert k v (hm_vacate c m)) = m" and "hole_inv x ((c + 1) mod hm_cap m) m"
proof -
  note d = hole_invD [OF h]
  have "reach {} (hm_vacate c m) k c"
  proof (rule reachI)
    fix u assume u: "u < hm_cap (hm_vacate c m)" "disp (hm_vacate c m) k u < disp (hm_vacate c m) k c"
    then have "u = x \<or> other_key m k u" using reachD [OF d(8) [OF d(3) c] d(1)] by simp
    moreover have "u \<noteq> x" "u \<noteq> c" using u nb by auto
    ultimately show "u \<in> {} \<or> other_key (hm_vacate c m) k u" by (simp add: other_key_vacate)
  qed (simp add: d)
  then have "probe k (hm_vacate c m) = Some c"
    using d by (simp add: probe_Some_iff other_key_def vacate_simps)
  then show "snd (hm_insert k v (hm_vacate c m)) = m"
    using d(3) c hole_count [OF h c] by (simp add: hm_insert_def vacate_simps hm_vacate_def list_update_same_conv)
  have "gap m ((c + 1) mod hm_cap m) s < gap m ((c + 1) mod hm_cap m) x"
    if s: "s < hm_cap m" "slots m ! s = Some (j, w)" "disp m j x < disp m j s" for s j w
  proof -
    have "s \<noteq> c" using s c nb by auto
    moreover have "x \<noteq> c" using c d(4) by auto
    ultimately show ?thesis using d(7) [OF s] s(1) d(2,3) unfolding gap_def by (intro circ_next_closer)
  qed
  then show "hole_inv x ((c + 1) mod hm_cap m) m"
    using h pow2_pos [OF d(1)] by (simp add: hole_inv_def)
qed

lemma rehash_move:
  assumes h: "hole_inv x c m" and c: "slots m ! c = Some (k, v)" and b: "disp m k x < disp m k c"
    and m1: "m1 = snd (hm_insert k v (hm_vacate c m))"
  shows "slots m1 = (slots m)[c := None, x := Some (k, v)]" and "map_size m1 = map_size m"
proof -
  note d = hole_invD [OF h]
  have "reach {} (hm_vacate c m) k x"
  proof (rule reachI)
    fix u assume u: "u < hm_cap (hm_vacate c m)" "disp (hm_vacate c m) k u < disp (hm_vacate c m) k x"
    then have "u = x \<or> other_key m k u" using reachD [OF d(8) [OF d(3) c] d(1), of u] b by simp
    moreover have "u \<noteq> x" "u \<noteq> c" using u b by auto
    ultimately show "u \<in> {} \<or> other_key (hm_vacate c m) k u" by (simp add: other_key_vacate)
  qed (simp add: d)
  moreover have "slots (hm_vacate c m) ! x = None" using d(2,3,4) by (simp add: vacate_simps nth_list_update)
  ultimately have "probe k (hm_vacate c m) = Some x" and "slots (hm_vacate c m) ! x = None"
    using d by (simp_all add: probe_Some_iff other_key_def)
  then show "slots m1 = (slots m)[c := None, x := Some (k, v)]" "map_size m1 = map_size m"
    using hole_count [OF h c] by (simp_all add: m1 hm_insert_def vacate_simps)
qed

lemma rehash_move_inv:
  assumes h: "hole_inv x c m" and c: "slots m ! c = Some (k, v)" and b: "disp m k x < disp m k c"
    and m1: "slots m1 = (slots m)[c := None, x := Some (k, v)]" "map_size m1 = map_size m"
  shows "hole_inv c ((c + 1) mod hm_cap m) m1"
proof -
  note d = hole_invD [OF h]
  have cap: "hm_cap m1 = hm_cap m" by (simp add: m1)
  have xc: "x \<noteq> c" using c d(4) by auto
  have at: "slots m1 ! u = (if u = x then Some (k, v) else if u = c then None else slots m ! u)"
    if "u < hm_cap m" for u using that d(2,3) by (simp add: m1 nth_list_update)
  have "reach {c} m1 j t" if t: "t < hm_cap m" "slots m1 ! t = Some (j, w)" for t j w
  proof (rule reachI)
    fix u assume "u < hm_cap m1" "disp m1 j u < disp m1 j t"
    then have u: "u < hm_cap m" "disp m j u < disp m j t" by (simp_all add: cap path_cong [OF cap])
    show "u \<in> {c} \<or> other_key m1 j u"
    proof (cases "t = x")
      case True
      then have j: "j = k" using t at by simp
      then have "u = x \<or> other_key m k u" using reachD [OF d(8) [OF d(3) c] d(1) u(1)] u(2) b True by simp
      then show ?thesis using u at [OF u(1)] True j by (auto simp: other_key_def)
    next
      case False
      then have t': "t \<noteq> c" "slots m ! t = Some (j, w)" using t at [OF t(1)] by (auto split: if_splits)
      have "j \<noteq> k" using entry_unique [OF d(1,5) _ t(1) t'(2) d(3)] c t'(1) d(4) by auto
      moreover have "u = x \<or> other_key m j u" using reachD [OF d(8) [OF t(1) t'(2)] d(1) u] by simp
      ultimately show ?thesis using at [OF u(1)] by (auto simp: other_key_def)
    qed
  qed (simp add: cap d)
  then have reach: "all_reach {c} m1" by (simp add: all_reach_def cap)
  have "occupied m1 = Set.insert x (occupied m - {c})"
    using at d(2,3) by (auto simp: occupied_def cap split: if_splits)
  moreover have "c \<in> occupied m" "x \<notin> occupied m" using c d(3,4) by (auto simp: occupied_def)
  ultimately have "card (occupied m1) = card (occupied m)"
    using card_Suc_Diff1 [of "occupied m" c] by simp
  moreover have "gap m1 ((c + 1) mod hm_cap m) t < gap m1 ((c + 1) mod hm_cap m) c"
    if "t < hm_cap m" "slots m1 ! t \<noteq> None" for t
    using that at [of t] at [of c] d(3) xc unfolding gap_def cap by (intro circ_next_last) auto
  ultimately show ?thesis
    using reach d(1-3,6) at [OF d(3)] xc pow2_pos [OF d(1)] by (auto simp: hole_inv_def cap m1(2))
qed

lemma total_disp_move:
  assumes h: "hole_inv x c m" and c: "slots m ! c = Some (k, v)" and b: "disp m k x < disp m k c"
    and m1: "slots m1 = (slots m)[c := None, x := Some (k, v)]"
  shows "total_disp m1 < total_disp m" and "entry_set m1 = entry_set m"
proof -
  note d = hole_invD [OF h]
  have cap: "hm_cap m1 = hm_cap m" by (simp add: m1)
  have at: "slots m1 ! u = (if u = x then Some (k, v) else if u = c then None else slots m ! u)"
    if "u < hm_cap m" for u using that d(2,3) by (simp add: m1 nth_list_update)
  let ?R = "occupied m - {c}"
  let ?f = "\<lambda>m s. disp m (fst (the (slots m ! s))) s"
  have occ: "occupied m1 = Set.insert x ?R" "x \<notin> ?R" "c \<in> occupied m"
    using at d(2-4) c by (auto simp: occupied_def cap split: if_splits)
  have same: "?f m1 s = ?f m s" if "s \<in> ?R" for s
    using that at [of s] d(4) by (auto simp: occupied_def path_cong [OF cap])
  have "sum (?f m1) ?R = sum (?f m) ?R" using same by (rule sum.cong [OF refl])
  then have "total_disp m1 = disp m k x + sum (?f m) ?R"
    unfolding total_disp_def occ(1) using occ(2) at [OF d(2)]
    by (simp add: path_cong [OF cap])
  also have "\<dots> < disp m k c + sum (?f m) ?R" using b by simp
  also have "\<dots> = total_disp m"
    unfolding total_disp_def using sum.remove [OF _ occ(3), of "?f m"] c by simp
  finally show "total_disp m1 < total_disp m" .
  show "entry_set m1 = entry_set m"
    unfolding entry_set_def cap
  proof (intro Collect_cong iffI; elim exE conjE)
    fix e t assume t: "t < hm_cap m" "slots m1 ! t = Some e"
    then show "\<exists>s<hm_cap m. slots m ! s = Some e"
      using at [OF t(1)] c d(3) by (auto split: if_splits)
  next
    fix e t assume t: "t < hm_cap m" "slots m ! t = Some e"
    then show "\<exists>s<hm_cap m. slots m1 ! s = Some e"
      using at [OF t(1)] at [OF d(2)] c d(2,4)
      by (intro exI [of _ "if t = c then x else t"]) auto
  qed
qed

lemma rehash_correct:
  assumes "hole_inv x c m"
  shows "\<exists>m'. rehash_after_delete c m = Some m' \<and> hm_ok m' \<and> hm_cap m' = hm_cap m \<and> entry_set m' = entry_set m"
  using assms
proof (induction "total_disp m * hm_cap m + gap m c x" arbitrary: m x c rule: less_induct)
  case less
  note h = less.prems
  note d = hole_invD [OF h]
  have next': "mask_index (hm_cap m) (c + 1) = (c + 1) mod hm_cap m" using mask_index_mod [OF d(1)] .
  show ?case
  proof (cases "slots m ! c")
    case None
    then show ?thesis using hole_closed [OF h] by (simp add: rehash_after_delete.simps)
  next
    case (Some e)
    then obtain k v where c: "slots m ! c = Some (k, v)" by (cases e) simp
    define m1 where m1: "m1 = snd (hm_insert k v (hm_vacate c m))"
    have unfold: "rehash_after_delete c m = rehash_after_delete ((c + 1) mod hm_cap m) m1"
      by (subst rehash_after_delete.simps) (use next' in \<open>simp add: c m1\<close>)
    show ?thesis
    proof (cases "disp m k x < disp m k c")
      case True
      note mv = rehash_move [OF h c True m1]
      note inv = rehash_move_inv [OF h c True mv]
      note td = total_disp_move [OF h c True mv(1)]
      have cap: "hm_cap m1 = hm_cap m" by (simp add: mv)
      have "gap m1 ((c + 1) mod hm_cap m) c < hm_cap m"
        using pow2_pos [OF d(1)] by (simp add: gap_def cap)
      then have "total_disp m1 * hm_cap m1 + gap m1 ((c + 1) mod hm_cap m) c < Suc (total_disp m1) * hm_cap m"
        by (simp add: cap)
      also have "\<dots> \<le> total_disp m * hm_cap m" using td(1) by (intro mult_le_mono1) simp
      finally show ?thesis using less.hyps [OF _ inv] unfold td(2) cap by simp
    next
      case False
      note st = rehash_stay [OF h c False]
      have m: "m1 = m" using st(1) m1 by simp
      have "x \<noteq> c" using c d(4) by auto
      then have "gap m ((c + 1) mod hm_cap m) x < gap m c x"
        using d(2,3) unfolding gap_def by (auto simp: circ_next circ_sub split: if_splits)
      then show ?thesis using less.hyps [OF _ st(2)] unfold m by simp
    qed
  qed
qed

lemma hm_ok_hole:
  assumes ok: "hm_ok m" and s: "s < hm_cap m" "slots m ! s = Some (k, v)"
  shows "hole_inv s ((s + 1) mod hm_cap m) (hm_vacate s m)"
    and "entry_set (hm_vacate s m) = entry_set m - {(k, v)}"
proof -
  let ?m = "hm_vacate s m"
  note p = hm_okD(1) [OF ok]
  have at: "slots ?m ! u = (if u = s then None else slots m ! u)" if "u < hm_cap m" for u
    using that s by (simp add: vacate_simps)
  have "reach {s} ?m j t" if t: "t < hm_cap m" "slots ?m ! t = Some (j, w)" for t j w
  proof (rule reachI)
    fix u assume u: "u < hm_cap ?m" "disp ?m j u < disp ?m j t"
    have "slots m ! t = Some (j, w)" using at [OF t(1)] t(2) by (simp split: if_splits)
    then have "reach {} m j t" using hm_okD(2) [OF ok] t(1) unfolding all_reach_def by blast
    then have "other_key m j u" using reachD [OF _ p, of "{}" j t u] u by simp
    then show "u \<in> {s} \<or> other_key ?m j u" using other_key_vacate [of u s m j] by auto
  qed (simp add: p)
  then have reach: "all_reach {s} ?m" by (simp add: all_reach_def)
  have "occupied ?m = occupied m - {s}" using at by (auto simp: occupied_def split: if_splits)
  moreover have "s \<in> occupied m" using s by (simp add: occupied_def)
  ultimately have size: "map_size ?m = card (occupied ?m)"
    using hm_okD(3) [OF ok] by (simp add: vacate_simps card_Diff_singleton)
  have "gap ?m ((s + 1) mod hm_cap m) t < gap ?m ((s + 1) mod hm_cap m) s"
    if "t < hm_cap m" "slots ?m ! t \<noteq> None" for t
    using that at [of t] s(1) unfolding gap_def vacate_cong by (intro circ_next_last) (auto split: if_splits)
  then show "hole_inv s ((s + 1) mod hm_cap m) ?m"
    using reach size p s(1) at [OF s(1)] pow2_pos [OF p] by (auto simp: hole_inv_def)
  show "entry_set ?m = entry_set m - {(k, v)}"
  proof (intro set_eqI iffI)
    fix e assume "e \<in> entry_set ?m"
    then obtain t where t: "t < hm_cap m" "slots ?m ! t = Some e" by (auto simp: entry_set_def)
    then have "t \<noteq> s" "slots m ! t = Some e" using at [OF t(1)] by (auto split: if_splits)
    then show "e \<in> entry_set m - {(k, v)}"
      using t entry_unique [OF p hm_okD(2) [OF ok], of t k v s v] s by (auto simp: entry_set_def)
  next
    fix e assume "e \<in> entry_set m - {(k, v)}"
    then obtain t where t: "t < hm_cap m" "slots m ! t = Some e" "e \<noteq> (k, v)" by (auto simp: entry_set_def)
    then have "t \<noteq> s" using s(2) by auto
    then show "e \<in> entry_set ?m" using t at [OF t(1)] by (auto simp: entry_set_def)
  qed
qed

lemma hm_find_entry: "hm_ok m \<Longrightarrow> hm_find k m = Some v \<longleftrightarrow> (k, v) \<in> entry_set m"
  by (simp add: hm_find_iff entry_set_def)

lemma hm_remove_loop_returns:
  assumes ok: "hm_ok m"
  shows "\<exists>b m'. hm_remove_loop k m = Some (b, m') \<and> hm_ok m' \<and> hm_cap m' = hm_cap m \<and>
    (b \<longleftrightarrow> hm_find k m \<noteq> None) \<and> entry_set m' = {e \<in> entry_set m. fst e \<noteq> k}"
proof (cases "\<exists>s v. probe k m = Some s \<and> slots m ! s = Some (k, v)")
  case True
  then obtain s v where s: "probe k m = Some s" "slots m ! s = Some (k, v)" by blast
  then have less: "s < hm_cap m" using ok by (simp add: probe_Some_iff)
  have f: "hm_find k m = Some v" using s by (simp add: hm_find_def)
  note h = hm_ok_hole [OF ok less s(2)]
  obtain m' where m': "rehash_after_delete ((s + 1) mod hm_cap m) (hm_vacate s m) = Some m'"
    "hm_ok m'" "hm_cap m' = hm_cap m" "entry_set m' = entry_set m - {(k, v)}"
    using rehash_correct [OF h(1)] h(2) by auto
  have "entry_set m - {(k, v)} = {e \<in> entry_set m. fst e \<noteq> k}"
    using f by (auto simp: hm_find_entry [OF ok, symmetric])
  then show ?thesis
    using m' s f mask_index_mod [OF hm_okD(1) [OF ok], of "s + 1"] by (auto simp: hm_remove_loop_def)
next
  case False
  then have no: "hm_remove_loop k m = Some (False, m)"
    using probe_at [OF hm_okD(1) [OF ok], of k] by (auto simp: hm_remove_loop_def split: option.splits)
  have "hm_find k m = None"
    using False probe_at [OF hm_okD(1) [OF ok], of k] by (auto simp: hm_find_def split: option.splits)
  moreover from this have "{e \<in> entry_set m. fst e \<noteq> k} = entry_set m"
    by (auto simp: hm_find_entry [OF ok, symmetric])
  ultimately show ?thesis using no ok by (intro exI [of _ False] exI [of _ m] conjI) simp_all
qed

lemma hm_remove_spec:
  assumes ok: "hm_ok m"
  shows "hm_ok (snd (hm_remove k m))" and "hm_cap (snd (hm_remove k m)) = hm_cap m"
    and "fst (hm_remove k m) \<longleftrightarrow> hm_find k m \<noteq> None"
    and "hm_find j (snd (hm_remove k m)) = (if j = k then None else hm_find j m)"
proof -
  obtain b m' where r: "hm_remove_loop k m = Some (b, m')" "hm_ok m'" "hm_cap m' = hm_cap m"
    "b \<longleftrightarrow> hm_find k m \<noteq> None" "entry_set m' = {e \<in> entry_set m. fst e \<noteq> k}"
    using hm_remove_loop_returns [OF ok, of k] by blast
  then show "hm_ok (snd (hm_remove k m))" "hm_cap (snd (hm_remove k m)) = hm_cap m"
    "fst (hm_remove k m) \<longleftrightarrow> hm_find k m \<noteq> None"
    by (simp_all add: hm_remove_def)
  have "hm_find j m' = Some v \<longleftrightarrow> (if j = k then None else hm_find j m) = Some v" for v
    using r(2,5) ok by (simp add: hm_find_entry)
  then show "hm_find j (snd (hm_remove k m)) = (if j = k then None else hm_find j m)"
    using r(1) by (simp add: hm_remove_def) (metis not_Some_eq)
qed

interpretation hm: capped_map hm_find hm_insert hm_remove map_size "\<lambda>m. length (slots m)" hm_ok
proof (unfold_locales, goal_cases)
  case (1 m k v)
  then obtain s where "probe k m = Some s" using probe_full_iff [of m k] by (cases "probe k m") auto
  then show ?case using hm_insert_find [OF 1(1)] by (auto simp: hm_insert_def fun_eq_iff)
next
  case (2 m k v)
  then have "probe k m = None" by (simp add: probe_full_iff)
  then show ?case by (simp add: hm_insert_def)
next
  case (9 m)
  then show ?case using occupied_find hm_okD(3) by metis
next
  case (10 m)
  have "{k. hm_find k m \<noteq> None} \<subseteq> fst ` the ` (\<lambda>s. slots m ! s) ` {..<hm_cap m}"
    using 10 by (force simp: hm_find_iff image_iff)
  then show ?case by (rule finite_subset) simp
qed (auto simp: hm_remove_spec hm_insert_ok fun_eq_iff)

section \<open>The table implements the specification\<close>

text \<open>
  C26. Over any sequence of insertions, removals and lookups on a table of \<^verbatim>\<open>2 ^ n\<close> slots, whatever
  the collisions, every returned value and the final contents are those of a finite map that refuses
  new keys only when it holds \<^verbatim>\<open>2 ^ n\<close> of them; in particular the re-insertion loop after a removal
  always ends and loses no entry.\<close>

theorem hash_map_refines:
  "fst (run_ops (impl_op hm_find hm_insert hm_remove) ops (hm_new (2 ^ n))) =
     fst (run_ops (spec_op (2 ^ n)) ops (\<lambda>k. None)) \<and>
   (\<lambda>k. hm_find k (snd (run_ops (impl_op hm_find hm_insert hm_remove) ops (hm_new (2 ^ n))))) =
     snd (run_ops (spec_op (2 ^ n)) ops (\<lambda>k. None))"
  using hm.run_refines [OF hm_new_ok [OF pow2_capacity_power], of ops n] by (simp add: pow2_capacity_power)

end
