(* ===== verification/Address.thy ===== *)
theory Address
  imports Netudp_Prelude
begin

text \<open>
  Addresses (\<^verbatim>\<open>netudp_types.h\<close>, \<^verbatim>\<open>core/address.h\<close>, \<^verbatim>\<open>core/address.cpp\<close>): the memory image, comparison,
  hashing, parsing and printing. A C string is a \<^typ>\<open>string\<close> without its terminator; the functions of
  the C library the parser calls are modelled with their white space, sign and prefix rules.
\<close>

section \<open>Addresses\<close>

definition NETUDP_ADDRESS_IPV4 :: byte where
  "NETUDP_ADDRESS_IPV4 = 1"

definition NETUDP_ADDRESS_IPV6 :: byte where
  "NETUDP_ADDRESS_IPV6 = 2"

record netudp_address =
  addr_data :: "byte list"
  addr_port :: u16
  addr_type :: byte
  addr_pad :: byte

definition address_zero :: netudp_address where
  "address_zero = \<lparr>addr_data = replicate 16 0, addr_port = 0, addr_type = 0, addr_pad = 0\<rparr>"

definition address_data_len :: "netudp_address \<Rightarrow> nat" where
  "address_data_len a =
     (if addr_type a = NETUDP_ADDRESS_IPV4 then 4 else if addr_type a = NETUDP_ADDRESS_IPV6 then 16 else 0)"

definition fnv_mix :: "u32 \<Rightarrow> byte \<Rightarrow> u32" where
  "fnv_mix h b = (h XOR ucast b) * 16777619"

definition address_hash :: "netudp_address \<Rightarrow> u32" where
  "address_hash a =
     (let h1 = fnv_mix 2166136261 (addr_type a);
          h2 = foldl fnv_mix h1 (take (address_data_len a) (addr_data a));
          h3 = fnv_mix h2 (ucast (addr_port a AND 0xFF))
      in fnv_mix h3 (ucast (drop_bit 8 (addr_port a) AND 0xFF)))"

definition netudp_address_equal :: "netudp_address \<Rightarrow> netudp_address \<Rightarrow> bool" where
  "netudp_address_equal a b \<longleftrightarrow>
     (if addr_type a \<noteq> addr_type b \<or> addr_port a \<noteq> addr_port b then False
      else let data_len = address_data_len a
        in if data_len = 0 then addr_type a = addr_type b
           else take data_len (addr_data a) = take data_len (addr_data b))"

text \<open>The bytes of the structure, the key of the address maps.\<close>

definition address_bytes :: "netudp_address \<Rightarrow> byte list" where
  "address_bytes a = addr_data a @ le_bytes 2 (addr_port a) @ [addr_type a, addr_pad a]"

section \<open>The functions of the C library\<close>

definition is_space :: "char \<Rightarrow> bool" where
  "is_space c \<longleftrightarrow> (let x = of_char c :: nat in x = 32 \<or> 9 \<le> x \<and> x \<le> 13)"

definition digit_val :: "char \<Rightarrow> nat" where
  "digit_val c =
     (let x = of_char c :: nat
      in if 48 \<le> x \<and> x \<le> 57 then x - 48 else if 97 \<le> x \<and> x \<le> 102 then x - 87
         else if 65 \<le> x \<and> x \<le> 70 then x - 55 else 255)"

definition is_digit :: "nat \<Rightarrow> char \<Rightarrow> bool" where
  "is_digit base c \<longleftrightarrow> digit_val c < base"

definition read_num :: "nat \<Rightarrow> string \<Rightarrow> nat" where
  "read_num base s = foldl (\<lambda>a c. a * base + digit_val c) 0 (takeWhile (is_digit base) s)"

definition read_sign :: "string \<Rightarrow> bool \<times> string" where
  "read_sign s =
     (case s of [] \<Rightarrow> (False, s)
      | c # cs \<Rightarrow> if of_char c = (45 :: nat) then (True, cs) else if of_char c = (43 :: nat) then (False, cs) else (False, s))"

definition atoi :: "string \<Rightarrow> int" where
  "atoi s = (let (neg, s1) = read_sign (dropWhile is_space s) in (if neg then - int (read_num 10 s1) else int (read_num 10 s1)))"

text \<open>
  \<^verbatim>\<open>strtoul\<close>: the value and the rest of the string, or \<^term>\<open>None\<close> when there is no digit and the end
  pointer is the start. Values that do not fit saturate; a minus sign negates modulo the word size.
\<close>

definition ulong :: "bool \<Rightarrow> nat \<Rightarrow> nat" where
  "ulong neg v = (if v \<ge> 2 ^ 64 then 2 ^ 64 - 1 else if neg then (2 ^ 64 - v) mod 2 ^ 64 else v)"

definition skip_0x :: "nat \<Rightarrow> string \<Rightarrow> string" where
  "skip_0x base s =
     (if base = 16 \<and> length s > 2 \<and> digit_val (s ! 0) = 0 \<and> of_char (s ! 1) \<in> {120, 88 :: nat} \<and> is_digit 16 (s ! 2)
      then drop 2 s else s)"

definition strtoul :: "nat \<Rightarrow> string \<Rightarrow> (nat \<times> string) option" where
  "strtoul base s =
     (let (neg, s1) = read_sign (dropWhile is_space s);
          s2 = skip_0x base s1
      in if s2 = [] \<or> \<not> is_digit base (hd s2) then None
         else Some (ulong neg (read_num base s2), dropWhile (is_digit base) s2))"

text \<open>\<^verbatim>\<open>sscanf\<close> with \<^verbatim>\<open>%u.%u.%u.%u\<close>: the four values when all conversions succeed.\<close>

fun scan_dotted :: "nat \<Rightarrow> string \<Rightarrow> u32 list option" where
  "scan_dotted 0 s = Some []"
| "scan_dotted (Suc n) s =
     (case strtoul 10 s of None \<Rightarrow> None
      | Some (v, rest) \<Rightarrow>
          if n = 0 then Some [of_nat v]
          else if rest \<noteq> [] \<and> of_char (hd rest) = (46 :: nat)
            then map_option ((#) (of_nat v)) (scan_dotted n (tl rest)) else None)"

definition split_last :: "char \<Rightarrow> string \<Rightarrow> (string \<times> string) option" where
  "split_last c s =
     (if c \<in> set s then Some (rev (tl (dropWhile (\<lambda>x. x \<noteq> c) (rev s))), rev (takeWhile (\<lambda>x. x \<noteq> c) (rev s))) else None)"

definition split_first :: "char \<Rightarrow> string \<Rightarrow> (string \<times> string) option" where
  "split_first c s =
     (if c \<in> set s then Some (takeWhile (\<lambda>x. x \<noteq> c) s, tl (dropWhile (\<lambda>x. x \<noteq> c) s)) else None)"

lemma read_sign_length: "read_sign s = (neg, s1) \<Longrightarrow> length s1 \<le> length s"
  by (auto simp: read_sign_def split: list.splits if_splits)

lemma strtoul_shorter:
  assumes "strtoul base s = Some (v, rest)"
  shows "length rest < length s"
proof -
  obtain neg s1 where s1: "read_sign (dropWhile is_space s) = (neg, s1)" by fastforce
  have l1: "length s1 \<le> length s"
    using read_sign_length [OF s1] length_dropWhile_le [of is_space s] by linarith
  define s2 where "s2 = skip_0x base s1"
  have s2: "length s2 \<le> length s1" "s2 \<noteq> []" "is_digit base (hd s2)" "rest = dropWhile (is_digit base) s2"
    using assms by (auto simp: strtoul_def s1 s2_def Let_def split: if_splits) (simp add: skip_0x_def)
  have "length rest < length s2"
    using s2 length_dropWhile_le [of "is_digit base" "tl s2"] by (cases s2) auto
  then show ?thesis using s2(1) l1 by simp
qed

section \<open>Parsing\<close>

text \<open>The loop over the groups of an IPv6 address, with the position of the double colon.\<close>

function ipv6_groups :: "string \<Rightarrow> u16 list \<Rightarrow> nat option \<Rightarrow> (u16 list \<times> nat option) option" where
  "ipv6_groups p groups dc =
     (if p = [] \<or> length groups \<ge> 8 then Some (groups, dc)
      else if take 2 p = ''::'' then
        if dc \<noteq> None then None
        else if drop 2 p = [] then Some (groups, Some (length groups))
        else ipv6_groups (drop 2 p) groups (Some (length groups))
      else let p1 = (if hd p = CHR '':'' then tl p else p)
        in case strtoul 16 p1 of None \<Rightarrow> None
           | Some (val, rest) \<Rightarrow>
               if val > 0xFFFF then None else ipv6_groups rest (groups @ [of_nat val]) dc)"
  by pat_completeness auto
termination
proof (relation "measure (\<lambda>(p, groups, dc). length p)", goal_cases)
  case (3 p groups dc p1 x val rest)
  then have "length rest < length p1" using strtoul_shorter by blast
  moreover have "length p1 \<le> length p" using 3 by simp
  ultimately show ?case by simp
qed auto

text \<open>The zeros of the double colon: the later groups move to the end.\<close>

definition expand_groups :: "u16 list \<Rightarrow> nat option \<Rightarrow> u16 list" where
  "expand_groups groups dc =
     (case dc of None \<Rightarrow> groups @ replicate (8 - length groups) 0
      | Some pos \<Rightarrow> take pos groups @ replicate (8 - length groups) 0 @ drop pos groups)"

definition group_bytes :: "u16 list \<Rightarrow> byte list" where
  "group_bytes groups = concat (map (le_bytes 2) groups)"

definition parse_ipv6 :: "string \<Rightarrow> netudp_address option" where
  "parse_ipv6 str =
     (case split_first (CHR '']'') str of None \<Rightarrow> None
      | Some (before, after) \<Rightarrow>
          let ipv6_str = tl before
          in if length ipv6_str = 0 \<or> length ipv6_str > 45 then None
             else if after = [] \<or> hd after \<noteq> CHR '':'' then None
             else let port = atoi (tl after)
               in if port \<le> 0 \<or> port > 65535 then None
                  else case ipv6_groups ipv6_str [] None of None \<Rightarrow> None
                    | Some (groups, dc) \<Rightarrow>
                        Some (address_zero\<lparr>addr_type := NETUDP_ADDRESS_IPV6, addr_port := of_int port,
                          addr_data := group_bytes (expand_groups groups dc)\<rparr>))"

definition parse_ipv4 :: "string \<Rightarrow> netudp_address option" where
  "parse_ipv4 str =
     (case split_last (CHR '':'') str of None \<Rightarrow> None
      | Some (ip_str, port_str) \<Rightarrow>
          let port = atoi port_str
          in if port \<le> 0 \<or> port > 65535 then None
             else if length ip_str = 0 \<or> length ip_str > 45 then None
             else if ip_str = ''0.0.0.0'' \<or> ip_str = ''::'' then
               Some (address_zero\<lparr>addr_type := (if ip_str = ''::'' then NETUDP_ADDRESS_IPV6 else NETUDP_ADDRESS_IPV4),
                 addr_port := of_int port\<rparr>)
             else case scan_dotted 4 ip_str of None \<Rightarrow> None
               | Some vs \<Rightarrow>
                   if \<exists>v\<in>set vs. v > 255 then None
                   else Some (address_zero\<lparr>addr_type := NETUDP_ADDRESS_IPV4, addr_port := of_int port,
                     addr_data := map ucast vs @ replicate 12 0\<rparr>))"

definition netudp_parse_address :: "string \<Rightarrow> netudp_address option" where
  "netudp_parse_address str = (if str \<noteq> [] \<and> hd str = CHR ''['' then parse_ipv6 str else parse_ipv4 str)"

section \<open>Printing\<close>

definition digit_char :: "nat \<Rightarrow> char" where
  "digit_char n = char_of (if n < 10 then 48 + n else 87 + n)"

fun print_num :: "nat \<Rightarrow> nat \<Rightarrow> string" where
  "print_num base n =
     (if base < 2 \<or> n < base then [digit_char n] else print_num base (n div base) @ [digit_char (n mod base)])"

fun join :: "char \<Rightarrow> string list \<Rightarrow> string" where
  "join c [] = []"
| "join c [s] = s"
| "join c (s # ss) = s @ c # join c ss"

definition ipv6_group :: "netudp_address \<Rightarrow> nat \<Rightarrow> u16" where
  "ipv6_group a i = of_le (read_at (2 * i) 2 (addr_data a))"

definition address_text :: "netudp_address \<Rightarrow> string" where
  "address_text a =
     (if addr_type a = NETUDP_ADDRESS_IPV4 then
        join (CHR ''.'') (map (\<lambda>i. print_num 10 (unat (addr_data a ! i))) [0..<4]) @
          CHR '':'' # print_num 10 (unat (addr_port a))
      else if addr_type a = NETUDP_ADDRESS_IPV6 then
        CHR ''['' # join (CHR '':'') (map (\<lambda>i. print_num 16 (unat (ipv6_group a i))) [0..<8]) @
          '']:'' @ print_num 10 (unat (addr_port a))
      else ''none:0'')"

text \<open>\<^verbatim>\<open>snprintf\<close> keeps \<^verbatim>\<open>buf_len - 1\<close> characters.\<close>

definition netudp_address_to_string :: "netudp_address \<Rightarrow> nat \<Rightarrow> string" where
  "netudp_address_to_string a buf_len = (if buf_len < 2 then [] else take (buf_len - 1) (address_text a))"

section \<open>Numerals\<close>

lemma digit_char_code: "n < 16 \<Longrightarrow> of_char (digit_char n) = (if n < 10 then 48 + n else 87 + n)"
  by (simp add: digit_char_def)

lemma digit_val_char: "n < 16 \<Longrightarrow> digit_val (digit_char n) = n"
  by (simp add: digit_val_def digit_char_code Let_def)

lemma digit_char_plain:
  assumes "n < 16"
  shows "\<not> is_space (digit_char n)" "digit_char n \<noteq> CHR '':''" "digit_char n \<noteq> CHR ''.''"
    "digit_char n \<noteq> CHR ''[''" "digit_char n \<noteq> CHR '']''" "of_char (digit_char n) \<noteq> (45 :: nat)"
    "of_char (digit_char n) \<noteq> (43 :: nat)" "of_char (digit_char n) \<noteq> (120 :: nat)" "of_char (digit_char n) \<noteq> (88 :: nat)"
proof -
  note c = digit_char_code [OF assms]
  have "digit_char n \<noteq> ch" if "of_char ch \<noteq> (if n < 10 then 48 + n else 87 + n :: nat)" for ch
    using c that by auto
  then show "digit_char n \<noteq> CHR '':''" "digit_char n \<noteq> CHR ''.''" "digit_char n \<noteq> CHR ''[''" "digit_char n \<noteq> CHR '']''"
    by (auto simp: of_char_def)
qed (use digit_char_code [OF assms] assms in \<open>auto simp: is_space_def Let_def\<close>)

declare print_num.simps [simp del]

lemma print_num_set:
  "2 \<le> b \<Longrightarrow> c \<in> set (print_num b n) \<Longrightarrow> \<exists>d<b. c = digit_char d"
proof (induction b n rule: print_num.induct)
  case (1 base n)
  show ?case
  proof (cases "n < base")
    case False
    then have "c \<in> set (print_num base (n div base)) \<or> c = digit_char (n mod base)"
      using "1.prems" by (subst (asm) print_num.simps) auto
    moreover have "n mod base < base" using "1.prems"(1) by simp
    moreover have "c \<in> set (print_num base (n div base)) \<Longrightarrow> \<exists>d<base. c = digit_char d"
      using 1 False by simp
    ultimately show ?thesis by blast
  qed (use "1.prems" in \<open>auto simp: print_num.simps\<close>)
qed

lemma print_num_digits:
  assumes "2 \<le> b" "b \<le> 16" and "c \<in> set (print_num b n)"
  obtains d where "d < b" "c = digit_char d"
  using print_num_set [OF assms(1,3)] by blast

lemma print_num_nonempty [simp]: "print_num b n \<noteq> []"
  by (subst print_num.simps) simp

lemma print_num_value:
  "2 \<le> b \<Longrightarrow> b \<le> 16 \<Longrightarrow> foldl (\<lambda>a c. a * b + digit_val c) 0 (print_num b n) = n"
proof (induction b n rule: print_num.induct)
  case (1 base n)
  have "n mod base < base" using "1.prems"(1) by simp
  then have d: "digit_val (digit_char (n mod base)) = n mod base"
    using "1.prems"(2) by (intro digit_val_char) linarith
  from 1 show ?case
    by (cases "n < base") (simp_all add: print_num.simps [of base n] d digit_val_char)
qed

lemma print_num_length: "2 \<le> b \<Longrightarrow> n < b ^ Suc k \<Longrightarrow> length (print_num b n) \<le> Suc k"
proof (induction k arbitrary: n)
  case 0
  then show ?case by (subst print_num.simps) simp
next
  case (Suc k)
  show ?case
  proof (cases "n < b")
    case False
    have "n div b < b ^ Suc k" using Suc.prems by (simp add: less_mult_imp_div_less mult.commute)
    then show ?thesis using Suc False by (subst print_num.simps) simp
  qed (subst print_num.simps, simp)
qed

lemma print_num_all:
  "2 \<le> b \<Longrightarrow> b \<le> 16 \<Longrightarrow> c \<in> set (print_num b n) \<Longrightarrow> is_digit b c"
  by (erule print_num_digits) (auto simp: is_digit_def digit_val_char)

lemma print_num_hd:
  assumes "2 \<le> b" "b \<le> 16"
  obtains d where "d < 16" "hd (print_num b n) = digit_char d"
proof -
  have "hd (print_num b n) \<in> set (print_num b n)" by simp
  with assms obtain d where "d < b" "hd (print_num b n) = digit_char d" by (rule print_num_digits)
  then show ?thesis using that [of d] assms(2) by simp
qed

lemma print_num_takes:
  assumes b: "2 \<le> b" "b \<le> 16" and rest: "rest = [] \<or> \<not> is_digit b (hd rest)"
  shows "takeWhile (is_digit b) (print_num b n @ rest) = print_num b n"
    and "dropWhile (is_digit b) (print_num b n @ rest) = rest"
proof -
  have all: "\<And>c. c \<in> set (print_num b n) \<Longrightarrow> is_digit b c" using print_num_all [OF b] .
  have "takeWhile (is_digit b) rest = []" "dropWhile (is_digit b) rest = rest"
    using rest by (cases rest; simp)+
  then show "takeWhile (is_digit b) (print_num b n @ rest) = print_num b n"
    "dropWhile (is_digit b) (print_num b n @ rest) = rest"
    using all by (simp_all add: takeWhile_append dropWhile_append)
qed

lemma print_num_prefix:
  assumes b: "2 \<le> b" "b \<le> 16"
  shows "read_sign (dropWhile is_space (print_num b n @ rest)) = (False, print_num b n @ rest)"
proof -
  obtain d where d: "d < 16" "hd (print_num b n) = digit_char d" using print_num_hd [OF b] .
  then obtain cs where cs: "print_num b n = digit_char d # cs" by (cases "print_num b n") auto
  show ?thesis using digit_char_plain [OF d(1)] by (simp add: cs read_sign_def)
qed

lemma skip_0x_print:
  assumes "rest = [] \<or> of_char (hd rest) \<notin> {120, 88 :: nat}"
  shows "skip_0x 16 (print_num 16 n @ rest) = print_num 16 n @ rest"
proof (cases "length (print_num 16 n) < 2")
  case True
  then obtain c where "print_num 16 n = [c]" by (cases "print_num 16 n") (auto simp: less_Suc_eq)
  then show ?thesis using assms by (cases rest) (auto simp: skip_0x_def)
next
  case False
  then have "print_num 16 n ! 1 \<in> set (print_num 16 n)" by (intro nth_mem) simp
  then obtain d where "d < 16" "print_num 16 n ! 1 = digit_char d"
    by (rule print_num_digits [rotated 2]) auto
  then show ?thesis using False digit_char_plain(8,9) [of d] by (simp add: skip_0x_def nth_append)
qed

lemma strtoul_print:
  assumes "b = 10 \<or> b = 16" and "n < 2 ^ 64" and "rest = [] \<or> \<not> is_digit b (hd rest) \<and> of_char (hd rest) \<notin> {120, 88 :: nat}"
  shows "strtoul b (print_num b n @ rest) = Some (n, rest)"
proof -
  have b: "2 \<le> b" "b \<le> 16" using assms(1) by auto
  have rest: "rest = [] \<or> \<not> is_digit b (hd rest)" using assms(3) by blast
  have skip: "skip_0x b (print_num b n @ rest) = print_num b n @ rest"
    using assms(1,3) skip_0x_print [of rest n] by (auto simp: skip_0x_def)
  have "is_digit b (hd (print_num b n))" by (rule print_num_all [OF b, of _ n]) simp
  then show ?thesis
    using print_num_prefix [OF b, of n rest] print_num_takes [OF b rest, of n] print_num_value [OF b, of n] assms(2)
    by (simp add: strtoul_def skip read_num_def ulong_def Let_def)
qed

lemma atoi_print: "atoi (print_num 10 n) = int n"
  using print_num_prefix [of 10 n "[]"] print_num_takes [of 10 "[]" n] print_num_value [of 10 n]
  by (simp add: atoi_def read_num_def del: takeWhile_eq_all_conv)

section \<open>Round trip\<close>

definition address_valid :: "netudp_address \<Rightarrow> bool" where
  "address_valid a \<longleftrightarrow> addr_port a \<noteq> 0 \<and> addr_pad a = 0 \<and> length (addr_data a) = 16 \<and>
     (addr_type a = NETUDP_ADDRESS_IPV4 \<and> drop 4 (addr_data a) = replicate 12 0 \<or> addr_type a = NETUDP_ADDRESS_IPV6)"

lemma dot_not_digit: "\<not> is_digit 10 (CHR ''.'')" "of_char (CHR ''.'') \<notin> {120, 88 :: nat}"
  "\<not> is_digit 16 (CHR '':'')" "of_char (CHR '':'') \<notin> {120, 88 :: nat}"
  by (simp_all add: is_digit_def digit_val_def of_char_def Let_def)

lemma scan_dotted_step:
  "n < 2 ^ 64 \<Longrightarrow> scan_dotted (Suc (Suc k)) (print_num 10 n @ CHR ''.'' # rest) =
     map_option ((#) (of_nat n)) (scan_dotted (Suc k) rest)"
  "n < 2 ^ 64 \<Longrightarrow> scan_dotted (Suc 0) (print_num 10 n) = Some [of_nat n]"
  using strtoul_print [of 10 n "CHR ''.'' # rest"] strtoul_print [of 10 n "[]"] dot_not_digit
  by (simp_all add: of_char_def)

lemma print_num_no:
  assumes "2 \<le> b" "b \<le> 16" and "\<And>d. d < 16 \<Longrightarrow> digit_char d \<noteq> c"
  shows "c \<notin> set (print_num b n)"
proof
  assume "c \<in> set (print_num b n)"
  then obtain d where "d < b" "c = digit_char d" by (rule print_num_digits [OF assms(1,2)])
  then show False using assms(2,3) by (metis less_le_trans)
qed

lemma split_last_append: "c \<notin> set q \<Longrightarrow> split_last c (p @ c # q) = Some (p, q)"
  by (simp add: split_last_def takeWhile_tail dropWhile_append3 dropWhile_append takeWhile_append)

lemma split_first_append: "c \<notin> set p \<Longrightarrow> split_first c (p @ c # q) = Some (p, q)"
  by (simp add: split_first_def takeWhile_tail dropWhile_append3 dropWhile_append takeWhile_append)

lemma port_parse:
  assumes "addr_port a \<noteq> 0"
  shows "\<not> (atoi (print_num 10 (unat (addr_port a))) \<le> 0 \<or> atoi (print_num 10 (unat (addr_port a))) > 65535)"
    and "of_int (atoi (print_num 10 (unat (addr_port a)))) = addr_port a"
proof -
  have "0 < unat (addr_port a)" using assms by (simp add: unat_gt_0)
  moreover have "unat (addr_port a) < 65536" using unsigned_less [of "addr_port a"] by simp
  ultimately show "\<not> (atoi (print_num 10 (unat (addr_port a))) \<le> 0 \<or> atoi (print_num 10 (unat (addr_port a))) > 65535)"
    by (simp_all add: atoi_print del: of_nat_unat)
  show "of_int (atoi (print_num 10 (unat (addr_port a)))) = addr_port a" by (simp add: atoi_print)
qed

lemma ucast_ucast_id_up: "ucast (ucast b :: u32) = b" for b :: byte
  by (rule bit_eqI) (auto simp: bit_ucast_iff dest: bit_imp_le_length)

lemma ipv4_parse:
  fixes b0 b1 b2 b3 :: byte and port :: string
  assumes t: "t = join (CHR ''.'') (map (\<lambda>b. print_num 10 (unat b)) [b0, b1, b2, b3])"
    and port: "CHR '':'' \<notin> set port" "\<not> (atoi port \<le> 0 \<or> atoi port > 65535)"
  shows "parse_ipv4 (t @ CHR '':'' # port) =
    Some (address_zero\<lparr>addr_type := NETUDP_ADDRESS_IPV4, addr_port := of_int (atoi port),
      addr_data := [b0, b1, b2, b3] @ replicate 12 0\<rparr>)"
proof -
  have byte: "unat b < 256" for b :: byte using unsigned_less [where 'a = nat, of b] by simp
  have small: "unat b < 2 ^ 64" "unat b < 10 ^ Suc 2" "\<not> 255 < (ucast b :: u32)" for b :: byte
    using byte [of b] by (simp_all add: word_less_nat_alt unsigned_ucast_eq take_bit_nat_eq_self)
  have len: "length (print_num 10 (unat b)) \<le> 3" for b :: byte
    using print_num_length [of 10 "unat b" 2] small(2) [of b] by simp
  have four: "4 = Suc (Suc (Suc (Suc 0)))" by simp
  have scan: "scan_dotted 4 t = Some (map (\<lambda>b. of_nat (unat b)) [b0, b1, b2, b3])"
    unfolding four t using small(1) by (simp add: scan_dotted_step del: scan_dotted.simps)
  have "length t \<le> 45" "t \<noteq> []" using len [of b0] len [of b1] len [of b2] len [of b3] by (simp_all add: t)
  moreover have "t \<noteq> ''::''" using scan unfolding four by (auto simp: strtoul_def is_space_def of_char_def
        read_sign_def skip_0x_def is_digit_def digit_val_def)
  moreover have "[b0, b1, b2, b3] = [0, 0, 0, 0]" if z: "t = ''0.0.0.0''"
  proof -
    have "digit_char 0 = CHR ''0''" by code_simp
    then have zero: "print_num 10 0 = ''0''" by (simp add: print_num.simps)
    have "''0.0.0.0'' = join (CHR ''.'') (map (\<lambda>b. print_num 10 (unat b)) [0 :: byte, 0, 0, 0])" by (simp add: zero)
    then have "scan_dotted 4 ''0.0.0.0'' = Some [0, 0, 0, 0]"
      unfolding four using small(1) [of 0] by (simp add: scan_dotted_step del: scan_dotted.simps)
    then have "map (\<lambda>b. of_nat (unat b) :: u32) [b0, b1, b2, b3] = [0, 0, 0, 0]" using scan z by simp
    moreover have "b = 0" if "(ucast b :: u32) = 0" for b :: byte
      using that by (metis ucast_0 ucast_ucast_id_up)
    ultimately show ?thesis by simp
  qed
  moreover have "(\<exists>v\<in>set (map (\<lambda>b. of_nat (unat b) :: u32) [b0, b1, b2, b3]). v > 255) = False"
    using small(3) by simp
  moreover have "replicate 16 (0 :: byte) = [0, 0, 0, 0] @ replicate 12 0"
    by (simp add: eval_nat_numeral)
  ultimately show ?thesis
    unfolding parse_ipv4_def split_last_append [OF port(1)] using port(2) scan
    by (cases "t = ''0.0.0.0''") (simp_all add: address_zero_def Let_def ucast_ucast_id_up)
qed

declare ipv6_groups.simps [simp del]

text \<open>The groups after the first, each behind its colon.\<close>

definition colon_groups :: "u16 list \<Rightarrow> string" where
  "colon_groups gs = concat (map (\<lambda>g. CHR '':'' # print_num 16 (unat g)) gs)"

lemma join_groups: "join (CHR '':'') (map (\<lambda>g. print_num 16 (unat g)) (g # gs)) = print_num 16 (unat g) @ colon_groups gs"
proof (induction gs arbitrary: g)
  case (Cons h gs)
  then show ?case by (simp add: colon_groups_def)
qed (simp add: colon_groups_def)

lemma group_step:
  fixes g :: u16
  assumes "p = print_num 16 (unat g) @ colon_groups gs \<or> p = CHR '':'' # print_num 16 (unat g) @ colon_groups gs"
    and "length acc < 8"
  shows "ipv6_groups p acc None = ipv6_groups (colon_groups gs) (acc @ [g]) None"
proof -
  have g: "unat g < 65536" using unsigned_less [where 'a = nat, of g] by simp
  obtain d where "d < 16" "hd (print_num 16 (unat g)) = digit_char d" by (rule print_num_hd [of 16]) auto
  then obtain c cs where cs: "print_num 16 (unat g) = c # cs" "c \<noteq> CHR '':''"
    using digit_char_plain(2) by (cases "print_num 16 (unat g)") auto
  have rest: "colon_groups gs = [] \<or> \<not> is_digit 16 (hd (colon_groups gs)) \<and> of_char (hd (colon_groups gs)) \<notin> {120, 88 :: nat}"
    using dot_not_digit by (cases gs) (auto simp: colon_groups_def)
  have st: "strtoul 16 (print_num 16 (unat g) @ colon_groups gs) = Some (unat g, colon_groups gs)"
    using strtoul_print [OF _ _ rest, of "unat g"] g by simp
  show ?thesis
    using assms g st cs
    by (elim disjE) (subst ipv6_groups.simps, simp add: Let_def)+
qed

lemma groups_loop: "length acc + length gs \<le> 8 \<Longrightarrow> ipv6_groups (colon_groups gs) acc None = Some (acc @ gs, None)"
proof (induction gs arbitrary: acc)
  case Nil
  then show ?case by (simp add: ipv6_groups.simps [of "colon_groups []"]) (simp add: colon_groups_def)
next
  case (Cons g gs)
  have "ipv6_groups (colon_groups (g # gs)) acc None = ipv6_groups (colon_groups gs) (acc @ [g]) None"
    using Cons.prems by (intro group_step) (auto simp: colon_groups_def)
  then show ?case using Cons by simp
qed

lemma concat_pairs: "concat (map (\<lambda>i. read_at (2 * i) 2 d) [0..<n]) = take (2 * n) d"
proof (induction n)
  case (Suc n)
  have "take (2 * Suc n) d = take (2 * n) d @ take 2 (drop (2 * n) d)"
    by (metis add.commute mult_Suc_right take_add)
  then show ?case using Suc by (simp add: read_at_def)
qed simp

lemma group_bytes_groups:
  assumes "length (addr_data a) = 16"
  shows "group_bytes (map (ipv6_group a) [0..<8]) = addr_data a"
proof -
  have "le_bytes 2 (ipv6_group a i) = read_at (2 * i) 2 (addr_data a)" if "i < 8" for i
    using that assms unfolding ipv6_group_def by (intro le_bytes_of_le) auto
  then have "map (le_bytes 2 \<circ> ipv6_group a) [0..<8] = map (\<lambda>i. read_at (2 * i) 2 (addr_data a)) [0..<8]"
    by simp
  then have "group_bytes (map (ipv6_group a) [0..<8]) = concat (map (\<lambda>i. read_at (2 * i) 2 (addr_data a)) [0..<8])"
    unfolding group_bytes_def map_map by (rule arg_cong)
  then show ?thesis using concat_pairs [of "addr_data a" 8] assms by simp
qed

lemma print_num_no_special:
  "CHR '':'' \<notin> set (print_num 10 n)" "CHR '']'' \<notin> set (print_num 16 n)" "CHR '']'' \<notin> set (print_num 10 n)"
  by (rule print_num_no; simp add: digit_char_plain)+

lemma group_length: "length (print_num 16 (unat h)) \<le> 4" for h :: u16
  using print_num_length [of 16 "unat h" 3] unsigned_less [where 'a = nat, of h] by simp

lemma colon_groups_length: "length (colon_groups hs) \<le> 5 * length hs"
proof (induction hs)
  case (Cons h hs)
  then show ?case using group_length [of h] by (simp add: colon_groups_def)
qed (simp add: colon_groups_def)

lemma group_text_length:
  fixes gs :: "u16 list"
  assumes "length gs = 8"
  shows "length (join (CHR '':'') (map (\<lambda>g. print_num 16 (unat g)) gs)) \<le> 45"
proof -
  obtain g gr where g: "gs = g # gr" using assms by (cases gs) auto
  then show ?thesis
    using assms group_length [of g] colon_groups_length [of gr] by (simp only: g join_groups) simp
qed

lemma byte_text_length: "length (print_num 10 (unat b)) \<le> 3" for b :: byte
  using print_num_length [of 10 "unat b" 2] unsigned_less [where 'a = nat, of b] by simp

lemma ipv4_data:
  assumes "length d = 16" and "drop 4 d = replicate 12 0"
  shows "d = [d ! 0, d ! 1, d ! 2, d ! 3] @ replicate 12 0"
proof -
  have "take 4 d = [d ! 0, d ! 1, d ! 2, d ! 3]"
    by (rule nth_equalityI) (use assms(1) in \<open>auto simp: nth_Cons numeral_eq_Suc less_Suc_eq split: nat.split\<close>)
  then show ?thesis using append_take_drop_id [of 4 d] assms(2) by simp
qed

lemma ipv4_text_hd: "hd (print_num 10 n) \<noteq> CHR ''[''"
proof -
  obtain d where "d < 16" "hd (print_num 10 n) = digit_char d" by (rule print_num_hd [of 10]) auto
  then show ?thesis using digit_char_plain(4) by simp
qed

lemma ipv6_parse:
  fixes gs :: "u16 list" and port :: string
  assumes t: "t = join (CHR '':'') (map (\<lambda>g. print_num 16 (unat g)) gs)" and gs: "length gs = 8"
    and port: "\<not> (atoi port \<le> 0 \<or> atoi port > 65535)"
  shows "parse_ipv6 (CHR ''['' # t @ '']:'' @ port) =
    Some (address_zero\<lparr>addr_type := NETUDP_ADDRESS_IPV6, addr_port := of_int (atoi port), addr_data := group_bytes gs\<rparr>)"
proof -
  obtain g gr where g: "gs = g # gr" using gs by (cases gs) auto
  have jt: "t = print_num 16 (unat g) @ colon_groups gr" using t by (simp only: g join_groups)
  have "ipv6_groups t [] None = Some (gs, None)"
    using group_step [of t g gr "[]"] groups_loop [of "[g]" gr] jt gs by (simp add: g)
  moreover have "CHR '']'' \<notin> set (CHR ''['' # t)"
    using print_num_no_special(2) by (auto simp: jt colon_groups_def)
  then have "split_first (CHR '']'') (CHR ''['' # t @ '']:'' @ port) = Some (CHR ''['' # t, CHR '':'' # port)"
    using split_first_append [of "CHR '']''" "CHR ''['' # t" "CHR '':'' # port"] by simp
  moreover have "length t \<le> 45" "t \<noteq> []" using group_text_length [OF gs] by (simp_all add: t [symmetric]) (simp add: jt)
  ultimately show ?thesis
    using port gs by (simp add: parse_ipv6_def Let_def expand_groups_def)
qed

text \<open>Whatever the text, an address the parser returns is well-formed.\<close>

lemma scan_dotted_length: "scan_dotted n s = Some vs \<Longrightarrow> length vs = n"
  by (induction n s arbitrary: vs rule: scan_dotted.induct) (auto split: option.splits if_splits)

lemma ipv6_groups_bound:
  "ipv6_groups p groups dc = Some (gs, dc') \<Longrightarrow> length groups \<le> 8 \<Longrightarrow> (\<forall>d. dc = Some d \<longrightarrow> d \<le> length groups) \<Longrightarrow>
     length gs \<le> 8 \<and> (\<forall>d. dc' = Some d \<longrightarrow> d \<le> length gs)"
proof (induction p groups dc rule: ipv6_groups.induct)
  case (1 p groups dc)
  show ?case
  proof (cases "p = [] \<or> length groups \<ge> 8")
    case True
    then show ?thesis using "1.prems" by (simp add: ipv6_groups.simps [of p])
  next
    case False
    show ?thesis
    proof (cases "take 2 p = ''::''")
      case True
      then show ?thesis
        using "1.prems" "1.IH"(1) False by (auto simp: ipv6_groups.simps [of p] split: if_splits)
    next
      case nd: False
      obtain val rest where st: "strtoul 16 (if hd p = CHR '':'' then tl p else p) = Some (val, rest)" "\<not> val > 0xFFFF"
        and rec: "ipv6_groups rest (groups @ [of_nat val]) dc = Some (gs, dc')"
        using "1.prems"(1) False nd
        by (subst (asm) ipv6_groups.simps) (auto simp: Let_def split: option.splits if_splits)
      show ?thesis
        using "1.IH"(2) [OF False nd refl st(1) refl st(2) rec] "1.prems"(2,3) False by fastforce
    qed
  qed
qed

lemma parse_address_valid: "netudp_parse_address str = Some a \<Longrightarrow> address_valid a"
proof -
  have nz: "(of_int p :: u16) \<noteq> 0" if "\<not> (p \<le> 0 \<or> 65535 < p)" for p :: int
    using that by (simp add: word_of_int_eq_0_iff zdvd_not_zless)
  assume p: "netudp_parse_address str = Some a"
  show ?thesis
  proof (cases "str \<noteq> [] \<and> hd str = CHR ''[''")
    case True
    then have "parse_ipv6 str = Some a" using p by (simp add: netudp_parse_address_def)
    then obtain t port gs dc where g: "ipv6_groups t [] None = Some (gs, dc)" "\<not> (port \<le> 0 \<or> 65535 < port)"
      "a = address_zero\<lparr>addr_type := NETUDP_ADDRESS_IPV6, addr_port := of_int port, addr_data := group_bytes (expand_groups gs dc)\<rparr>"
      by (auto simp: parse_ipv6_def Let_def split: option.splits if_splits)
    have "length (expand_groups gs dc) = 8"
      using ipv6_groups_bound [OF g(1)] by (auto simp: expand_groups_def split: option.splits)
    then have "length (group_bytes (expand_groups gs dc)) = 16"
      by (simp add: group_bytes_def length_concat comp_def sum_list_triv)
    then show ?thesis using g nz by (simp add: address_valid_def address_zero_def)
  next
    case False
    then have p4: "parse_ipv4 str = Some a" using p by (auto simp: netudp_parse_address_def)
    then obtain port where "\<not> (port \<le> 0 \<or> 65535 < port)" "addr_port a = of_int port" "addr_pad a = 0"
      by (auto simp: parse_ipv4_def Let_def address_zero_def split: option.splits if_splits)
    moreover have "length (addr_data a) = 16 \<and> (addr_type a = NETUDP_ADDRESS_IPV4 \<and> drop 4 (addr_data a) = replicate 12 0 \<or>
        addr_type a = NETUDP_ADDRESS_IPV6)"
      using p4 by (auto simp: parse_ipv4_def Let_def address_zero_def dest!: scan_dotted_length split: option.splits if_splits)
    ultimately show ?thesis using nz by (simp add: address_valid_def)
  qed
qed

lemma parse_to_string:
  assumes "address_valid a"
  shows "netudp_parse_address (netudp_address_to_string a 64) = Some a"
proof -
  note v = assms [unfolded address_valid_def]
  have nz: "addr_port a \<noteq> 0" using v by simp
  note port = port_parse [OF nz]
  have len: "length (print_num 10 (unat (addr_port a))) \<le> 5"
    using print_num_length [of 10 "unat (addr_port a)" 4] unsigned_less [where 'a = nat, of "addr_port a"] by simp
  show ?thesis
  proof (cases "addr_type a = NETUDP_ADDRESS_IPV4")
    case True
    have u: "[0..<4] = [0, 1, 2, 3 :: nat]" by (simp add: upt_rec)
    have data: "addr_data a = [addr_data a ! 0, addr_data a ! 1, addr_data a ! 2, addr_data a ! 3] @ replicate 12 0"
      using v True ipv4_data by (auto simp: NETUDP_ADDRESS_IPV4_def NETUDP_ADDRESS_IPV6_def)
    note p = ipv4_parse [OF refl print_num_no_special(1) port(1)]
    have "netudp_parse_address (address_text a) = Some a"
      using p [of "addr_data a ! 0" "addr_data a ! 1" "addr_data a ! 2" "addr_data a ! 3"] True v port(2) data
      by (simp add: netudp_parse_address_def address_text_def u ipv4_text_hd address_zero_def)
    moreover have "length (address_text a) \<le> 63"
      using len byte_text_length [of "addr_data a ! 0"] byte_text_length [of "addr_data a ! 1"]
        byte_text_length [of "addr_data a ! 2"] byte_text_length [of "addr_data a ! 3"] True
      by (simp add: address_text_def u)
    ultimately show ?thesis by (simp add: netudp_address_to_string_def)
  next
    case False
    then have t: "addr_type a = NETUDP_ADDRESS_IPV6" "length (addr_data a) = 16" using v by auto
    let ?gs = "map (ipv6_group a) [0..<8]"
    have form: "address_text a = CHR ''['' # join (CHR '':'') (map (\<lambda>g. print_num 16 (unat g)) ?gs) @ '']:'' @
      print_num 10 (unat (addr_port a))"
      using False t by (simp add: address_text_def comp_def)
    have "netudp_parse_address (address_text a) = Some a"
      unfolding netudp_parse_address_def form using ipv6_parse [OF refl _ port(1), of ?gs] port(2) t v
      by (simp add: group_bytes_groups address_zero_def)
    moreover have "length (address_text a) \<le> 63"
      using group_text_length [of ?gs] len by (simp add: form)
    ultimately show ?thesis by (simp add: netudp_address_to_string_def)
  qed
qed

text \<open>
  C27. Printing an address and parsing the text gives the address back: for every IPv4 address, the
  unspecified one included, and every IPv6 address, with every port but zero, the parser accepts the
  text the printer produces in a buffer of 64 bytes and returns the same structure.\<close>

theorem address_round_trip:
  assumes "address_valid a"
  shows "netudp_parse_address (netudp_address_to_string a 64) = Some a"
  by (rule parse_to_string [OF assms])

theorem address_round_trip_witness:
  "netudp_parse_address (netudp_address_to_string
     (address_zero\<lparr>addr_type := 1, addr_port := 7777, addr_data := [192, 168, 1, 100] @ replicate 12 0\<rparr>) 64) =
   Some (address_zero\<lparr>addr_type := 1, addr_port := 7777, addr_data := [192, 168, 1, 100] @ replicate 12 0\<rparr>)"
  by (rule address_round_trip) (simp add: address_valid_def address_zero_def NETUDP_ADDRESS_IPV4_def)

end
