(* ===== verification/Rate_Limiter.thy ===== *)
theory Rate_Limiter
  imports Hash_Map Address
begin

text \<open>
  The token buckets of \<^verbatim>\<open>connection/rate_limiter.h\<close>, kept in a hash map from address keys. The proofs
  rest on the contract of the map only.
\<close>

section \<open>Operations\<close>

record RateBucket =
  rl_tokens :: real
  rl_last_refill_time :: real
  rl_last_activity_time :: real

type_synonym RateLimiter = "RateBucket FixedHashMap"

definition RATE :: real where
  "RATE = 60"

definition BURST :: real where
  "BURST = 10"

definition EXPIRY_SEC :: real where
  "EXPIRY_SEC = 30"

definition limiter_new :: RateLimiter where
  "limiter_new = hm_new 4096"

definition make_key :: "netudp_address \<Rightarrow> key" where
  "make_key a =
     write_at 17 (le_bytes 2 (addr_port a))
       (write_at 1 (take (address_data_len a) (addr_data a)) ((replicate 20 0)[0 := addr_type a]))"

definition refill_bucket :: "real \<Rightarrow> RateBucket \<Rightarrow> RateBucket" where
  "refill_bucket now b =
     (let elapsed = now - rl_last_refill_time b
      in if elapsed > 0 then
           b\<lparr>rl_tokens := (if rl_tokens b + RATE * elapsed > BURST then BURST else rl_tokens b + RATE * elapsed),
             rl_last_refill_time := now\<rparr>
         else b)"

definition allow :: "netudp_address \<Rightarrow> real \<Rightarrow> RateLimiter \<Rightarrow> bool \<times> RateLimiter" where
  "allow addr now rl =
     (let k = make_key addr
      in case hm_find k rl of
           None \<Rightarrow>
             (True, snd (hm_insert k \<lparr>rl_tokens = BURST - 1, rl_last_refill_time = now, rl_last_activity_time = now\<rparr> rl))
         | Some bucket \<Rightarrow>
             let b1 = (refill_bucket now bucket)\<lparr>rl_last_activity_time := now\<rparr>
             in if rl_tokens b1 \<ge> 1
                then (True, snd (hm_insert k (b1\<lparr>rl_tokens := rl_tokens b1 - 1\<rparr>) rl))
                else (False, snd (hm_insert k b1 rl)))"

definition expired_keys :: "real \<Rightarrow> RateLimiter \<Rightarrow> key list" where
  "expired_keys now rl =
     take 64 (map fst (filter (\<lambda>(k, b). now - rl_last_activity_time b > EXPIRY_SEC) (hm_entries rl)))"

definition cleanup :: "real \<Rightarrow> RateLimiter \<Rightarrow> RateLimiter" where
  "cleanup now rl = fold (\<lambda>k m. snd (hm_remove k m)) (expired_keys now rl) rl"

section \<open>Runs\<close>

datatype rl_event = Packet netudp_address real | Cleanup real

fun event_time :: "rl_event \<Rightarrow> real" where
  "event_time (Packet a t) = t"
| "event_time (Cleanup t) = t"

fun event_keys :: "rl_event \<Rightarrow> key set" where
  "event_keys (Packet a t) = {make_key a}"
| "event_keys (Cleanup t) = {}"

text \<open>The packets of one key that a run admits.\<close>

fun admitted :: "key \<Rightarrow> rl_event list \<Rightarrow> RateLimiter \<Rightarrow> nat" where
  "admitted k [] rl = 0"
| "admitted k (Packet a t # es) rl =
     (let (ok, rl1) = allow a t rl in (if ok \<and> make_key a = k then 1 else 0) + admitted k es rl1)"
| "admitted k (Cleanup t # es) rl = admitted k es (cleanup t rl)"

fun times_from :: "real \<Rightarrow> rl_event list \<Rightarrow> real \<Rightarrow> bool" where
  "times_from t0 [] t1 \<longleftrightarrow> t0 \<le> t1"
| "times_from t0 (e # es) t1 \<longleftrightarrow> t0 \<le> event_time e \<and> times_from (event_time e) es t1"

section \<open>The bound\<close>

text \<open>The tokens a key has at a time: a key without a bucket has a full one.\<close>

definition credit :: "key \<Rightarrow> real \<Rightarrow> RateLimiter \<Rightarrow> real" where
  "credit k t rl =
     (case hm_find k rl of None \<Rightarrow> BURST
      | Some b \<Rightarrow> min BURST (rl_tokens b + RATE * (t - rl_last_refill_time b)))"

definition bucket_ok :: "real \<Rightarrow> RateBucket \<Rightarrow> bool" where
  "bucket_ok t b \<longleftrightarrow> 0 \<le> rl_tokens b \<and> rl_tokens b \<le> BURST \<and>
     rl_last_refill_time b = rl_last_activity_time b \<and> rl_last_refill_time b \<le> t"

definition limiter_ok :: "real \<Rightarrow> key set \<Rightarrow> RateLimiter \<Rightarrow> bool" where
  "limiter_ok t K rl \<longleftrightarrow> hm_ok rl \<and> hm_cap rl = 4096 \<and> {k. hm_find k rl \<noteq> None} \<subseteq> K \<and>
     (\<forall>k b. hm_find k rl = Some b \<longrightarrow> bucket_ok t b)"

lemma credit_bounds: "limiter_ok t K rl \<Longrightarrow> 0 \<le> credit k t rl \<and> credit k t rl \<le> BURST"
proof (cases "hm_find k rl")
  case (Some b)
  assume "limiter_ok t K rl"
  then have "bucket_ok t b" using Some by (simp add: limiter_ok_def)
  then show ?thesis using Some by (simp add: credit_def bucket_ok_def BURST_def RATE_def)
qed (simp add: credit_def BURST_def)

lemma credit_later: "t \<le> t' \<Longrightarrow> credit k t' rl \<le> credit k t rl + RATE * (t' - t)"
  by (auto simp: credit_def RATE_def BURST_def algebra_simps split: option.splits)

lemma limiter_ok_later: "limiter_ok t K rl \<Longrightarrow> t \<le> t' \<Longrightarrow> limiter_ok t' K rl"
  by (fastforce simp: limiter_ok_def bucket_ok_def)

lemma refill_bucket_spec:
  assumes "bucket_ok t b"
  shows "rl_tokens (refill_bucket t b) = min BURST (rl_tokens b + RATE * (t - rl_last_refill_time b))"
    and "rl_last_refill_time (refill_bucket t b) = t"
  using assms by (auto simp: refill_bucket_def bucket_ok_def Let_def min_def)

lemma insert_bucket:
  assumes ok: "limiter_ok t K rl" and K: "finite K" "card K \<le> 4096" "k \<in> K" and b: "bucket_ok t b"
  shows "limiter_ok t K (snd (hm_insert k b rl))"
    and "hm_find j (snd (hm_insert k b rl)) = (if j = k then Some b else hm_find j rl)"
proof -
  have fits: "hm_find k rl \<noteq> None \<or> map_size rl < hm_cap rl"
    using hm.insert_fits [of rl K k] ok K by (simp add: limiter_ok_def)
  show f: "hm_find j (snd (hm_insert k b rl)) = (if j = k then Some b else hm_find j rl)" for j
    using hm.insert_find [OF _ fits] ok by (simp add: limiter_ok_def)
  show "limiter_ok t K (snd (hm_insert k b rl))"
    using ok b K(3) hm.insert_ok [of rl k b] by (auto simp: limiter_ok_def f split: if_splits)
qed

lemma allow_step:
  assumes ok: "limiter_ok t K rl" and K: "finite K" "card K \<le> 4096" "make_key a \<in> K" and r: "allow a t rl = (b, rl')"
  shows "limiter_ok t K rl' \<and> credit j t rl' = credit j t rl - (if b \<and> make_key a = j then 1 else 0)"
proof (cases "hm_find (make_key a) rl")
  case None
  let ?b = "\<lparr>rl_tokens = BURST - 1, rl_last_refill_time = t, rl_last_activity_time = t\<rparr>"
  have "bucket_ok t ?b" by (simp add: bucket_ok_def BURST_def)
  note i = insert_bucket [OF ok K this]
  show ?thesis using r None i by (auto simp: allow_def credit_def BURST_def)
next
  case (Some c)
  then have c: "bucket_ok t c" using ok by (simp add: limiter_ok_def)
  define b1 where "b1 = (refill_bucket t c)\<lparr>rl_last_activity_time := t\<rparr>"
  have b1: "rl_tokens b1 = credit (make_key a) t rl" "rl_last_refill_time b1 = t"
    using refill_bucket_spec [OF c] Some by (simp_all add: b1_def credit_def)
  have act: "rl_last_activity_time b1 = t" by (simp add: b1_def)
  have cr: "0 \<le> credit (make_key a) t rl" "credit (make_key a) t rl \<le> BURST" using credit_bounds [OF ok] by auto
  define b2 where "b2 = (if rl_tokens b1 \<ge> 1 then b1\<lparr>rl_tokens := rl_tokens b1 - 1\<rparr> else b1)"
  have "bucket_ok t b2" using b1 act cr by (auto simp: b2_def bucket_ok_def)
  note i = insert_bucket [OF ok K this]
  have "b = (rl_tokens b1 \<ge> 1)" "rl' = snd (hm_insert (make_key a) b2 rl)"
    using r Some by (auto simp: allow_def b1_def b2_def Let_def split: if_splits)
  then show ?thesis using i b1 cr by (auto simp: credit_def b2_def min_def)
qed

lemma entries_find: "hm_ok m \<Longrightarrow> (k, v) \<in> set (hm_entries m) \<Longrightarrow> hm_find k m = Some v"
  by (force simp: hm_entries_def hm_find_iff in_set_conv_nth)

lemma cleanup_step:
  assumes "limiter_ok t K rl"
  shows "limiter_ok t K (cleanup t rl) \<and> credit j t (cleanup t rl) = credit j t rl"
proof -
  have "limiter_ok t K (fold (\<lambda>k m. snd (hm_remove k m)) ks m) \<and>
      credit j t (fold (\<lambda>k m. snd (hm_remove k m)) ks m) = credit j t m"
    if "limiter_ok t K m" "\<forall>k\<in>set ks. credit k t m = BURST" for ks m
    using that
  proof (induction ks arbitrary: m)
    case (Cons k ks)
    note ok = Cons.prems(1) [unfolded limiter_ok_def]
    have f: "hm_find i (snd (hm_remove k m)) = (if i = k then None else hm_find i m)" for i
      using hm.remove_find_at ok by blast
    have "limiter_ok t K (snd (hm_remove k m))"
      using ok hm.remove_ok [of m k] hm.remove_cap [of m k] by (auto simp: limiter_ok_def f)
    moreover have c: "credit i t (snd (hm_remove k m)) = credit i t m" for i
      using Cons.prems(2) by (auto simp: credit_def f)
    ultimately show ?case using Cons by simp
  qed simp
  moreover have "credit k t rl = BURST" if k: "k \<in> set (expired_keys t rl)" for k
  proof -
    obtain b where b: "(k, b) \<in> set (hm_entries rl)" "t - rl_last_activity_time b > EXPIRY_SEC"
      using k by (auto simp: expired_keys_def dest!: in_set_takeD)
    have "hm_find k rl = Some b" using entries_find [OF _ b(1)] assms by (simp add: limiter_ok_def)
    moreover from this have "bucket_ok t b" using assms by (simp add: limiter_ok_def)
    ultimately show ?thesis using b(2) by (auto simp: credit_def bucket_ok_def RATE_def BURST_def EXPIRY_SEC_def)
  qed
  ultimately show ?thesis using assms by (simp add: cleanup_def)
qed

lemma admitted_bound:
  assumes "limiter_ok t0 K rl" and "times_from t0 es t1" and "finite K" "card K \<le> 4096" and "\<Union> (event_keys ` set es) \<subseteq> K"
  shows "real (admitted k es rl) \<le> credit k t0 rl + RATE * (t1 - t0)"
  using assms
proof (induction es arbitrary: t0 rl)
  case Nil
  then show ?case using credit_bounds [of t0 K rl k] by (simp add: RATE_def)
next
  case (Cons e es)
  let ?t = "event_time e"
  have ok: "limiter_ok ?t K rl" using limiter_ok_later Cons.prems(1,2) by auto
  have later: "credit k ?t rl \<le> credit k t0 rl + RATE * (?t - t0)" using credit_later Cons.prems(2) by simp
  show ?case
  proof (cases e)
    case (Packet a t)
    obtain b rl' where r: "allow a t rl = (b, rl')" by fastforce
    have a: "make_key a \<in> K" using Cons.prems(5) Packet by simp
    have st: "limiter_ok t K rl'" "credit k t rl' = credit k t rl - (if b \<and> make_key a = k then 1 else 0)"
      using allow_step [OF _ Cons.prems(3,4) a r] ok Packet by auto
    have "real (admitted k es rl') \<le> credit k t rl' + RATE * (t1 - t)"
      using Cons.IH [OF st(1)] Cons.prems Packet by simp
    then show ?thesis using later st(2) r by (auto simp: Packet RATE_def)
  next
    case (Cleanup t)
    have st: "limiter_ok t K (cleanup t rl)" "credit k t (cleanup t rl) = credit k t rl"
      using cleanup_step ok Cleanup by auto
    have "real (admitted k es (cleanup t rl)) \<le> credit k t (cleanup t rl) + RATE * (t1 - t)"
      using Cons.IH [OF st(1)] Cons.prems Cleanup by simp
    then show ?thesis using later st(2) by (simp add: Cleanup RATE_def)
  qed
qed



end
