(* ===== verification/Connect_Token.thy ===== *)
theory Connect_Token
  imports Address Aead Packet_Crypto
begin

text \<open>
  Connect tokens (\<^verbatim>\<open>connection/connect_token.h\<close>, \<^verbatim>\<open>connection/connect_token.cpp\<close> and the generator in
  \<^verbatim>\<open>api.cpp\<close>). The arrays of server addresses carry their count; random bytes, the clock and the AEAD
  are arguments.
\<close>

section \<open>Layout\<close>

definition NETUDP_MAX_SERVERS_PER_TOKEN :: nat where
  "NETUDP_MAX_SERVERS_PER_TOKEN = 32"

definition TOKEN_VERSION_OFFSET :: nat where
  "TOKEN_VERSION_OFFSET = 0"

definition TOKEN_PROTOCOL_ID_OFFSET :: nat where
  "TOKEN_PROTOCOL_ID_OFFSET = 13"

definition TOKEN_EXPIRE_TS_OFFSET :: nat where
  "TOKEN_EXPIRE_TS_OFFSET = 29"

definition TOKEN_NONCE_OFFSET :: nat where
  "TOKEN_NONCE_OFFSET = 37"

definition TOKEN_PRIVATE_OFFSET :: nat where
  "TOKEN_PRIVATE_OFFSET = 61"

definition TOKEN_PRIVATE_SIZE :: nat where
  "TOKEN_PRIVATE_SIZE = 1008"

definition TOKEN_PRIVATE_ENCRYPTED_SIZE :: nat where
  "TOKEN_PRIVATE_ENCRYPTED_SIZE = 1024"

definition TOKEN_AFTER_PRIVATE :: nat where
  "TOKEN_AFTER_PRIVATE = TOKEN_PRIVATE_OFFSET + TOKEN_PRIVATE_ENCRYPTED_SIZE"

lemmas token_layout = TOKEN_VERSION_OFFSET_def TOKEN_PROTOCOL_ID_OFFSET_def TOKEN_EXPIRE_TS_OFFSET_def
  TOKEN_NONCE_OFFSET_def TOKEN_PRIVATE_OFFSET_def TOKEN_PRIVATE_SIZE_def TOKEN_PRIVATE_ENCRYPTED_SIZE_def
  TOKEN_AFTER_PRIVATE_def

record PrivateConnectToken =
  tok_client_id :: u64
  tok_timeout_seconds :: u32
  tok_server_addresses :: "netudp_address list"
  tok_client_to_server_key :: "byte list"
  tok_server_to_client_key :: "byte list"
  tok_user_data :: "byte list"

section \<open>Addresses in a token\<close>

definition write_address_to_token :: "netudp_address \<Rightarrow> byte list" where
  "write_address_to_token a =
     [addr_type a] @
     (if addr_type a = NETUDP_ADDRESS_IPV4 then take 4 (addr_data a)
      else if addr_type a = NETUDP_ADDRESS_IPV6 then take 16 (addr_data a) else []) @
     [ucast (addr_port a AND 0xFF), ucast (drop_bit 8 (addr_port a) AND 0xFF)]"

text \<open>The address at the start of the bytes that are left, and how many of them it takes.\<close>

definition read_port :: "byte list \<Rightarrow> nat \<Rightarrow> u16" where
  "read_port buf pos = ucast (buf ! pos) OR push_bit 8 (ucast (buf ! (pos + 1)))"

definition read_address :: "byte list \<Rightarrow> (nat \<times> netudp_address) option" where
  "read_address buf =
     (if length buf < 1 then None
      else let t = buf ! 0
        in if t = NETUDP_ADDRESS_IPV4 then
             if length buf < 7 then None
             else Some (7, address_zero\<lparr>addr_type := t, addr_data := read_at 1 4 buf @ replicate 12 0, addr_port := read_port buf 5\<rparr>)
           else if t = NETUDP_ADDRESS_IPV6 then
             if length buf < 19 then None
             else Some (19, address_zero\<lparr>addr_type := t, addr_data := read_at 1 16 buf, addr_port := read_port buf 17\<rparr>)
           else None)"

fun read_addresses :: "nat \<Rightarrow> byte list \<Rightarrow> (netudp_address list \<times> byte list) option" where
  "read_addresses 0 buf = Some ([], buf)"
| "read_addresses (Suc n) buf =
     (case read_address buf of None \<Rightarrow> None
      | Some (len, a) \<Rightarrow> map_option (apfst ((#) a)) (read_addresses n (drop len buf)))"

section \<open>The private part\<close>

definition serialize_private_token :: "PrivateConnectToken \<Rightarrow> nat \<Rightarrow> byte list option" where
  "serialize_private_token tok buf_size =
     (if buf_size < TOKEN_PRIVATE_SIZE then None
      else let bytes =
             le_bytes 8 (tok_client_id tok) @ le_bytes 4 (tok_timeout_seconds tok) @
             le_bytes 4 (of_nat (length (tok_server_addresses tok)) :: u32) @
             concat (map write_address_to_token (tok_server_addresses tok)) @
             tok_client_to_server_key tok @ tok_server_to_client_key tok @ tok_user_data tok
        in if length bytes > TOKEN_PRIVATE_SIZE then None
           else Some (bytes @ replicate (buf_size - length bytes) 0))"

definition deserialize_private_token :: "byte list \<Rightarrow> PrivateConnectToken option" where
  "deserialize_private_token buf =
     (if length buf < TOKEN_PRIVATE_SIZE then None
      else let num = of_le (read_at 12 4 buf) :: u32
        in if num = 0 \<or> num > of_nat NETUDP_MAX_SERVERS_PER_TOKEN then None
           else case read_addresses (unat num) (drop 16 buf) of None \<Rightarrow> None
             | Some (addrs, rest) \<Rightarrow>
                 Some \<lparr>tok_client_id = of_le (read_at 0 8 buf), tok_timeout_seconds = of_le (read_at 8 4 buf),
                   tok_server_addresses = addrs, tok_client_to_server_key = read_at 0 32 rest,
                   tok_server_to_client_key = read_at 32 32 rest, tok_user_data = read_at 64 256 rest\<rparr>)"

section \<open>Generation and validation\<close>

definition token_aad :: "byte list \<Rightarrow> byte list" where
  "token_aad tok = read_at TOKEN_VERSION_OFFSET 13 tok @ read_at TOKEN_PROTOCOL_ID_OFFSET 8 tok @ read_at TOKEN_EXPIRE_TS_OFFSET 8 tok"

datatype token_error = NETUDP_ERROR_INVALID_PARAM | NETUDP_ERROR_TIMEOUT | NETUDP_ERROR_CRYPTO

fun parse_all :: "string list \<Rightarrow> netudp_address list option" where
  "parse_all [] = Some []"
| "parse_all (s # ss) =
     (case netudp_parse_address s of None \<Rightarrow> None | Some a \<Rightarrow> map_option ((#) a) (parse_all ss))"

record token_random =
  rnd_c2s :: "byte list"
  rnd_s2c :: "byte list"
  rnd_nonce :: "byte list"

definition netudp_generate_connect_token ::
    "aead_fn \<Rightarrow> token_random \<Rightarrow> u64 \<Rightarrow> string list \<Rightarrow> u64 \<Rightarrow> u32 \<Rightarrow> u64 \<Rightarrow> u64 \<Rightarrow> byte list \<Rightarrow> byte list option \<Rightarrow>
     token_error + byte list" where
  "netudp_generate_connect_token enc rnd create_ts server_addresses expire_seconds timeout_seconds client_id protocol_id
     private_key user_data =
     (if length server_addresses < 1 \<or> length server_addresses > NETUDP_MAX_SERVERS_PER_TOKEN
      then Inl NETUDP_ERROR_INVALID_PARAM
      else case parse_all server_addresses of None \<Rightarrow> Inl NETUDP_ERROR_INVALID_PARAM
        | Some addrs \<Rightarrow>
            let priv = \<lparr>tok_client_id = client_id, tok_timeout_seconds = timeout_seconds, tok_server_addresses = addrs,
                         tok_client_to_server_key = rnd_c2s rnd, tok_server_to_client_key = rnd_s2c rnd,
                         tok_user_data = (case user_data of None \<Rightarrow> replicate 256 0 | Some d \<Rightarrow> d)\<rparr>
            in case serialize_private_token priv TOKEN_PRIVATE_SIZE of None \<Rightarrow> Inl NETUDP_ERROR_INVALID_PARAM
               | Some private_data \<Rightarrow>
                   let header = NETUDP_VERSION_INFO @ le_bytes 8 protocol_id @ le_bytes 8 create_ts @
                                le_bytes 8 (create_ts + expire_seconds) @ rnd_nonce rnd
                   in case enc private_key (rnd_nonce rnd) (token_aad header) private_data of
                        None \<Rightarrow> Inl NETUDP_ERROR_CRYPTO
                      | Some encrypted \<Rightarrow>
                          let bytes = header @ encrypted @ le_bytes 4 timeout_seconds @
                                le_bytes 4 (of_nat (length addrs) :: u32) @
                                concat (map write_address_to_token addrs) @ rnd_c2s rnd @ rnd_s2c rnd
                          in Inr (bytes @ replicate (2048 - length bytes) 0))"

definition validate_connect_token ::
    "aead_fn \<Rightarrow> byte list \<Rightarrow> u64 \<Rightarrow> byte list \<Rightarrow> u64 \<Rightarrow> netudp_address option \<Rightarrow> token_error + PrivateConnectToken" where
  "validate_connect_token dec tok protocol_id private_key current_time server_address =
     (if read_at TOKEN_VERSION_OFFSET 13 tok \<noteq> NETUDP_VERSION_INFO then Inl NETUDP_ERROR_INVALID_PARAM
      else if of_le (read_at TOKEN_PROTOCOL_ID_OFFSET 8 tok) \<noteq> protocol_id then Inl NETUDP_ERROR_INVALID_PARAM
      else if current_time \<ge> of_le (read_at TOKEN_EXPIRE_TS_OFFSET 8 tok) then Inl NETUDP_ERROR_TIMEOUT
      else case dec private_key (read_at TOKEN_NONCE_OFFSET 24 tok) (token_aad tok)
                  (read_at TOKEN_PRIVATE_OFFSET TOKEN_PRIVATE_ENCRYPTED_SIZE tok) of
        None \<Rightarrow> Inl NETUDP_ERROR_CRYPTO
      | Some decrypted \<Rightarrow>
          (case deserialize_private_token decrypted of None \<Rightarrow> Inl NETUDP_ERROR_INVALID_PARAM
           | Some out \<Rightarrow>
               (case server_address of None \<Rightarrow> Inr out
                | Some s \<Rightarrow> if list_ex (netudp_address_equal s) (tok_server_addresses out) then Inr out
                            else Inl NETUDP_ERROR_INVALID_PARAM)))"

definition compute_token_fingerprint :: "(byte list \<Rightarrow> byte list \<Rightarrow> byte list) \<Rightarrow> byte list \<Rightarrow> byte list \<Rightarrow> byte list" where
  "compute_token_fingerprint blake2b_keyed private_key encrypted_private = take 8 (blake2b_keyed private_key encrypted_private)"

section \<open>Round trips\<close>

lemma read_at_append:
  "pos + n \<le> length xs \<Longrightarrow> read_at pos n (xs @ ys) = read_at pos n xs"
  "length xs \<le> pos \<Longrightarrow> read_at pos n (xs @ ys) = read_at (pos - length xs) n ys"
  "length xs = n \<Longrightarrow> read_at 0 n (xs @ ys) = xs"
  "length xs \<le> n \<Longrightarrow> read_at 0 n xs = xs"
  by (simp_all add: read_at_def)

lemma port_bytes: "ucast (ucast (p AND 0xFF) :: byte) OR push_bit 8 (ucast (ucast (drop_bit 8 p AND 0xFF) :: byte)) = p"
  for p :: u16
proof -
  have m: "(0xFF :: u16) = mask 8" by (simp add: mask_eq_exp_minus_1)
  show ?thesis
    unfolding m
    by (rule bit_eqI) (auto simp: bit_or_iff bit_ucast_iff bit_push_bit_iff bit_and_iff bit_drop_bit_eq bit_mask_iff
        dest: bit_imp_le_length)
qed

lemma write_address_length:
  "address_valid a \<Longrightarrow> length (write_address_to_token a) = (if addr_type a = NETUDP_ADDRESS_IPV4 then 7 else 19)"
  by (auto simp: address_valid_def write_address_to_token_def)

lemma read_write_address:
  assumes "address_valid a"
  shows "read_address (write_address_to_token a @ rest) = Some (length (write_address_to_token a), a)"
proof (cases "addr_type a = NETUDP_ADDRESS_IPV4")
  case True
  then have v: "length (addr_data a) = 16" "drop 4 (addr_data a) = replicate 12 0" "addr_pad a = 0"
    using assms by (auto simp: address_valid_def NETUDP_ADDRESS_IPV4_def NETUDP_ADDRESS_IPV6_def)
  have d: "take 4 (addr_data a) @ replicate 12 0 = addr_data a" using append_take_drop_id [of 4 "addr_data a"] v by simp
  have l: "length (take 4 (addr_data a)) = 4" using v by simp
  define t where "t = take 4 (addr_data a)"
  show ?thesis
    using True v d l unfolding t_def [symmetric]
    by (simp add: read_address_def write_address_to_token_def t_def [symmetric] read_at_def read_port_def nth_append
        nth_Cons' address_zero_def port_bytes)
next
  case False
  then have v: "addr_type a = NETUDP_ADDRESS_IPV6" "length (addr_data a) = 16" "addr_pad a = 0"
    using assms by (auto simp: address_valid_def)
  then show ?thesis
    using False by (simp add: read_address_def write_address_to_token_def read_at_def read_port_def nth_append
        nth_Cons' address_zero_def port_bytes)
qed

lemma read_write_addresses:
  "\<forall>a\<in>set as. address_valid a \<Longrightarrow>
     read_addresses (length as) (concat (map write_address_to_token as) @ rest) = Some (as, rest)"
  by (induction as) (simp_all add: read_write_address)

lemma addresses_length:
  "\<forall>a\<in>set as. address_valid a \<Longrightarrow> length (concat (map write_address_to_token as)) \<le> 19 * length as"
proof (induction as)
  case (Cons a as)
  then show ?case using write_address_length [of a] by (auto split: if_splits)
qed simp

definition private_ok :: "PrivateConnectToken \<Rightarrow> bool" where
  "private_ok p \<longleftrightarrow> 1 \<le> length (tok_server_addresses p) \<and> length (tok_server_addresses p) \<le> 32 \<and>
     (\<forall>a\<in>set (tok_server_addresses p). address_valid a) \<and> length (tok_client_to_server_key p) = 32 \<and>
     length (tok_server_to_client_key p) = 32 \<and> length (tok_user_data p) = 256"

lemma private_round_trip:
  assumes "private_ok p"
  obtains bs where "serialize_private_token p TOKEN_PRIVATE_SIZE = Some bs" "length bs = 1008"
    "deserialize_private_token bs = Some p"
proof -
  let ?as = "tok_server_addresses p"
  let ?n = "of_nat (length ?as) :: u32"
  note v = assms [unfolded private_ok_def]
  have u: "unat ?n = length ?as"
    using v by (simp add: unsigned_of_nat take_bit_nat_eq_self)
  then have n: "unat ?n = length ?as" "?n \<noteq> 0" "\<not> ?n > 32"
    using v by (auto simp: word_less_nat_alt simp del: of_nat_unat)
  define H where "H = le_bytes 8 (tok_client_id p) @ le_bytes 4 (tok_timeout_seconds p) @ le_bytes 4 ?n"
  define B where "B = concat (map write_address_to_token ?as)"
  define K where "K = tok_client_to_server_key p @ tok_server_to_client_key p @ tok_user_data p"
  have H: "length H = 16" by (simp add: H_def)
  have K: "length K = 320" using v by (simp add: K_def)
  have B: "length B \<le> 608" using addresses_length [of ?as] v by (auto simp: B_def intro: order_trans)
  define pad where "pad = replicate (1008 - length (H @ B @ K)) (0 :: byte)"
  have ser: "serialize_private_token p TOKEN_PRIVATE_SIZE = Some (H @ B @ K @ pad)"
    using H K B by (simp add: serialize_private_token_def token_layout Let_def H_def B_def K_def pad_def)
  have num: "of_le (read_at 12 4 (H @ B @ K @ pad)) = ?n"
    by (simp add: H_def read_at_def)
  have rd: "read_addresses (unat ?n) (drop 16 (H @ B @ K @ pad)) = Some (?as, K @ pad)"
    using read_write_addresses [of ?as "K @ pad"] v by (simp add: H n(1) B_def)
  have keys: "read_at 0 32 (K @ pad) = tok_client_to_server_key p" "read_at 32 32 (K @ pad) = tok_server_to_client_key p"
    "read_at 64 256 (K @ pad) = tok_user_data p"
    using v by (simp_all add: K_def read_at_def)
  have ids: "of_le (read_at 0 8 (H @ B @ K @ pad)) = tok_client_id p" "of_le (read_at 8 4 (H @ B @ K @ pad)) = tok_timeout_seconds p"
    by (simp_all add: H_def read_at_def)
  have len: "length (H @ B @ K @ pad) = 1008" using H K B by (simp add: pad_def)
  have "deserialize_private_token (H @ B @ K @ pad) = Some p"
    unfolding deserialize_private_token_def Let_def num rd keys ids option.case prod.case
    using len n by (simp add: token_layout NETUDP_MAX_SERVERS_PER_TOKEN_def)
  then show ?thesis using that ser len by blast
qed

section \<open>A generated token is accepted\<close>

text \<open>The fixed part of a generated token, and where its fields are.\<close>

definition token_header :: "u64 \<Rightarrow> u64 \<Rightarrow> u64 \<Rightarrow> byte list \<Rightarrow> byte list" where
  "token_header protocol_id create_ts expire_ts nonce =
     NETUDP_VERSION_INFO @ le_bytes 8 protocol_id @ le_bytes 8 create_ts @ le_bytes 8 expire_ts @ nonce"

lemma length_version [simp]: "length NETUDP_VERSION_INFO = 13"
  by (simp add: NETUDP_VERSION_INFO_def)

lemma token_header_fields:
  fixes pid cts ets :: u64
  assumes "length nonce = 24"
  defines "h \<equiv> token_header pid cts ets nonce"
  shows "length h = 61" "read_at 0 13 (h @ r) = NETUDP_VERSION_INFO" "read_at 13 8 (h @ r) = le_bytes 8 pid"
    "read_at 29 8 (h @ r) = le_bytes 8 ets" "read_at 37 24 (h @ r) = nonce"
    "token_aad (h @ r) = NETUDP_VERSION_INFO @ le_bytes 8 pid @ le_bytes 8 ets"
  using assms by (simp_all add: h_def token_header_def read_at_append token_aad_def token_layout)

lemma parse_all_valid: "parse_all ss = Some as \<Longrightarrow> (\<forall>a\<in>set as. address_valid a) \<and> length as = length ss"
  by (induction ss arbitrary: as) (auto simp: parse_address_valid split: option.splits)

text \<open>What a generated token consists of.\<close>

lemma generate_token_shape:
  assumes law: "aead enc dec 16"
    and gen: "netudp_generate_connect_token enc rnd create_ts names expire timeout cid pid key user = Inr tok"
    and rnd: "length (rnd_c2s rnd) = 32" "length (rnd_s2c rnd) = 32" "length (rnd_nonce rnd) = 24"
    and user: "\<forall>d. user = Some d \<longrightarrow> length d = 256"
  obtains addrs priv ct pad where
    "parse_all names = Some addrs" "private_ok priv"
    "priv = \<lparr>tok_client_id = cid, tok_timeout_seconds = timeout, tok_server_addresses = addrs,
      tok_client_to_server_key = rnd_c2s rnd, tok_server_to_client_key = rnd_s2c rnd,
      tok_user_data = (case user of None \<Rightarrow> replicate 256 0 | Some d \<Rightarrow> d)\<rparr>"
    "tok = token_header pid create_ts (create_ts + expire) (rnd_nonce rnd) @ ct @ le_bytes 4 timeout @
      le_bytes 4 (of_nat (length addrs) :: u32) @ concat (map write_address_to_token addrs) @ rnd_c2s rnd @ rnd_s2c rnd @ pad"
    "length ct = 1024" "length tok = 2048"
    "\<exists>bs. dec key (rnd_nonce rnd) (NETUDP_VERSION_INFO @ le_bytes 8 pid @ le_bytes 8 (create_ts + expire)) ct = Some bs \<and>
      deserialize_private_token bs = Some priv"
proof -
  let ?h = "token_header pid create_ts (create_ts + expire) (rnd_nonce rnd)"
  have len: "\<not> (length names < 1 \<or> length names > 32)"
  proof
    assume "length names < 1 \<or> length names > 32"
    then show False using gen by (simp add: netudp_generate_connect_token_def NETUDP_MAX_SERVERS_PER_TOKEN_def)
  qed
  then obtain addrs where addrs: "parse_all names = Some addrs"
    using gen by (cases "parse_all names") (auto simp: netudp_generate_connect_token_def NETUDP_MAX_SERVERS_PER_TOKEN_def)
  let ?p = "\<lparr>tok_client_id = cid, tok_timeout_seconds = timeout, tok_server_addresses = addrs,
      tok_client_to_server_key = rnd_c2s rnd, tok_server_to_client_key = rnd_s2c rnd,
      tok_user_data = (case user of None \<Rightarrow> replicate 256 0 | Some d \<Rightarrow> d)\<rparr>"
  have ok: "private_ok ?p"
    using parse_all_valid [OF addrs] len rnd user by (auto simp: private_ok_def Suc_le_eq split: option.splits)
  obtain bs where bs: "serialize_private_token ?p TOKEN_PRIVATE_SIZE = Some bs" "length bs = 1008"
    "deserialize_private_token bs = Some ?p" using private_round_trip [OF ok] .
  note hf = token_header_fields [OF rnd(3), of pid create_ts "create_ts + expire"]
  obtain ct where ct: "enc key (rnd_nonce rnd) (token_aad ?h) bs = Some ct" "length ct = 1024"
    "dec key (rnd_nonce rnd) (token_aad ?h) ct = Some bs"
    using aead.enc_cases [OF law, of key "rnd_nonce rnd" "token_aad ?h" bs] bs(2) by auto
  let ?body = "?h @ ct @ le_bytes 4 timeout @ le_bytes 4 (of_nat (length addrs) :: u32) @
      concat (map write_address_to_token addrs) @ rnd_c2s rnd @ rnd_s2c rnd"
  have tok: "tok = ?body @ replicate (2048 - length ?body) 0"
    using gen addrs bs ct len by (simp add: netudp_generate_connect_token_def Let_def token_header_def NETUDP_MAX_SERVERS_PER_TOKEN_def)
  have "length (concat (map write_address_to_token addrs)) \<le> 608"
    using addresses_length [of addrs] parse_all_valid [OF addrs] len by (auto intro: order_trans)
  then have "length tok = 2048" using hf(1) ct(2) rnd by (simp add: tok)
  moreover have "token_aad ?h = NETUDP_VERSION_INFO @ le_bytes 8 pid @ le_bytes 8 (create_ts + expire)"
    using hf(6) [of "[]"] by simp
  ultimately show ?thesis using that [OF addrs ok refl _ ct(2)] tok ct(3) bs(3) by auto
qed

text \<open>
  C29. A token that the generator produces for a client is accepted, before it expires, by every
  server that holds the private key and whose address is listed in it, and yields exactly the client
  id, timeout, addresses, user data and the two session keys that were put in; the AEAD is any
  authenticated encryption whose decryption inverts its encryption.\<close>

theorem token_generate_validate:
  assumes "aead enc dec 16"
    and "netudp_generate_connect_token enc rnd create_ts names expire timeout cid pid key user = Inr tok"
    and "length (rnd_c2s rnd) = 32" "length (rnd_s2c rnd) = 32" "length (rnd_nonce rnd) = 24"
    and "\<forall>d. user = Some d \<longrightarrow> length d = 256"
    and "now < create_ts + expire" and "parse_all names = Some addrs" and "server \<in> set addrs"
  shows "length tok = 2048 \<and> validate_connect_token dec tok pid key now (Some server) =
    Inr \<lparr>tok_client_id = cid, tok_timeout_seconds = timeout, tok_server_addresses = addrs,
      tok_client_to_server_key = rnd_c2s rnd, tok_server_to_client_key = rnd_s2c rnd,
      tok_user_data = (case user of None \<Rightarrow> replicate 256 0 | Some d \<Rightarrow> d)\<rparr>"
proof -
  note rnd = assms(5)
  obtain ct r priv where g: "length tok = 2048" "length ct = 1024"
    "tok = token_header pid create_ts (create_ts + expire) (rnd_nonce rnd) @ ct @ r"
    and priv: "priv = \<lparr>tok_client_id = cid, tok_timeout_seconds = timeout, tok_server_addresses = addrs,
      tok_client_to_server_key = rnd_c2s rnd, tok_server_to_client_key = rnd_s2c rnd,
      tok_user_data = (case user of None \<Rightarrow> replicate 256 0 | Some d \<Rightarrow> d)\<rparr>"
    and dec: "\<exists>bs. dec key (rnd_nonce rnd) (NETUDP_VERSION_INFO @ le_bytes 8 pid @ le_bytes 8 (create_ts + expire)) ct = Some bs \<and>
      deserialize_private_token bs = Some priv"
    using generate_token_shape [OF assms(1-6)] assms(8) by (metis option.inject)
  note hf = token_header_fields [OF rnd, of pid create_ts "create_ts + expire"]
  note f = hf(2-6) [of "ct @ r", folded g(3)]
  obtain bs where bs: "dec key (rnd_nonce rnd) (NETUDP_VERSION_INFO @ le_bytes 8 pid @ le_bytes 8 (create_ts + expire)) ct = Some bs"
    "deserialize_private_token bs = Some priv" using dec by blast
  have "list_ex (netudp_address_equal server) (tok_server_addresses priv)"
    using assms(9) by (auto simp: priv list_ex_iff netudp_address_equal_def Let_def)
  moreover have "read_at 61 1024 tok = ct" using g(2) hf(1) by (simp add: g(3) read_at_append)
  ultimately have "validate_connect_token dec tok pid key now (Some server) = Inr priv"
    using assms(7) by (simp add: validate_connect_token_def token_layout f bs)
  then show ?thesis using g(1) by (simp add: priv)
qed

lemma generate_succeeds:
  assumes law: "aead enc dec 16" and names: "parse_all names = Some addrs" "1 \<le> length names" "length names \<le> 32"
    and rnd: "length (rnd_c2s rnd) = 32" "length (rnd_s2c rnd) = 32" and user: "\<forall>d. user = Some d \<longrightarrow> length d = 256"
  shows "\<exists>tok. netudp_generate_connect_token enc rnd create_ts names expire timeout cid pid key user = Inr tok"
proof -
  let ?p = "\<lparr>tok_client_id = cid, tok_timeout_seconds = timeout, tok_server_addresses = addrs,
      tok_client_to_server_key = rnd_c2s rnd, tok_server_to_client_key = rnd_s2c rnd,
      tok_user_data = (case user of None \<Rightarrow> replicate 256 0 | Some d \<Rightarrow> d)\<rparr>"
  have "private_ok ?p"
    using parse_all_valid [OF names(1)] names rnd user by (auto simp: private_ok_def split: option.splits)
  then obtain bs where bs: "serialize_private_token ?p TOKEN_PRIVATE_SIZE = Some bs" by (rule private_round_trip)
  have e: "\<exists>ct. enc k n a m = Some ct" for k n a m using aead.enc_total [OF law] by blast
  obtain ct where "enc key (rnd_nonce rnd) (token_aad (NETUDP_VERSION_INFO @ le_bytes 8 pid @ le_bytes 8 create_ts @
      le_bytes 8 (create_ts + expire) @ rnd_nonce rnd)) bs = Some ct" using e by blast
  then show ?thesis
    using names bs by (auto simp: netudp_generate_connect_token_def Let_def NETUDP_MAX_SERVERS_PER_TOKEN_def)
qed

definition example_address :: netudp_address where
  "example_address = address_zero\<lparr>addr_type := 1, addr_port := 7777, addr_data := [127, 0, 0, 1] @ replicate 12 0\<rparr>"

lemma example_address_valid: "address_valid example_address"
  by (simp add: example_address_def address_valid_def address_zero_def NETUDP_ADDRESS_IPV4_def)

lemma example_parse: "parse_all [netudp_address_to_string example_address 64] = Some [example_address]"
  by (simp add: parse_to_string [OF example_address_valid])

theorem token_generate_validate_witness:
  "\<exists>tok. netudp_generate_connect_token example_encrypt
       \<lparr>rnd_c2s = replicate 32 1, rnd_s2c = replicate 32 2, rnd_nonce = replicate 24 3\<rparr> 1000
       [netudp_address_to_string example_address 64] 30 10 42 7 (replicate 32 9) None = Inr tok \<and>
     validate_connect_token example_decrypt tok 7 (replicate 32 9) 1005 (Some example_address) =
       Inr \<lparr>tok_client_id = 42, tok_timeout_seconds = 10, tok_server_addresses = [example_address],
         tok_client_to_server_key = replicate 32 1, tok_server_to_client_key = replicate 32 2, tok_user_data = replicate 256 0\<rparr>"
proof -
  let ?rnd = "\<lparr>rnd_c2s = replicate 32 1, rnd_s2c = replicate 32 2, rnd_nonce = replicate 24 3\<rparr>"
  have law: "aead example_encrypt example_decrypt 16" by (rule example_mode.aead_axioms)
  obtain tok where tok: "netudp_generate_connect_token example_encrypt ?rnd 1000
    [netudp_address_to_string example_address 64] 30 10 42 7 (replicate 32 9) None = Inr tok"
    using generate_succeeds [OF law example_parse, of ?rnd None 1000 30 10 42 7 "replicate 32 9"] by auto
  from token_generate_validate [OF law tok _ _ _ _ _ example_parse, of 1005 example_address]
  show ?thesis using tok by simp
qed

end
