(* ===== verification/Frame.thy ===== *)
theory Frame
  imports Netudp_Prelude
begin

text \<open>
  The frames of \<^verbatim>\<open>wire/frame.h\<close>. A writer returns the bytes it puts at its position of the buffer, or
  \<^term>\<open>None\<close> for -1 when they do not fit.
\<close>

definition FRAME_STOP_WAITING :: byte where
  "FRAME_STOP_WAITING = 0x02"

definition FRAME_UNRELIABLE_DATA :: byte where
  "FRAME_UNRELIABLE_DATA = 0x03"

definition FRAME_RELIABLE_DATA :: byte where
  "FRAME_RELIABLE_DATA = 0x04"

definition FRAME_FRAGMENT_DATA :: byte where
  "FRAME_FRAGMENT_DATA = 0x05"

definition FRAME_DISCONNECT :: byte where
  "FRAME_DISCONNECT = 0x06"

lemmas frame_types = FRAME_STOP_WAITING_def FRAME_UNRELIABLE_DATA_def FRAME_RELIABLE_DATA_def
  FRAME_FRAGMENT_DATA_def FRAME_DISCONNECT_def

definition write_unreliable_frame :: "nat \<Rightarrow> byte \<Rightarrow> byte list \<Rightarrow> byte list option" where
  "write_unreliable_frame buf_avail channel data =
     (if 1 + 1 + 2 + length data > buf_avail then None
      else Some ([FRAME_UNRELIABLE_DATA, channel] @ le_bytes 2 (of_nat (length data) :: u16) @ data))"

definition write_reliable_frame :: "nat \<Rightarrow> byte \<Rightarrow> u16 \<Rightarrow> byte list \<Rightarrow> byte list option" where
  "write_reliable_frame buf_avail channel msg_seq data =
     (if 1 + 1 + 2 + 2 + length data > buf_avail then None
      else Some ([FRAME_RELIABLE_DATA, channel] @ le_bytes 2 msg_seq @ le_bytes 2 (of_nat (length data) :: u16) @ data))"

definition write_fragment_frame :: "nat \<Rightarrow> byte \<Rightarrow> u16 \<Rightarrow> byte \<Rightarrow> byte \<Rightarrow> byte list \<Rightarrow> byte list option" where
  "write_fragment_frame buf_avail channel msg_id frag_idx frag_cnt data =
     (if 1 + 1 + 2 + 1 + 1 + length data > buf_avail then None
      else Some ([FRAME_FRAGMENT_DATA, channel] @ le_bytes 2 msg_id @ [frag_idx, frag_cnt] @ data))"

definition write_disconnect_frame :: "nat \<Rightarrow> byte \<Rightarrow> byte list option" where
  "write_disconnect_frame buf_avail reason = (if buf_avail < 2 then None else Some [FRAME_DISCONNECT, reason])"

definition peek_frame_type :: "byte list \<Rightarrow> byte" where
  "peek_frame_type buf = (if length buf < 1 then 0 else buf ! 0)"

end
