(* ===== verification/Connection.thy ===== *)
theory Connection
  imports Packet_Tracker Packet_Crypto Reliable_Channel Channel Fragment Flow_Control Frame Connect_Token
begin

text \<open>
  The state of a connection (\<^verbatim>\<open>connection/connection.h\<close>) with its statistics (\<^verbatim>\<open>stats/stats.h\<close>), and the
  two ends of the message path: coalescing queued messages into packets (\<^verbatim>\<open>server_send_pending\<close>,
  \<^verbatim>\<open>client_send_pending\<close>) and taking a packet apart (\<^verbatim>\<open>server_handle_data_packet\<close>,
  \<^verbatim>\<open>client_handle_data_packet\<close>). Server and client share the code of both loops up to the points where
  the sources differ, which are the cases of \<^verbatim>\<open>role\<close>. A copy past the end of a message buffer, and the use of the
  buffers of a connection that has none, are the outcome \<^verbatim>\<open>Overrun\<close>.
\<close>

section \<open>Statistics\<close>

record ConnectionStats =
  st_ping_ms :: u32
  st_out_packets_per_sec :: rat
  st_out_bytes_per_sec :: rat
  st_in_packets_per_sec :: rat
  st_in_bytes_per_sec :: rat
  st_send_rate :: nat
  st_max_send_rate :: nat
  st_packets_sent :: u32
  st_packets_received :: u32
  st_messages_received :: u32
  st_fragments_received :: u32
  st_frames_coalesced :: u32
  st_decrypt_failures :: u32
  st_out_packets_this_sec :: u32
  st_out_bytes_this_sec :: u32
  st_in_packets_this_sec :: u32
  st_in_bytes_this_sec :: u32
  st_last_throughput_time :: real

definition stats_new :: ConnectionStats where
  "stats_new = \<lparr>st_ping_ms = 0, st_out_packets_per_sec = 0, st_out_bytes_per_sec = 0, st_in_packets_per_sec = 0,
     st_in_bytes_per_sec = 0, st_send_rate = 0, st_max_send_rate = 0, st_packets_sent = 0, st_packets_received = 0,
     st_messages_received = 0, st_fragments_received = 0, st_frames_coalesced = 0, st_decrypt_failures = 0,
     st_out_packets_this_sec = 0, st_out_bytes_this_sec = 0, st_in_packets_this_sec = 0, st_in_bytes_this_sec = 0,
     st_last_throughput_time = 0\<rparr>"

text \<open>The exponential average in \<^verbatim>\<open>float\<close>; 0.2 and 1 - 0.2 are rounded to 24 bits.\<close>

definition ema :: "rat \<Rightarrow> u32 \<Rightarrow> rat" where
  "ema old n =
     (let alpha = 13421773 / 67108864
      in f32_round (f32_round (f32_round (1 - alpha) * old) + f32_round (alpha * f32_round (of_nat (unat n)))))"

definition update_throughput :: "real \<Rightarrow> ConnectionStats \<Rightarrow> ConnectionStats" where
  "update_throughput now s =
     (let elapsed = now - st_last_throughput_time s
      in if elapsed \<ge> 1 then
           s\<lparr>st_out_packets_per_sec := ema (st_out_packets_per_sec s) (st_out_packets_this_sec s),
             st_out_bytes_per_sec := ema (st_out_bytes_per_sec s) (st_out_bytes_this_sec s),
             st_in_packets_per_sec := ema (st_in_packets_per_sec s) (st_in_packets_this_sec s),
             st_in_bytes_per_sec := ema (st_in_bytes_per_sec s) (st_in_bytes_this_sec s),
             st_out_packets_this_sec := 0, st_out_bytes_this_sec := 0, st_in_packets_this_sec := 0,
             st_in_bytes_this_sec := 0, st_last_throughput_time := now\<rparr>
         else s)"

definition stats_packet_sent :: "nat \<Rightarrow> ConnectionStats \<Rightarrow> ConnectionStats" where
  "stats_packet_sent bytes s =
     s\<lparr>st_packets_sent := st_packets_sent s + 1, st_out_packets_this_sec := st_out_packets_this_sec s + 1,
       st_out_bytes_this_sec := st_out_bytes_this_sec s + of_nat bytes\<rparr>"

definition stats_packet_received :: "nat \<Rightarrow> ConnectionStats \<Rightarrow> ConnectionStats" where
  "stats_packet_received bytes s =
     s\<lparr>st_packets_received := st_packets_received s + 1, st_in_packets_this_sec := st_in_packets_this_sec s + 1,
       st_in_bytes_this_sec := st_in_bytes_this_sec s + of_nat bytes\<rparr>"

section \<open>The connection\<close>

definition MAX_CHANNELS_PER_CONNECTION :: nat where
  "MAX_CHANNELS_PER_CONNECTION = 4"

definition NETUDP_MAX_MESSAGE_SIZE :: nat where
  "NETUDP_MAX_MESSAGE_SIZE = 288 * 1024"

record DeliveredMessage =
  dm_data :: "byte list"
  dm_channel :: nat
  dm_sequence :: u16
  dm_valid :: bool

definition no_delivered :: DeliveredMessage where
  "no_delivered = \<lparr>dm_data = [], dm_channel = 0, dm_sequence = 0, dm_valid = False\<rparr>"

record ConnectionData =
  cd_channels :: "Channel list"
  cd_reliable :: "ReliableChannelState list"
  cd_fragments :: FragmentReassembler
  cd_delivered :: "DeliveredMessage FixedRingBuffer"

record Connection =
  cn_active :: bool
  cn_generation :: u32
  cn_address :: netudp_address
  cn_client_id :: u64
  cn_user_data :: "byte list"
  cn_key_epoch :: KeyEpoch
  cn_tracker :: PacketTracker
  cn_rtt :: RttEstimator
  cn_num_channels :: nat
  cn_data :: "ConnectionData option"
  cn_fragment_send_id :: u16
  cn_bandwidth :: BandwidthBucket
  cn_budget :: QueuedBitsBudget
  cn_congestion :: CongestionControl
  cn_stats :: ConnectionStats
  cn_connect_time :: real
  cn_last_recv_time :: real
  cn_last_send_time :: real
  cn_last_keepalive_time :: real
  cn_next_slow_tick :: real
  cn_timeout_seconds :: u32
  cn_pending_mask :: byte
  cn_slot_id :: u16

definition connection_new :: Connection where
  "connection_new = \<lparr>cn_active = False, cn_generation = 0, cn_address = address_zero, cn_client_id = 0,
     cn_user_data = replicate 256 0, cn_key_epoch = key_epoch_init, cn_tracker = tracker_reset, cn_rtt = rtt_reset,
     cn_num_channels = 0, cn_data = None, cn_fragment_send_id = 0, cn_bandwidth = bandwidth_new,
     cn_budget = budget_new, cn_congestion = congestion_init DEFAULT_MAX_RATE, cn_stats = stats_new,
     cn_connect_time = 0, cn_last_recv_time = 0, cn_last_send_time = 0, cn_last_keepalive_time = 0,
     cn_next_slow_tick = 0, cn_timeout_seconds = 10, cn_pending_mask = 0, cn_slot_id = 0xFFFF\<rparr>"

text \<open>
  Allocation can fail, which is an argument. The buffers of the reassembler are not initialised, their
  content is the argument \<^verbatim>\<open>fill\<close>; channels that are not configured are default objects.
\<close>

definition default_config :: channel_config where
  "default_config = \<lparr>cc_type = UNRELIABLE, cc_priority = 0, cc_weight = 0, cc_nagle_ms = 0\<rparr>"

definition init_subsystems ::
    "bool \<Rightarrow> byte \<Rightarrow> channel_config list \<Rightarrow> nat \<Rightarrow> real \<Rightarrow> Connection \<Rightarrow> Connection" where
  "init_subsystems allocated fill configs n_channels time c =
     (if \<not> allocated then c\<lparr>cn_data := None\<rparr>
      else let num = (if n_channels > MAX_CHANNELS_PER_CONNECTION then MAX_CHANNELS_PER_CONNECTION else n_channels)
        in c\<lparr>cn_data := Some
               \<lparr>cd_channels = map (\<lambda>i. if i < num then channel_init i (configs ! i) (new_channel default_config)
                                      else new_channel default_config) [0..<MAX_CHANNELS_PER_CONNECTION],
                cd_reliable = replicate MAX_CHANNELS_PER_CONNECTION reliable_reset,
                cd_fragments = reassembler_init NETUDP_MAX_MESSAGE_SIZE fill,
                cd_delivered = rb_new 256 no_delivered\<rparr>,
             cn_num_channels := num, cn_tracker := tracker_reset, cn_rtt := rtt_reset,
             cn_bandwidth := bandwidth_init time (cn_bandwidth c), cn_congestion := congestion_init DEFAULT_MAX_RATE,
             cn_stats := stats_new\<lparr>st_last_throughput_time := time\<rparr>,
             cn_connect_time := time, cn_last_recv_time := time, cn_last_send_time := time, cn_last_keepalive_time := time\<rparr>)"

definition connection_reset :: "Connection \<Rightarrow> Connection" where
  "connection_reset c =
     c\<lparr>cn_active := False, cn_generation := cn_generation c + 1, cn_address := address_zero, cn_client_id := 0,
       cn_user_data := replicate 256 0, cn_key_epoch := key_epoch_init, cn_tracker := tracker_reset, cn_rtt := rtt_reset,
       cn_data := None, cn_congestion := congestion_reset (cn_congestion c), cn_slot_id := 0xFFFF, cn_stats := stats_new,
       cn_connect_time := 0, cn_last_recv_time := 0, cn_last_send_time := 0, cn_last_keepalive_time := 0,
       cn_timeout_seconds := 10, cn_num_channels := 0, cn_fragment_send_id := 0\<rparr>"

abbreviation cdata :: "Connection \<Rightarrow> ConnectionData" where
  "cdata c \<equiv> the (cn_data c)"

definition upd_data :: "(ConnectionData \<Rightarrow> ConnectionData) \<Rightarrow> Connection \<Rightarrow> Connection" where
  "upd_data f c = c\<lparr>cn_data := map_option f (cn_data c)\<rparr>"

definition upd_channel :: "nat \<Rightarrow> (Channel \<Rightarrow> Channel) \<Rightarrow> Connection \<Rightarrow> Connection" where
  "upd_channel i f = upd_data (\<lambda>d. d\<lparr>cd_channels := (cd_channels d)[i := f (cd_channels d ! i)]\<rparr>)"

definition upd_reliable :: "nat \<Rightarrow> (ReliableChannelState \<Rightarrow> ReliableChannelState) \<Rightarrow> Connection \<Rightarrow> Connection" where
  "upd_reliable i f = upd_data (\<lambda>d. d\<lparr>cd_reliable := (cd_reliable d)[i := f (cd_reliable d ! i)]\<rparr>)"

definition upd_stats :: "(ConnectionStats \<Rightarrow> ConnectionStats) \<Rightarrow> Connection \<Rightarrow> Connection" where
  "upd_stats f c = c\<lparr>cn_stats := f (cn_stats c)\<rparr>"

section \<open>Receiving\<close>

datatype role = Server_side | Client_side u16

datatype recv_outcome = Frames_done | Frames_disconnect byte | Overrun

definition deliver :: "nat \<Rightarrow> byte list \<times> u16 \<Rightarrow> Connection \<Rightarrow> Connection" where
  "deliver ch m =
     upd_data (\<lambda>d. d\<lparr>cd_delivered := snd (push_back
       \<lparr>dm_data = fst m, dm_channel = ch, dm_sequence = snd m, dm_valid = True\<rparr> (cd_delivered d))\<rparr>)"

definition count_message :: "Connection \<Rightarrow> Connection" where
  "count_message = upd_stats (\<lambda>s. s\<lparr>st_messages_received := st_messages_received s + 1\<rparr>)"

definition deliver_counted :: "nat \<Rightarrow> byte list \<times> u16 \<Rightarrow> Connection \<Rightarrow> Connection" where
  "deliver_counted ch m c = count_message (deliver ch m c)"

definition recv_reliable :: "nat \<Rightarrow> u16 \<Rightarrow> byte list \<Rightarrow> Connection \<Rightarrow> Connection" where
  "recv_reliable ch msg_seq data c =
     (let rs = cd_reliable (cdata c) ! ch
      in case cc_type (ch_config (cd_channels (cdata c) ! ch)) of
           RELIABLE_ORDERED \<Rightarrow>
             (let (out, rs') = receive_ordered msg_seq data rs
              in fold (deliver_counted ch) out (upd_reliable ch (\<lambda>_. rs') c))
         | RELIABLE_UNORDERED \<Rightarrow>
             (let (out, rs') = receive_unordered msg_seq data rs
              in fold (deliver_counted ch) out (upd_reliable ch (\<lambda>_. rs') c))
         | _ \<Rightarrow> c)"

definition count_fragment :: "Connection \<Rightarrow> Connection" where
  "count_fragment = upd_stats (\<lambda>s. s\<lparr>st_fragments_received := st_fragments_received s + 1\<rparr>)"

definition recv_fragment :: "real \<Rightarrow> nat \<Rightarrow> u16 \<Rightarrow> byte \<Rightarrow> byte \<Rightarrow> byte list \<Rightarrow> Connection \<Rightarrow> Connection" where
  "recv_fragment now ch msg_id frag_idx frag_cnt data c =
     (let (complete, fr) = on_fragment_received msg_id frag_idx frag_cnt data (NETUDP_MTU - 64) now (cd_fragments (cdata c));
          c1 = upd_data (\<lambda>d. d\<lparr>cd_fragments := fr\<rparr>) c
      in count_fragment
           (case complete of
              Some m \<Rightarrow> if length m > 0 then count_fragment (deliver ch (take NETUDP_MTU m, 0) c1) else c1
            | None \<Rightarrow> c1))"

text \<open>The bytes that are left in the plaintext, and the connection.\<close>

function parse_frames :: "role \<Rightarrow> real \<Rightarrow> byte list \<Rightarrow> Connection \<Rightarrow> recv_outcome \<times> Connection" where
  "parse_frames rl now [] c = (Frames_done, c)"
| "parse_frames rl now (frame_type # rest) c =
     (if frame_type = FRAME_UNRELIABLE_DATA \<and> length rest \<ge> 3 then
        let ch = unat (rest ! 0); msg_len = unat (of_le (read_at 1 2 rest) :: u16); data = drop 3 rest
        in if msg_len > length data \<or> ch \<ge> cn_num_channels c then (Frames_done, c)
           else if msg_len > NETUDP_MTU then (Overrun, c)
           else parse_frames rl now (drop msg_len data) (deliver_counted ch (take msg_len data, 0) c)
      else if frame_type = FRAME_RELIABLE_DATA \<and> length rest \<ge> 5 then
        let ch = unat (rest ! 0); msg_seq = of_le (read_at 1 2 rest); msg_len = unat (of_le (read_at 3 2 rest) :: u16);
            data = drop 5 rest
        in if msg_len > length data \<or> ch \<ge> cn_num_channels c then (Frames_done, c)
           else parse_frames rl now (drop msg_len data) (recv_reliable ch msg_seq (take msg_len data) c)
      else if rl = Server_side \<and> frame_type = FRAME_FRAGMENT_DATA \<and> length rest \<ge> 5 then
        let ch = unat (rest ! 0); msg_id = of_le (read_at 1 2 rest); data = drop 5 rest
        in if data = [] then (Frames_done, c)
           else if cn_data c = None then (Overrun, c)
           else (Frames_done, recv_fragment now ch msg_id (rest ! 3) (rest ! 4) data c)
      else if frame_type = FRAME_DISCONNECT then (Frames_disconnect (if rest = [] then 0 else hd rest), c)
      else (Frames_done, c))"
  by pat_completeness auto
termination
  by (relation "measure (\<lambda>(rl, now, bs, c). length bs)") auto

declare parse_frames.simps [simp del]

definition process_ack_fields :: "AckFields \<Rightarrow> real \<Rightarrow> Connection \<Rightarrow> Connection" where
  "process_ack_fields f now c =
     (let (n, trk) = process_acks f (cn_tracker c);
          c1 = c\<lparr>cn_tracker := trk, cn_congestion := (on_packet_acked ^^ n) (cn_congestion c)\<rparr>;
          sent_at = get_send_time trk (ack f)
      in if sent_at > 0
         then c1\<lparr>cn_rtt := on_sample sent_at now (ack_delay_us f) (cn_rtt c1), cn_congestion := on_rtt_sample (cn_congestion c1)\<rparr>
         else c1)"

definition process_plaintext :: "role \<Rightarrow> real \<Rightarrow> nat \<Rightarrow> byte list \<Rightarrow> Connection \<Rightarrow> recv_outcome \<times> Connection" where
  "process_plaintext rl now packet_len pt c =
     (let c1 = upd_stats (stats_packet_received packet_len) (c\<lparr>cn_last_recv_time := now\<rparr>)
      in if length pt < 8 then (Frames_done, c1)
         else let c2 = process_ack_fields (read_ack_fields pt) now c1;
                  c3 = c2\<lparr>cn_tracker := on_packet_received 0 now (cn_tracker c2)\<rparr>
           in parse_frames rl now (drop 8 pt) c3)"

datatype packet_result = Packet_ignored | Decrypt_failed | Packet_processed recv_outcome

definition PACKET_PREFIX_DATA_REKEY :: byte where
  "PACKET_PREFIX_DATA_REKEY = 0x0C"

definition count_decrypt_failure :: "Connection \<Rightarrow> Connection" where
  "count_decrypt_failure = upd_stats (\<lambda>s. s\<lparr>st_decrypt_failures := st_decrypt_failures s + 1\<rparr>)"

definition server_expected_nonce :: "KeyEpoch \<Rightarrow> u64" where
  "server_expected_nonce e =
     (if most_recent (replay e) = 0 \<and> received (replay e) ! 0 = EMPTY_SLOT then 0 else most_recent (replay e) + 1)"

definition server_handle_packet ::
    "aead_fn \<Rightarrow> kdf_fn \<Rightarrow> u64 \<Rightarrow> real \<Rightarrow> byte list \<Rightarrow> Connection \<Rightarrow> packet_result \<times> Connection" where
  "server_handle_packet dec kdf protocol_id now packet c =
     (if length packet < 4 then (Packet_ignored, c)
      else let prefix = packet ! 0; nonce = server_expected_nonce (cn_key_epoch c); ct = drop 3 packet;
               (r1, e1) = packet_decrypt dec protocol_id prefix nonce ct (cn_key_epoch c);
               (r2, e2) = (case r1 of Some pt \<Rightarrow> (Some pt, e1)
                           | None \<Rightarrow> packet_decrypt_grace dec protocol_id prefix nonce ct e1)
        in case r2 of None \<Rightarrow> (Decrypt_failed, count_decrypt_failure (c\<lparr>cn_key_epoch := e2\<rparr>))
           | Some pt \<Rightarrow>
               let e3 = (if prefix = PACKET_PREFIX_DATA_REKEY then on_receive_rekey kdf now e2 else e2);
                   (out, c1) = process_plaintext Server_side now (length packet) pt (c\<lparr>cn_key_epoch := e3\<rparr>)
               in (Packet_processed out, c1))"

definition client_handle_packet ::
    "aead_fn \<Rightarrow> u64 \<Rightarrow> real \<Rightarrow> u16 \<Rightarrow> byte list \<Rightarrow> Connection \<Rightarrow> packet_result \<times> Connection" where
  "client_handle_packet dec protocol_id now server_slot packet c =
     (if length packet < 2 then (Packet_ignored, c)
      else let (r, e) = packet_decrypt dec protocol_id (packet ! 0) (most_recent (replay (cn_key_epoch c)) + 1)
                 (drop 1 packet) (cn_key_epoch c)
        in case r of None \<Rightarrow> (Decrypt_failed, count_decrypt_failure (c\<lparr>cn_key_epoch := e\<rparr>))
           | Some pt \<Rightarrow>
               let (out, c1) = process_plaintext (Client_side server_slot) now (length packet) pt (c\<lparr>cn_key_epoch := e\<rparr>)
               in (Packet_processed out, c1))"

section \<open>Sending\<close>

definition is_reliable :: "channel_type \<Rightarrow> bool" where
  "is_reliable t \<longleftrightarrow> t = RELIABLE_ORDERED \<or> t = RELIABLE_UNORDERED"

definition pick_channel :: "role \<Rightarrow> real \<Rightarrow> Connection \<Rightarrow> nat option \<times> Connection" where
  "pick_channel rl now c =
     (case rl of
        Server_side \<Rightarrow>
          (let (i, pending) = next_channel_fast (cd_channels (cdata c)) (cn_num_channels c) now (cn_pending_mask c)
           in (i, c\<lparr>cn_pending_mask := pending\<rparr>))
      | Client_side slot \<Rightarrow> (next_channel (cd_channels (cdata c)) (cn_num_channels c) now, c))"

definition ack_bytes :: "real \<Rightarrow> Connection \<Rightarrow> byte list" where
  "ack_bytes now c = write_ack_fields (build_ack_fields now (cn_tracker c))"

definition seal_packet ::
    "role \<Rightarrow> aead_fn \<Rightarrow> kdf_fn \<Rightarrow> u64 \<Rightarrow> real \<Rightarrow> byte list \<Rightarrow> KeyEpoch \<Rightarrow> byte list option \<times> KeyEpoch" where
  "seal_packet rl enc kdf protocol_id now payload e =
     (case rl of
        Server_side \<Rightarrow>
          (let e1 = (if should_rekey e now \<and> \<not> rekey_pending e then prepare_rekey e else e);
               prefix = (if rekey_pending e1 then PACKET_PREFIX_DATA_REKEY else 0x14);
               (r, e2) = packet_encrypt enc protocol_id prefix payload e1
           in case r of None \<Rightarrow> (None, e2)
              | Some ct \<Rightarrow> (Some (prefix # ct), if rekey_pending e2 then activate_rekey kdf now e2 else e2))
      | Client_side slot \<Rightarrow>
          (let (r, e1) = packet_encrypt enc protocol_id 0x14 payload e
           in (map_option (\<lambda>ct. 0x14 # le_bytes 2 slot @ ct) r, e1)))"

definition flush_packet ::
    "role \<Rightarrow> aead_fn \<Rightarrow> kdf_fn \<Rightarrow> u64 \<Rightarrow> real \<Rightarrow> byte list \<Rightarrow> nat \<Rightarrow> Connection \<Rightarrow> byte list option \<times> Connection" where
  "flush_packet rl enc kdf protocol_id now payload frames c =
     (let c1 = c\<lparr>cn_tracker := snd (send_packet now (cn_tracker c))\<rparr>;
          (r, e) = seal_packet rl enc kdf protocol_id now payload (cn_key_epoch c1);
          c2 = c1\<lparr>cn_key_epoch := e\<rparr>
      in case r of None \<Rightarrow> (None, c2)
         | Some packet \<Rightarrow>
             (Some packet,
              upd_stats (\<lambda>s. (stats_packet_sent (length packet) s)\<lparr>st_frames_coalesced := st_frames_coalesced s + of_nat frames\<rparr>)
                (c2\<lparr>cn_last_send_time := now, cn_budget := budget_consume (length packet) (cn_budget c2)\<rparr>)))"

definition write_message :: "nat \<Rightarrow> real \<Rightarrow> QueuedMessage \<Rightarrow> nat \<Rightarrow> Connection \<Rightarrow> byte list option \<times> Connection" where
  "write_message ch_idx now qmsg remaining c =
     (if is_reliable (cc_type (ch_config (cd_channels (cdata c) ! ch_idx)))
      then (write_reliable_frame remaining (of_nat ch_idx) (qm_sequence qmsg) (qm_data qmsg),
            upd_reliable ch_idx (\<lambda>r. snd (record_send (qm_data qmsg) (send_sequence (cn_tracker c)) now r)) c)
      else (write_unreliable_frame remaining (of_nat ch_idx) (qm_data qmsg), c))"

definition frame_overhead :: "channel_type \<Rightarrow> nat" where
  "frame_overhead t = (if is_reliable t then 6 else 4)"

definition queued_total :: "Connection \<Rightarrow> nat" where
  "queued_total c = (case cn_data c of None \<Rightarrow> 0 | Some d \<Rightarrow> sum_list (map (\<lambda>ch. rb_size (send_queue ch)) (cd_channels d)))"

text \<open>
  Before a message is written: when its frame does not fit behind the frames of the packet, the
  packet is sent and a new one is started. \<^term>\<open>Some b\<close> leaves the loop, by \<^verbatim>\<open>return\<close> if \<^verbatim>\<open>b\<close>.
\<close>

definition make_room ::
    "role \<Rightarrow> aead_fn \<Rightarrow> kdf_fn \<Rightarrow> u64 \<Rightarrow> real \<Rightarrow> nat \<Rightarrow> byte list \<Rightarrow> nat \<Rightarrow> byte list list \<Rightarrow> Connection \<Rightarrow>
     bool option \<times> byte list \<times> nat \<times> byte list list \<times> Connection" where
  "make_room rl enc kdf protocol_id now needed payload frames out c =
     (if needed > NETUDP_MTU - length payload \<and> frames > 0 then
        let (r, c1) = flush_packet rl enc kdf protocol_id now payload frames c
        in case r of None \<Rightarrow> (Some False, payload, frames, out, c1)
           | Some packet \<Rightarrow>
               if \<not> can_send (cn_budget c1) then (Some True, payload, frames, out @ [packet], c1)
               else (None, ack_bytes now c1, 0, out @ [packet], c1)
      else (None, payload, frames, out, c))"

lemma upd_simps [simp]:
  "cn_data (upd_stats f c) = cn_data c" "cn_data (upd_data g c) = map_option g (cn_data c)"
  by (simp_all add: upd_stats_def upd_data_def)

lemma flush_packet_data [simp]: "cn_data (snd (flush_packet rl enc kdf pid now payload frames c)) = cn_data c"
  by (simp add: flush_packet_def Let_def split_beta split: option.splits)

lemma make_room_data:
  "make_room rl enc kdf pid now needed payload frames out c = (r, payload', frames', out', c') \<Longrightarrow> cn_data c' = cn_data c"
  using flush_packet_data [of rl enc kdf pid now payload frames c]
  by (auto simp: make_room_def split_beta split: if_splits option.splits)

lemma pick_channel_data [simp]: "cn_data (snd (pick_channel rl now c)) = cn_data c"
  by (simp add: pick_channel_def split_beta split: role.splits)

lemma next_loop_pending:
  "next_channel_loop chs now is best = Some (b, p) \<Longrightarrow> best = Some (b, p) \<or> b \<in> set is \<and> has_pending now (chs ! b)"
proof (induction "is" arbitrary: best)
  case (Cons i "is")
  from Cons.IH [of "if has_pending now (chs ! i) then better chs i best else best"] Cons.prems show ?case
    by (auto simp: better_def split: if_splits)
qed simp

lemma pick_channel_pending:
  assumes "pick_channel rl now c = (Some i, c1)"
  shows "has_pending now (cd_channels (cdata c) ! i) \<and> i < cn_num_channels c"
proof (cases rl)
  case Server_side
  let ?chs = "cd_channels (cdata c)" and ?m = "cn_pending_mask c"
  let ?r = "next_channel_fast_loop ?chs now ?m [0..<min (cn_num_channels c) 8] (None, 0)"
  have "map_option fst (fst ?r) = Some i"
    using assms Server_side
    by (auto simp: pick_channel_def next_channel_fast_def split_beta split: if_splits)
  then obtain p where "next_channel_loop ?chs now (filter (bit ?m) [0..<min (cn_num_channels c) 8]) None = Some (i, p)"
    by (auto simp: fast_loop_best)
  from next_loop_pending [OF this] show ?thesis by auto
next
  case (Client_side slot)
  then obtain p where "next_channel_loop (cd_channels (cdata c)) now [0..<cn_num_channels c] None = Some (i, p)"
    using assms by (auto simp: pick_channel_def next_channel_def)
  from next_loop_pending [OF this] show ?thesis by auto
qed

lemma queued_total_dequeue:
  assumes "cn_data c \<noteq> None" and "i < length (cd_channels (cdata c))" and "dequeue_send (cd_channels (cdata c) ! i) = (Some q, ch1)"
  shows "queued_total (upd_channel i (\<lambda>_. ch1) c) < queued_total c"
proof -
  obtain d where d: "cn_data c = Some d" using assms(1) by auto
  let ?f = "\<lambda>ch. rb_size (send_queue ch)"
  have sz: "?f ch1 < ?f (cd_channels d ! i)"
    using assms(3) d by (auto simp: dequeue_send_def pop_front_def split: if_splits)
  have i: "i < length (cd_channels d)" using assms(2) d by simp
  have "cd_channels d = take i (cd_channels d) @ cd_channels d ! i # drop (Suc i) (cd_channels d)"
    using id_take_nth_drop [OF i] .
  then have "sum_list (map ?f (cd_channels d)) =
      sum_list (map ?f (take i (cd_channels d))) + ?f (cd_channels d ! i) + sum_list (map ?f (drop (Suc i) (cd_channels d)))"
    by (metis (no_types, lifting) add.assoc list.simps(9) map_append sum_list.Cons sum_list.append)
  moreover have "sum_list (map ?f ((cd_channels d)[i := ch1])) =
      sum_list (map ?f (take i (cd_channels d))) + ?f ch1 + sum_list (map ?f (drop (Suc i) (cd_channels d)))"
    using i by (simp add: upd_conv_take_nth_drop)
  ultimately show ?thesis using sz d by (simp add: queued_total_def upd_channel_def)
qed

lemma queued_total_write: "queued_total (snd (write_message i now q remaining c)) = queued_total c"
  by (cases "cn_data c") (simp_all add: write_message_def queued_total_def upd_reliable_def)

function send_loop ::
    "role \<Rightarrow> aead_fn \<Rightarrow> kdf_fn \<Rightarrow> u64 \<Rightarrow> real \<Rightarrow> byte list \<Rightarrow> nat \<Rightarrow> byte list list \<Rightarrow> Connection \<Rightarrow>
     bool \<times> byte list \<times> nat \<times> byte list list \<times> Connection" where
  "send_loop rl enc kdf protocol_id now payload frames out c =
     (case pick_channel rl now c of
        (None, c1) \<Rightarrow> (False, payload, frames, out, c1)
      | (Some ch_idx, c1) \<Rightarrow>
          if cn_data c1 = None \<or> ch_idx \<ge> length (cd_channels (cdata c1)) then (False, payload, frames, out, c1)
          else (case dequeue_send (cd_channels (cdata c1) ! ch_idx) of
              (None, ch) \<Rightarrow> send_loop rl enc kdf protocol_id now payload frames out (upd_channel ch_idx (\<lambda>_. ch) c1)
            | (Some qmsg, ch) \<Rightarrow>
                (case make_room rl enc kdf protocol_id now (frame_overhead (cc_type (ch_config ch)) + length (qm_data qmsg))
                        payload frames out (upd_channel ch_idx (\<lambda>_. ch) c1) of
                   (Some returned, payload1, frames1, out1, c2) \<Rightarrow> (returned, payload1, frames1, out1, c2)
                 | (None, payload1, frames1, out1, c2) \<Rightarrow>
                     (case write_message ch_idx now qmsg (NETUDP_MTU - length payload1) c2 of
                        (None, c3) \<Rightarrow> (False, payload1, frames1, out1, c3)
                      | (Some frame, c3) \<Rightarrow>
                          send_loop rl enc kdf protocol_id now (payload1 @ frame) (frames1 + 1) out1 c3))))"
  by pat_completeness auto
termination
proof (relation "measure (\<lambda>(rl, enc, kdf, pid, now, payload, frames, out, c). queued_total c)", goal_cases)
  case (2 rl enc kdf pid now payload frames out c x c1 i y ch)
  then have p: "pick_channel rl now c = (Some i, c1)" by simp
  then have "cn_data c1 = cn_data c" using pick_channel_data [of rl now c] by simp
  then have "has_pending now (cd_channels (cdata c1) ! i)" using pick_channel_pending [OF p] by simp
  then show ?case using 2 by (auto simp: has_pending_def dequeue_send_def pop_front_def split: if_splits)
next
  case (3 rl enc kdf pid now payload frames out c x c1 i y ch q z r payload1 w frames1 v out1 c2 u c3 frame)
  have "pick_channel rl now c = (Some i, c1)" using 3 by simp
  then have d1: "cn_data c1 = cn_data c" using pick_channel_data [of rl now c] by simp
  have "queued_total (upd_channel i (\<lambda>_. ch) c1) < queued_total c1"
    using 3 queued_total_dequeue [of c1 i q ch] by auto
  moreover have "queued_total c1 = queued_total c" by (simp add: queued_total_def d1)
  moreover have "make_room rl enc kdf pid now (frame_overhead (cc_type (ch_config ch)) + length (qm_data q)) payload
      frames out (upd_channel i (\<lambda>_. ch) c1) = (None, payload1, frames1, out1, c2)" using 3 by simp
  from make_room_data [OF this] have "queued_total c2 = queued_total (upd_channel i (\<lambda>_. ch) c1)"
    by (simp add: queued_total_def)
  moreover have "queued_total c3 = queued_total c2"
    using queued_total_write 3 by (metis snd_conv)
  ultimately show ?case by simp
qed simp

declare send_loop.simps [simp del]

definition send_pending ::
    "role \<Rightarrow> aead_fn \<Rightarrow> kdf_fn \<Rightarrow> u64 \<Rightarrow> real \<Rightarrow> Connection \<Rightarrow> byte list list \<times> Connection" where
  "send_pending rl enc kdf protocol_id now c =
     (if \<not> can_send (cn_budget c) then ([], c)
      else let (returned, payload, frames, out, c1) = send_loop rl enc kdf protocol_id now (ack_bytes now c) 0 [] c
        in if returned \<or> frames = 0 then (out, c1)
           else case flush_packet rl enc kdf protocol_id now payload frames c1 of
             (None, c2) \<Rightarrow> (out, c2) | (Some packet, c2) \<Rightarrow> (out @ [packet], c2))"

definition server_keepalive :: "aead_fn \<Rightarrow> u64 \<Rightarrow> real \<Rightarrow> Connection \<Rightarrow> byte list option \<times> Connection" where
  "server_keepalive enc protocol_id now c =
     (let payload = ack_bytes now c;
          c1 = c\<lparr>cn_tracker := snd (send_packet now (cn_tracker c))\<rparr>;
          (r, e) = packet_encrypt enc protocol_id 0x15 payload (cn_key_epoch c1);
          c2 = c1\<lparr>cn_key_epoch := e\<rparr>
      in case r of None \<Rightarrow> (None, c2)
         | Some ct \<Rightarrow>
             if length ct = 0 then (None, c2)
             else (Some (0x15 # ct), c2\<lparr>cn_last_send_time := now, cn_last_keepalive_time := now\<rparr>))"

definition client_keepalive :: "aead_fn \<Rightarrow> u64 \<Rightarrow> real \<Rightarrow> u16 \<Rightarrow> Connection \<Rightarrow> byte list option \<times> Connection" where
  "client_keepalive enc protocol_id now server_slot c =
     (let payload = ack_bytes now c;
          c1 = c\<lparr>cn_tracker := snd (send_packet now (cn_tracker c))\<rparr>;
          (r, e) = packet_encrypt enc protocol_id 0x15 payload (cn_key_epoch c1);
          c2 = c1\<lparr>cn_key_epoch := e\<rparr>
      in case r of None \<Rightarrow> (None, c2)
         | Some ct \<Rightarrow>
             if length ct = 0 then (None, c2)
             else (Some (0x15 # le_bytes 2 server_slot @ ct), c2\<lparr>cn_last_send_time := now\<rparr>))"

end
