(* ===== verification/Message_Path.thy ===== *)
theory Message_Path
  imports Connection
begin

text \<open>
  What the message path guarantees end to end: the frames of a packet parse back to what was written,
  the packets a client sends are taken apart by the server into the messages the scheduler picked, in
  order, and what happens when a packet is lost or carries an oversized frame.
\<close>

section \<open>Frames\<close>

datatype out_frame = Unreliable_out nat "byte list" | Reliable_out nat u16 "byte list"

fun frame_bytes :: "out_frame \<Rightarrow> byte list" where
  "frame_bytes (Unreliable_out ch d) = [FRAME_UNRELIABLE_DATA, of_nat ch] @ le_bytes 2 (of_nat (length d) :: u16) @ d"
| "frame_bytes (Reliable_out ch s d) =
     [FRAME_RELIABLE_DATA, of_nat ch] @ le_bytes 2 s @ le_bytes 2 (of_nat (length d) :: u16) @ d"

fun frame_ok :: "nat \<Rightarrow> out_frame \<Rightarrow> bool" where
  "frame_ok n (Unreliable_out ch d) \<longleftrightarrow> ch < n \<and> length d \<le> 1200"
| "frame_ok n (Reliable_out ch s d) \<longleftrightarrow> ch < n \<and> length d \<le> 1200"

fun frame_effect :: "out_frame \<Rightarrow> Connection \<Rightarrow> Connection" where
  "frame_effect (Unreliable_out ch d) c = deliver_counted ch (d, 0) c"
| "frame_effect (Reliable_out ch s d) c = recv_reliable ch s d c"

lemma upd_frame [simp]:
  "cn_num_channels (upd_data f c) = cn_num_channels c" "cn_num_channels (upd_stats g c) = cn_num_channels c"
  "cn_key_epoch (upd_data f c) = cn_key_epoch c" "cn_key_epoch (upd_stats g c) = cn_key_epoch c"
  by (simp_all add: upd_data_def upd_stats_def)

lemma deliver_counted_frame [simp]:
  "cn_num_channels (deliver_counted ch m c) = cn_num_channels c" "cn_key_epoch (deliver_counted ch m c) = cn_key_epoch c"
  by (simp_all add: deliver_counted_def count_message_def deliver_def)

lemma fold_deliver_frame [simp]:
  "cn_num_channels (fold (deliver_counted ch) ms c) = cn_num_channels c"
  "cn_key_epoch (fold (deliver_counted ch) ms c) = cn_key_epoch c"
  by (induction ms arbitrary: c) simp_all

lemma recv_reliable_frame [simp]:
  "cn_num_channels (recv_reliable ch s d c) = cn_num_channels c" "cn_key_epoch (recv_reliable ch s d c) = cn_key_epoch c"
  by (simp_all add: recv_reliable_def upd_reliable_def Let_def split_beta split: channel_type.splits)

lemma frame_effect_frame [simp]:
  "cn_num_channels (frame_effect f c) = cn_num_channels c" "cn_key_epoch (frame_effect f c) = cn_key_epoch c"
  by (cases f; simp)+

lemma fold_effect_frame [simp]:
  "cn_num_channels (fold frame_effect fs c) = cn_num_channels c" "cn_key_epoch (fold frame_effect fs c) = cn_key_epoch c"
  by (induction fs arbitrary: c) simp_all

lemma u16_length: "length d \<le> 1200 \<Longrightarrow> unat (of_nat (length d) :: u16) = length d"
  by (simp add: unsigned_of_nat take_bit_nat_eq_self)

lemma byte_channel: "ch < 256 \<Longrightarrow> unat (of_nat ch :: byte) = ch"
  by (simp add: unsigned_of_nat take_bit_nat_eq_self)

lemma parse_frame:
  assumes "frame_ok n f" and "n \<le> 256" and "n = cn_num_channels c"
  shows "parse_frames rl now (frame_bytes f @ rest) c = parse_frames rl now rest (frame_effect f c)"
proof (cases f)
  case (Unreliable_out ch d)
  then have "unat (of_nat ch :: byte) = ch" "unat (of_nat (length d) :: u16) = length d" "length d \<le> 1200" "ch < cn_num_channels c"
    using assms by (auto simp: u16_length byte_channel)
  moreover have "of_le (read_at 1 2 (of_nat ch # le_bytes 2 (of_nat (length d) :: u16) @ d @ rest)) = (of_nat (length d) :: u16)"
    by (simp add: read_at_def)
  ultimately show ?thesis
    by (simp add: Unreliable_out parse_frames.simps frame_types Let_def NETUDP_MTU_def)
next
  case (Reliable_out ch s d)
  then have "unat (of_nat ch :: byte) = ch" "unat (of_nat (length d) :: u16) = length d" "length d \<le> 1200" "ch < cn_num_channels c"
    using assms by (auto simp: u16_length byte_channel)
  moreover have "of_le (read_at 1 2 (of_nat ch # le_bytes 2 s @ le_bytes 2 (of_nat (length d) :: u16) @ d @ rest)) = s"
    "of_le (read_at 3 2 (of_nat ch # le_bytes 2 s @ le_bytes 2 (of_nat (length d) :: u16) @ d @ rest)) = (of_nat (length d) :: u16)"
    by (simp_all add: read_at_def)
  ultimately show ?thesis
    by (simp add: Reliable_out parse_frames.simps frame_types Let_def)
qed

lemma parse_all_frames:
  assumes "\<forall>f\<in>set fs. frame_ok (cn_num_channels c) f" and "cn_num_channels c \<le> 256"
  shows "parse_frames rl now (concat (map frame_bytes fs) @ rest) c = parse_frames rl now rest (fold frame_effect fs c)"
  using assms
proof (induction fs arbitrary: c)
  case (Cons f fs)
  have "parse_frames rl now (frame_bytes f @ concat (map frame_bytes fs) @ rest) c =
    parse_frames rl now (concat (map frame_bytes fs) @ rest) (frame_effect f c)"
    using Cons.prems by (intro parse_frame [where n = "cn_num_channels c"]) auto
  then show ?case using Cons by simp
qed simp

section \<open>What a sender puts into packets\<close>

text \<open>The messages the scheduler picks one after the other when nothing else happens.\<close>

definition out_frame_of :: "Channel \<Rightarrow> nat \<Rightarrow> QueuedMessage \<Rightarrow> out_frame" where
  "out_frame_of ch i q =
     (if is_reliable (cc_type (ch_config ch)) then Reliable_out i (qm_sequence q) (qm_data q) else Unreliable_out i (qm_data q))"

inductive picks :: "real \<Rightarrow> nat \<Rightarrow> Channel list \<Rightarrow> out_frame list \<Rightarrow> Channel list \<Rightarrow> bool" where
  stop: "next_channel chs n now = None \<Longrightarrow> picks now n chs [] chs"
| pick: "next_channel chs n now = Some i \<Longrightarrow> dequeue_send (chs ! i) = (Some q, ch) \<Longrightarrow>
    picks now n (chs[i := ch]) fs chs' \<Longrightarrow> picks now n chs (out_frame_of ch i q # fs) chs'"

text \<open>A client packet that carries given frames behind some acknowledgement fields.\<close>

definition carries :: "aead_fn \<Rightarrow> byte list \<Rightarrow> u64 \<Rightarrow> u16 \<Rightarrow> u64 \<Rightarrow> out_frame list \<Rightarrow> byte list \<Rightarrow> bool" where
  "carries enc key pid slot nonce fs p \<longleftrightarrow>
     (\<exists>a ct. length a = 8 \<and> length (a @ concat (map frame_bytes fs)) \<le> 1200 \<and>
        enc key (build_nonce nonce) (build_aad pid 0x14) (a @ concat (map frame_bytes fs)) = Some ct \<and>
        p = 0x14 # le_bytes 2 slot @ ct)"

fun carries_all :: "aead_fn \<Rightarrow> byte list \<Rightarrow> u64 \<Rightarrow> u16 \<Rightarrow> u64 \<Rightarrow> out_frame list list \<Rightarrow> byte list list \<Rightarrow> bool" where
  "carries_all enc key pid slot nonce (g # gs) (p # ps) \<longleftrightarrow>
     carries enc key pid slot nonce g p \<and> carries_all enc key pid slot (nonce + 1) gs ps"
| "carries_all enc key pid slot nonce [] [] \<longleftrightarrow> True"
| "carries_all enc key pid slot nonce _ _ \<longleftrightarrow> False"

definition sender_ok :: "Connection \<Rightarrow> bool" where
  "sender_ok c \<longleftrightarrow> (\<exists>d. cn_data c = Some d \<and> cn_num_channels c \<le> length (cd_channels d) \<and> cn_num_channels c \<le> 256 \<and>
     (\<forall>ch\<in>set (cd_channels d). ch_ok ch \<and> (\<forall>q\<in>set (ch_queue ch). length (qm_data q) \<le> 1186)))"

lemma client_flush:
  assumes "aead enc dec ov"
  obtains ct c1 where "enc (tx_key (cn_key_epoch c)) (build_nonce (tx_nonce_counter (cn_key_epoch c))) (build_aad pid 0x14) payload = Some ct"
    "length ct = length payload + ov"
    "flush_packet (Client_side slot) enc kdf pid now payload frames c = (Some (0x14 # le_bytes 2 slot @ ct), c1)"
    "cn_data c1 = cn_data c" "cn_num_channels c1 = cn_num_channels c" "tx_key (cn_key_epoch c1) = tx_key (cn_key_epoch c)"
    "tx_nonce_counter (cn_key_epoch c1) = tx_nonce_counter (cn_key_epoch c) + 1"
    "cn_budget c1 = budget_consume (3 + length ct) (cn_budget c)"
proof -
  let ?e = "cn_key_epoch c"
  obtain ct where ct: "enc (tx_key ?e) (build_nonce (tx_nonce_counter ?e)) (build_aad pid 0x14) payload = Some ct"
    "length ct = length payload + ov" using aead.enc_cases [OF assms] by metis
  then show ?thesis
    using that [of ct "snd (flush_packet (Client_side slot) enc kdf pid now payload frames c)"]
    by (simp add: flush_packet_def seal_packet_def packet_encrypt_def upd_stats_def numeral_3_eq_3)
qed

lemma length_out_frame: "length (frame_bytes (out_frame_of ch i q)) = frame_overhead (cc_type (ch_config ch)) + length (qm_data q)"
  by (simp add: out_frame_of_def frame_overhead_def)

lemma upd_channel_simps:
  "cn_data c = Some d \<Longrightarrow> cn_data (upd_channel i f c) = Some (d\<lparr>cd_channels := (cd_channels d)[i := f (cd_channels d ! i)]\<rparr>)"
  "cn_num_channels (upd_channel i f c) = cn_num_channels c" "cn_key_epoch (upd_channel i f c) = cn_key_epoch c"
  "cn_budget (upd_channel i f c) = cn_budget c"
  by (simp_all add: upd_channel_def upd_data_def)

lemma dequeue_config: "dequeue_send ch = (r, ch') \<Longrightarrow> ch_config ch' = ch_config ch"
  by (auto simp: dequeue_send_def split_beta split: if_splits)

lemma write_message_fits:
  assumes "cn_data c = Some d" and "cd_channels d ! i = ch" and "frame_overhead (cc_type (ch_config ch)) + length (qm_data q) \<le> remaining"
    and "length (qm_data q) \<le> 1200"
  obtains c1 d1 where "write_message i now q remaining c = (Some (frame_bytes (out_frame_of ch i q)), c1)"
    "cn_data c1 = Some d1" "cd_channels d1 = cd_channels d" "cn_num_channels c1 = cn_num_channels c"
    "cn_key_epoch c1 = cn_key_epoch c" "cn_budget c1 = cn_budget c"
proof (cases "is_reliable (cc_type (ch_config ch))")
  case True
  let ?u = "upd_reliable i (\<lambda>r. snd (record_send (qm_data q) (send_sequence (cn_tracker c)) now r)) c"
  have "write_message i now q remaining c = (Some (frame_bytes (out_frame_of ch i q)), ?u)"
    using assms True by (simp add: write_message_def out_frame_of_def frame_overhead_def write_reliable_frame_def)
  then show ?thesis using that [of ?u] assms(1) by (simp add: upd_reliable_def upd_data_def)
next
  case False
  have "write_message i now q remaining c = (Some (frame_bytes (out_frame_of ch i q)), c)"
    using assms False by (simp add: write_message_def out_frame_of_def frame_overhead_def write_unreliable_frame_def)
  then show ?thesis using that [of c d] assms(1) by simp
qed

text \<open>What \<^verbatim>\<open>make_room\<close> does for a client whose budget lasts.\<close>

lemma client_make_room:
  assumes law: "aead enc dec ov" and payload: "payload = a @ concat (map frame_bytes cur)" "length a = 8" "length payload \<le> 1200"
    and budget: "queued_bits (cn_budget c) + 8 * (1203 + int ov) * (1 + int k) \<le> 0" and needed: "needed \<le> 1192"
  obtains a' cur' ps c1 gs where
    "make_room (Client_side slot) enc kdf pid now needed payload (length cur) out c =
       (None, a' @ concat (map frame_bytes cur'), length cur', out @ ps, c1)"
    "length a' = 8" "length (a' @ concat (map frame_bytes cur')) + needed \<le> 1200" "concat gs @ cur' = cur"
    "carries_all enc (tx_key (cn_key_epoch c)) pid slot (tx_nonce_counter (cn_key_epoch c)) gs ps"
    "cn_data c1 = cn_data c" "cn_num_channels c1 = cn_num_channels c" "tx_key (cn_key_epoch c1) = tx_key (cn_key_epoch c)"
    "tx_nonce_counter (cn_key_epoch c1) = tx_nonce_counter (cn_key_epoch c) + of_nat (length ps)"
    "queued_bits (cn_budget c1) + 8 * (1203 + int ov) * int k \<le> 0" "length ps \<le> 1"
proof (cases "needed > 1200 - length payload \<and> cur \<noteq> []")
  case True
  obtain ct c1 where f: "enc (tx_key (cn_key_epoch c)) (build_nonce (tx_nonce_counter (cn_key_epoch c))) (build_aad pid 0x14) payload = Some ct"
    "length ct = length payload + ov"
    "flush_packet (Client_side slot) enc kdf pid now payload (length cur) c = (Some (0x14 # le_bytes 2 slot @ ct), c1)"
    "cn_data c1 = cn_data c" "cn_num_channels c1 = cn_num_channels c" "tx_key (cn_key_epoch c1) = tx_key (cn_key_epoch c)"
    "tx_nonce_counter (cn_key_epoch c1) = tx_nonce_counter (cn_key_epoch c) + 1"
    "cn_budget c1 = budget_consume (3 + length ct) (cn_budget c)"
    using client_flush [OF law] .
  have "8 * (3 + int (length ct)) \<le> 8 * (1203 + int ov)" using f(2) payload(3) by simp
  then have q: "queued_bits (cn_budget c1) + 8 * (1203 + int ov) * int k \<le> 0"
    using budget by (simp add: f(8) budget_consume_def algebra_simps)
  moreover have "0 \<le> 8 * (1203 + int ov) * int k" by simp
  ultimately have "can_send (cn_budget c1)" unfolding can_send_def by linarith
  then have "make_room (Client_side slot) enc kdf pid now needed payload (length cur) out c =
      (None, ack_bytes now c1 @ concat (map frame_bytes []), length ([] :: out_frame list), out @ [0x14 # le_bytes 2 slot @ ct], c1)"
    using True f(3) by (simp add: make_room_def NETUDP_MTU_def)
  moreover have "carries enc (tx_key (cn_key_epoch c)) pid slot (tx_nonce_counter (cn_key_epoch c)) cur (0x14 # le_bytes 2 slot @ ct)"
    unfolding carries_def using f(1) payload by auto
  moreover have "length (ack_bytes now c1) = 8" by (simp add: ack_bytes_def)
  ultimately show ?thesis
    using that [of "ack_bytes now c1" "[]" "[0x14 # le_bytes 2 slot @ ct]" c1 "[cur]"] f(4-7) q needed by simp
next
  case False
  have "make_room (Client_side slot) enc kdf pid now needed payload (length cur) out c = (None, payload, length cur, out, c)"
    using False by (auto simp: make_room_def NETUDP_MTU_def)
  moreover have "length payload + needed \<le> 1200" using False payload needed by auto
  moreover have "queued_bits (cn_budget c) + 8 * (1203 + int ov) * int k \<le> 0"
  proof -
    have "8 * (1203 + int ov) * (1 + int k) = 8 * (1203 + int ov) + 8 * (1203 + int ov) * int k" by (simp add: algebra_simps)
    moreover have "0 \<le> 8 * (1203 + int ov)" by simp
    ultimately show ?thesis using budget by linarith
  qed
  ultimately show ?thesis using that [of a cur "[]" c "[]"] payload by simp
qed

lemma carries_all_append:
  "carries_all enc key pid slot n gs ps \<Longrightarrow> carries_all enc key pid slot (n + of_nat (length ps)) hs qs \<Longrightarrow>
   carries_all enc key pid slot n (gs @ hs) (ps @ qs)"
  by (induction enc key pid slot n gs ps rule: carries_all.induct) (auto simp: add_ac)

lemma sender_dequeue:
  assumes ok: "sender_ok c" and d: "cn_data c = Some d" and i: "next_channel (cd_channels d) (cn_num_channels c) now = Some i"
  obtains q ch where "dequeue_send (cd_channels d ! i) = (Some q, ch)" "i < length (cd_channels d)" "i < cn_num_channels c" "length (qm_data q) \<le> 1186"
    "sender_ok (upd_channel i (\<lambda>_. ch) c)" "queued_total (upd_channel i (\<lambda>_. ch) c) < queued_total c"
proof -
  let ?ch = "cd_channels d ! i"
  have p: "has_pending now ?ch" "i < cn_num_channels c"
    using pick_channel_pending [of "Client_side 0" now c i c] d i by (simp_all add: pick_channel_def)
  then have il: "i < length (cd_channels d)" using ok d by (auto simp: sender_ok_def)
  then have chk: "ch_ok ?ch" "\<forall>q\<in>set (ch_queue ?ch). length (qm_data q) \<le> 1186" using ok d by (auto simp: sender_ok_def)
  have "rb_size (send_queue ?ch) \<noteq> 0" using p(1) by (auto simp: has_pending_def split: if_splits)
  then obtain q ch where q: "dequeue_send ?ch = (Some q, ch)" "ch_ok ch" "ch_queue ?ch = q # ch_queue ch"
    using dequeue_send_cases [OF chk(1)] by (metis length_rb_items list.size(3))
  have "sender_ok (upd_channel i (\<lambda>_. ch) c)"
    using ok d q chk by (auto simp: sender_ok_def upd_channel_simps dest!: set_update_subset_insert [THEN subsetD])
  then show thesis
    using that [OF q(1) il p(2)] q(3) chk(2) queued_total_dequeue [of c i q ch] d il q(1) by simp
qed

lemma sender_ok_cong:
  "sender_ok c \<Longrightarrow> cn_data c = Some d \<Longrightarrow> cn_data c1 = Some d1 \<Longrightarrow> cd_channels d1 = cd_channels d \<Longrightarrow>
   cn_num_channels c1 = cn_num_channels c \<Longrightarrow> sender_ok c1"
  by (simp add: sender_ok_def)

lemma queued_total_cong:
  "cn_data c = Some d \<Longrightarrow> cn_data c1 = Some d1 \<Longrightarrow> cd_channels d1 = cd_channels d \<Longrightarrow> queued_total c1 = queued_total c"
  by (simp add: queued_total_def)

text \<open>One turn of the client's loop.\<close>

lemma client_loop_step:
  assumes law: "aead enc dec ov" and ok: "sender_ok c" and d: "cn_data c = Some d"
    and i: "next_channel (cd_channels d) (cn_num_channels c) now = Some i"
    and a: "length a = 8" "length (a @ concat (map frame_bytes cur)) \<le> 1200"
    and budget: "queued_bits (cn_budget c) + 8 * (1203 + int ov) * int (queued_total c) \<le> 0"
  obtains q ch a' cur' gs ps c2 d2 where "dequeue_send (cd_channels d ! i) = (Some q, ch)"
    "send_loop (Client_side slot) enc kdf pid now (a @ concat (map frame_bytes cur)) (length cur) out c =
     send_loop (Client_side slot) enc kdf pid now (a' @ concat (map frame_bytes (cur' @ [out_frame_of ch i q])))
       (length (cur' @ [out_frame_of ch i q])) (out @ ps) c2"
    "length a' = 8" "length (a' @ concat (map frame_bytes (cur' @ [out_frame_of ch i q]))) \<le> 1200" "concat gs @ cur' = cur"
    "carries_all enc (tx_key (cn_key_epoch c)) pid slot (tx_nonce_counter (cn_key_epoch c)) gs ps"
    "sender_ok c2" "cn_data c2 = Some d2" "cd_channels d2 = (cd_channels d)[i := ch]" "cn_num_channels c2 = cn_num_channels c"
    "tx_key (cn_key_epoch c2) = tx_key (cn_key_epoch c)"
    "tx_nonce_counter (cn_key_epoch c2) = tx_nonce_counter (cn_key_epoch c) + of_nat (length ps)"
    "queued_bits (cn_budget c2) + 8 * (1203 + int ov) * int (queued_total c2) \<le> 0" "queued_total c2 < queued_total c"
    "length ps + queued_total c2 \<le> queued_total c" "frame_ok (cn_num_channels c) (out_frame_of ch i q)"
proof -
  obtain q ch where q: "dequeue_send (cd_channels d ! i) = (Some q, ch)" "i < length (cd_channels d)" "i < cn_num_channels c" "length (qm_data q) \<le> 1186"
    "sender_ok (upd_channel i (\<lambda>_. ch) c)" "queued_total (upd_channel i (\<lambda>_. ch) c) < queued_total c"
    using sender_dequeue [OF ok d i] .
  let ?c1 = "upd_channel i (\<lambda>_. ch) c" and ?n = "frame_overhead (cc_type (ch_config ch)) + length (qm_data q)"
  have c1: "cn_data ?c1 = Some (d\<lparr>cd_channels := (cd_channels d)[i := ch]\<rparr>)" using d by (simp add: upd_channel_simps)
  have "8 * (1203 + int ov) * (1 + int (queued_total ?c1)) \<le> 8 * (1203 + int ov) * int (queued_total c)"
    using q(6) by (intro mult_left_mono) auto
  then have b1: "queued_bits (cn_budget ?c1) + 8 * (1203 + int ov) * (1 + int (queued_total ?c1)) \<le> 0"
    using budget unfolding upd_channel_simps by linarith
  have n: "?n \<le> 1192" using q(4) by (simp add: frame_overhead_def)
  obtain a' cur' ps c2 gs where room:
    "make_room (Client_side slot) enc kdf pid now ?n (a @ concat (map frame_bytes cur)) (length cur) out ?c1 =
       (None, a' @ concat (map frame_bytes cur'), length cur', out @ ps, c2)"
    "length a' = 8" "length (a' @ concat (map frame_bytes cur')) + ?n \<le> 1200" "concat gs @ cur' = cur"
    "carries_all enc (tx_key (cn_key_epoch ?c1)) pid slot (tx_nonce_counter (cn_key_epoch ?c1)) gs ps"
    "cn_data c2 = cn_data ?c1" "cn_num_channels c2 = cn_num_channels ?c1" "tx_key (cn_key_epoch c2) = tx_key (cn_key_epoch ?c1)"
    "tx_nonce_counter (cn_key_epoch c2) = tx_nonce_counter (cn_key_epoch ?c1) + of_nat (length ps)"
    "queued_bits (cn_budget c2) + 8 * (1203 + int ov) * int (queued_total ?c1) \<le> 0" "length ps \<le> 1"
    using client_make_room [OF law refl a b1 n] .
  have c2: "cn_data c2 = Some (d\<lparr>cd_channels := (cd_channels d)[i := ch]\<rparr>)" using room(6) c1 by simp
  obtain c3 d3 where w: "write_message i now q (1200 - length (a' @ concat (map frame_bytes cur'))) c2 =
      (Some (frame_bytes (out_frame_of ch i q)), c3)"
    "cn_data c3 = Some d3" "cd_channels d3 = cd_channels (d\<lparr>cd_channels := (cd_channels d)[i := ch]\<rparr>)"
    "cn_num_channels c3 = cn_num_channels c2" "cn_key_epoch c3 = cn_key_epoch c2" "cn_budget c3 = cn_budget c2"
    by (rule write_message_fits [OF c2, of i ch q "1200 - length (a' @ concat (map frame_bytes cur'))" now])
      (use room(3) q(2,4) in auto)
  have "queued_total c3 = queued_total ?c1" using queued_total_cong [OF c1 w(2)] w(3) by simp
  moreover have "sender_ok c3" using sender_ok_cong [OF q(5) c1 w(2)] w(3,4) room(7) by simp
  moreover have "send_loop (Client_side slot) enc kdf pid now (a @ concat (map frame_bytes cur)) (length cur) out c =
     send_loop (Client_side slot) enc kdf pid now (a' @ concat (map frame_bytes (cur' @ [out_frame_of ch i q])))
       (length (cur' @ [out_frame_of ch i q])) (out @ ps) c3"
    using q(1,2) d i room(1) w(1) by (subst send_loop.simps) (simp add: pick_channel_def NETUDP_MTU_def)
  moreover have "frame_ok (cn_num_channels c) (out_frame_of ch i q)" using q(3,4) by (simp add: out_frame_of_def)
  moreover have "length (a' @ concat (map frame_bytes (cur' @ [out_frame_of ch i q]))) \<le> 1200"
    using room(3) by (simp add: length_out_frame)
  ultimately show thesis
    using that [OF q(1) _ room(2) _ room(4) _ _ w(2)] room(5,7-11) w(3-6) q(6) by (simp add: upd_channel_simps)
qed

theorem client_loop:
  assumes "aead enc dec ov" and "sender_ok c" and "cn_data c = Some d"
    and "length a = 8" "length (a @ concat (map frame_bytes cur)) \<le> 1200"
    and "queued_bits (cn_budget c) + 8 * (1203 + int ov) * int (queued_total c) \<le> 0"
  shows "\<exists>fs gs cur' a' ps c' chs'.
    send_loop (Client_side slot) enc kdf pid now (a @ concat (map frame_bytes cur)) (length cur) out c =
      (False, a' @ concat (map frame_bytes cur'), length cur', out @ ps, c') \<and>
    picks now (cn_num_channels c) (cd_channels d) fs chs' \<and> concat gs @ cur' = cur @ fs \<and>
    (\<forall>f\<in>set fs. frame_ok (cn_num_channels c) f) \<and>
    carries_all enc (tx_key (cn_key_epoch c)) pid slot (tx_nonce_counter (cn_key_epoch c)) gs ps \<and>
    length a' = 8 \<and> length (a' @ concat (map frame_bytes cur')) \<le> 1200 \<and> map_option cd_channels (cn_data c') = Some chs' \<and>
    tx_key (cn_key_epoch c') = tx_key (cn_key_epoch c) \<and>
    tx_nonce_counter (cn_key_epoch c') = tx_nonce_counter (cn_key_epoch c) + of_nat (length ps) \<and> length ps \<le> queued_total c"
  using assms(2-)
proof (induction "queued_total c" arbitrary: c d a cur out rule: less_induct)
  case less
  let ?L = "\<lambda>out. send_loop (Client_side slot) enc kdf pid now (a @ concat (map frame_bytes cur)) (length cur) out c"
  show ?case
  proof (cases "next_channel (cd_channels d) (cn_num_channels c) now")
    case None
    then have "?L out = (False, a @ concat (map frame_bytes cur), length cur, out, c)"
      using less.prems(2) by (subst send_loop.simps) (simp add: pick_channel_def)
    then show ?thesis using None less.prems
      by (intro exI [of _ "[]"] exI [of _ cur] exI [of _ a] exI [of _ c] exI [of _ "cd_channels d"]) (auto intro: picks.stop)
  next
    case (Some i)
    obtain q ch a1 cur1 gs ps c2 d2 where st: "dequeue_send (cd_channels d ! i) = (Some q, ch)"
      "?L out = send_loop (Client_side slot) enc kdf pid now (a1 @ concat (map frame_bytes (cur1 @ [out_frame_of ch i q])))
       (length (cur1 @ [out_frame_of ch i q])) (out @ ps) c2"
      "length a1 = 8" "length (a1 @ concat (map frame_bytes (cur1 @ [out_frame_of ch i q]))) \<le> 1200" "concat gs @ cur1 = cur"
      "carries_all enc (tx_key (cn_key_epoch c)) pid slot (tx_nonce_counter (cn_key_epoch c)) gs ps"
      "sender_ok c2" "cn_data c2 = Some d2" "cd_channels d2 = (cd_channels d)[i := ch]" "cn_num_channels c2 = cn_num_channels c"
      "tx_key (cn_key_epoch c2) = tx_key (cn_key_epoch c)"
      "tx_nonce_counter (cn_key_epoch c2) = tx_nonce_counter (cn_key_epoch c) + of_nat (length ps)"
      "queued_bits (cn_budget c2) + 8 * (1203 + int ov) * int (queued_total c2) \<le> 0" "queued_total c2 < queued_total c"
      "length ps + queued_total c2 \<le> queued_total c" "frame_ok (cn_num_channels c) (out_frame_of ch i q)"
      by (rule client_loop_step [OF assms(1) less.prems(1,2) Some less.prems(3-5), of slot kdf pid out])
    obtain fs gs2 cur' a' ps2 c' chs' where ih:
      "send_loop (Client_side slot) enc kdf pid now (a1 @ concat (map frame_bytes (cur1 @ [out_frame_of ch i q])))
         (length (cur1 @ [out_frame_of ch i q])) (out @ ps) c2 =
         (False, a' @ concat (map frame_bytes cur'), length cur', (out @ ps) @ ps2, c')"
      "picks now (cn_num_channels c) ((cd_channels d)[i := ch]) fs chs'" "concat gs2 @ cur' = (cur1 @ [out_frame_of ch i q]) @ fs"
      "\<forall>f\<in>set fs. frame_ok (cn_num_channels c) f"
      "carries_all enc (tx_key (cn_key_epoch c)) pid slot (tx_nonce_counter (cn_key_epoch c) + of_nat (length ps)) gs2 ps2"
      "length a' = 8" "length (a' @ concat (map frame_bytes cur')) \<le> 1200" "map_option cd_channels (cn_data c') = Some chs'"
      "tx_key (cn_key_epoch c') = tx_key (cn_key_epoch c)"
      "tx_nonce_counter (cn_key_epoch c') = tx_nonce_counter (cn_key_epoch c) + of_nat (length ps) + of_nat (length ps2)" "length ps2 \<le> queued_total c2"
      using less.hyps [OF st(14) st(7,8,3,4,13), of "out @ ps"] unfolding st(9-12) by blast
    have "concat (gs @ gs2) @ cur' = cur @ out_frame_of ch i q # fs" using ih(3) st(5) by simp
    moreover have "?L out = (False, a' @ concat (map frame_bytes cur'), length cur', out @ (ps @ ps2), c')" using st(2) ih(1) by simp
    ultimately show ?thesis
      using ih(4,6-11) st(15,16) picks.pick [OF Some st(1) ih(2)] carries_all_append [OF st(6) ih(5)]
      by (intro exI [of _ "out_frame_of ch i q # fs"] exI [of _ "gs @ gs2"] exI [of _ cur'] exI [of _ a'] exI [of _ "ps @ ps2"]
          exI [of _ c'] exI [of _ chs']) (simp add: add_ac)
  qed
qed

lemma client_send_pending:
  assumes law: "aead enc dec ov" and "sender_ok c" and d: "cn_data c = Some d"
    and b: "queued_bits (cn_budget c) + 8 * (1203 + int ov) * int (queued_total c) \<le> 0"
  obtains fs gs ps c' d' where "send_pending (Client_side slot) enc kdf pid now c = (ps, c')"
    "picks now (cn_num_channels c) (cd_channels d) fs (cd_channels d')" "cn_data c' = Some d'"
    "concat gs = fs" "\<forall>f\<in>set fs. frame_ok (cn_num_channels c) f"
    "carries_all enc (tx_key (cn_key_epoch c)) pid slot (tx_nonce_counter (cn_key_epoch c)) gs ps"
    "tx_key (cn_key_epoch c') = tx_key (cn_key_epoch c)"
    "tx_nonce_counter (cn_key_epoch c') = tx_nonce_counter (cn_key_epoch c) + of_nat (length ps)" "length ps \<le> queued_total c + 1"
proof -
  have a: "length (ack_bytes now c) = 8" by (simp add: ack_bytes_def)
  obtain fs gs cur' a' ps c' chs' where l:
    "send_loop (Client_side slot) enc kdf pid now (ack_bytes now c) 0 [] c =
      (False, a' @ concat (map frame_bytes cur'), length cur', ps, c')"
    "picks now (cn_num_channels c) (cd_channels d) fs chs'" "concat gs @ cur' = fs" "\<forall>f\<in>set fs. frame_ok (cn_num_channels c) f"
    "carries_all enc (tx_key (cn_key_epoch c)) pid slot (tx_nonce_counter (cn_key_epoch c)) gs ps"
    "length a' = 8" "length (a' @ concat (map frame_bytes cur')) \<le> 1200" "map_option cd_channels (cn_data c') = Some chs'"
    "tx_key (cn_key_epoch c') = tx_key (cn_key_epoch c)"
    "tx_nonce_counter (cn_key_epoch c') = tx_nonce_counter (cn_key_epoch c) + of_nat (length ps)" "length ps \<le> queued_total c"
    using client_loop [OF assms(1-3) a _ b, of "[]" slot kdf pid now "[]"] a by auto
  obtain d' where d': "cn_data c' = Some d'" "cd_channels d' = chs'" using l(8) by auto
  have "0 \<le> 8 * (1203 + int ov) * int (queued_total c)" by simp
  then have can: "can_send (cn_budget c)" using b unfolding can_send_def by linarith
  show thesis
  proof (cases "cur' = []")
    case True
    then have "send_pending (Client_side slot) enc kdf pid now c = (ps, c')" using l(1) can by (simp add: send_pending_def)
    then show thesis using that [of ps c' fs d' gs] l True d' by simp
  next
    case False
    obtain ct c1 where f: "enc (tx_key (cn_key_epoch c')) (build_nonce (tx_nonce_counter (cn_key_epoch c'))) (build_aad pid 0x14)
        (a' @ concat (map frame_bytes cur')) = Some ct"
      "flush_packet (Client_side slot) enc kdf pid now (a' @ concat (map frame_bytes cur')) (length cur') c' =
        (Some (0x14 # le_bytes 2 slot @ ct), c1)"
      "cn_data c1 = cn_data c'" "tx_key (cn_key_epoch c1) = tx_key (cn_key_epoch c')"
      "tx_nonce_counter (cn_key_epoch c1) = tx_nonce_counter (cn_key_epoch c') + 1"
      using client_flush [OF law] by metis
    let ?p = "0x14 # le_bytes 2 slot @ ct"
    have "send_pending (Client_side slot) enc kdf pid now c = (ps @ [?p], c1)" using l(1) can f(2) False by (simp add: send_pending_def)
    moreover have "carries_all enc (tx_key (cn_key_epoch c)) pid slot (tx_nonce_counter (cn_key_epoch c)) (gs @ [cur']) (ps @ [?p])"
      using l f(1) by (intro carries_all_append) (auto simp: carries_def)
    ultimately show thesis using that [of "ps @ [?p]" c1 fs d' "gs @ [cur']"] l d' f(3-5) by (simp add: add_ac)
  qed
qed

section \<open>What the server makes of the packets\<close>

text \<open>A replay window that has seen exactly the nonces below \<open>n\<close>, in order.\<close>

definition in_step :: "nat \<Rightarrow> ReplayProtection \<Rightarrow> bool" where
  "in_step n r \<longleftrightarrow> length (received r) = 256 \<and> (\<forall>v\<in>set (received r). v = EMPTY_SLOT \<or> unat v < n) \<and>
     (if n = 0 then most_recent r = 0 \<and> received r ! 0 = EMPTY_SLOT else unat (most_recent r) = n - 1) \<and>
     (n = 1 \<longrightarrow> received r ! 0 = 0) \<and> n < 2 ^ 64 - 256"

lemma in_step_reset: "in_step 0 replay_reset"
  by (simp add: in_step_def replay_reset_def WINDOW_SIZE_def)

lemma in_step_next:
  assumes "in_step n (replay e)" and "n + 1 < 2 ^ 64 - 256"
  shows "server_expected_nonce e = of_nat n" "\<not> is_duplicate (replay e) (of_nat n)" "in_step (n + 1) (advance (of_nat n) (replay e))"
proof -
  let ?r = "replay e" and ?n = "of_nat n :: u64"
  have len: "length (received ?r) = 256" and vals: "\<forall>v\<in>set (received ?r). v = EMPTY_SLOT \<or> unat v < n"
    using assms(1) by (auto simp: in_step_def)
  have un: "unat ?n = n" using assms(2) by (simp add: unsigned_of_nat take_bit_nat_eq_self)
  have "of_nat (unat (most_recent ?r)) = most_recent ?r" by simp
  then have mr: "most_recent ?r = of_nat (n - 1)"
  proof (cases "n = 0")
    case False
    then have "unat (most_recent ?r) = n - 1" using assms(1) by (simp add: in_step_def)
    then show ?thesis using \<open>of_nat (unat (most_recent ?r)) = most_recent ?r\<close> by metis
  qed (use assms(1) in \<open>simp add: in_step_def\<close>)
  show e: "server_expected_nonce e = ?n"
  proof (cases "n \<le> 1")
    case True
    then consider "n = 0" | "n = 1" by linarith
    then show ?thesis using assms(1) mr
      by cases (auto simp: server_expected_nonce_def in_step_def EMPTY_SLOT_def)
  next
    case False
    then have "unat (most_recent ?r) \<noteq> 0" using assms(1) by (auto simp: in_step_def)
    then have "most_recent ?r \<noteq> 0" by auto
    moreover have "(of_nat (n - 1) :: u64) + 1 = ?n" using False by (simp add: of_nat_diff)
    ultimately show ?thesis using mr by (simp add: server_expected_nonce_def)
  qed
  have "slot_val ?r ?n = EMPTY_SLOT \<or> unat (slot_val ?r ?n) < n"
    using vals len by (simp add: slot_val_def WINDOW_SIZE_def)
  moreover have "\<not> too_old ?r ?n"
    using assms(2) un mr
    by (auto simp: too_old_def word_le_nat_alt unat_word_ariths WINDOW_SIZE_def unsigned_of_nat take_bit_nat_eq_self)
  ultimately show "\<not> is_duplicate ?r ?n" using un by (auto simp: is_duplicate_eq)
  have "unat v < n + 1" if "v \<in> set ((received ?r)[n mod 256 := ?n])" "v \<noteq> EMPTY_SLOT" for v
    using that vals un set_update_subset_insert [of "received ?r" "n mod 256" ?n] by fastforce
  moreover have "unat (most_recent (advance ?n ?r)) = n"
    using un mr assms(2) by (auto simp: advance_def WINDOW_SIZE_def word_less_nat_alt unsigned_of_nat take_bit_nat_eq_self Let_def)
  ultimately show "in_step (n + 1) (advance ?n ?r)"
    using assms(2) len un by (auto simp: in_step_def advance_def WINDOW_SIZE_def Let_def)
qed

primrec server_handle_all ::
    "aead_fn \<Rightarrow> kdf_fn \<Rightarrow> u64 \<Rightarrow> real \<Rightarrow> byte list list \<Rightarrow> Connection \<Rightarrow> packet_result list \<times> Connection" where
  "server_handle_all dec kdf pid now [] c = ([], c)"
| "server_handle_all dec kdf pid now (p # ps) c =
     (let (r, c1) = server_handle_packet dec kdf pid now p c; (rs, c2) = server_handle_all dec kdf pid now ps c1 in (r # rs, c2))"

lemma fold_deliver_data_cong:
  "cn_data c = cn_data c' \<Longrightarrow> cn_data (fold (deliver_counted ch) ms c) = cn_data (fold (deliver_counted ch) ms c')"
  by (induction ms arbitrary: c c') (simp_all add: deliver_counted_def count_message_def deliver_def)

lemma recv_reliable_data_cong:
  assumes "cn_data c = cn_data c'"
  shows "cn_data (recv_reliable ch s d c) = cn_data (recv_reliable ch s d c')"
proof -
  have "cn_data (upd_reliable ch f c) = cn_data (upd_reliable ch f c')" for f using assms by (simp add: upd_reliable_def)
  note cong = fold_deliver_data_cong [OF this]
  show ?thesis
  proof (cases "cc_type (ch_config (cd_channels (cdata c') ! ch))")
    case RELIABLE_ORDERED
    then show ?thesis unfolding recv_reliable_def assms by (simp add: split_beta Let_def) (rule cong)
  next
    case RELIABLE_UNORDERED
    then show ?thesis unfolding recv_reliable_def assms by (simp add: split_beta Let_def) (rule cong)
  qed (simp_all add: recv_reliable_def assms)
qed

lemma frame_effect_data_cong:
  assumes "cn_data c = cn_data c'"
  shows "cn_data (frame_effect f c) = cn_data (frame_effect f c')"
proof (cases f)
  case (Reliable_out ch s d)
  then show ?thesis unfolding Reliable_out frame_effect.simps by (intro recv_reliable_data_cong assms)
qed (simp add: deliver_counted_def count_message_def deliver_def assms)

lemma fold_effect_data_cong:
  "cn_data c = cn_data c' \<Longrightarrow> cn_data (fold frame_effect fs c) = cn_data (fold frame_effect fs c')"
proof (induction fs arbitrary: c c')
  case (Cons f fs)
  from Cons.IH [OF frame_effect_data_cong [OF Cons.prems, of f]] show ?case by simp
qed simp

lemma process_ack_frame:
  "cn_data (process_ack_fields f now c) = cn_data c" "cn_num_channels (process_ack_fields f now c) = cn_num_channels c"
  "cn_key_epoch (process_ack_fields f now c) = cn_key_epoch c"
  by (simp_all add: process_ack_fields_def split_beta Let_def)

lemma process_plaintext_frames:
  assumes a: "length a = 8" and frames: "\<forall>f\<in>set fs. frame_ok (cn_num_channels s) f" "cn_num_channels s \<le> 256"
  obtains s' where "process_plaintext rl now plen (a @ concat (map frame_bytes fs)) s = (Frames_done, s')"
    "cn_data s' = cn_data (fold frame_effect fs s)" "cn_num_channels s' = cn_num_channels s" "cn_key_epoch s' = cn_key_epoch s"
proof -
  let ?s1 = "upd_stats (stats_packet_received plen) (s\<lparr>cn_last_recv_time := now\<rparr>)"
  let ?s2 = "process_ack_fields (read_ack_fields (a @ concat (map frame_bytes fs))) now ?s1"
  let ?s3 = "?s2\<lparr>cn_tracker := on_packet_received 0 now (cn_tracker ?s2)\<rparr>"
  have "parse_frames rl now (concat (map frame_bytes fs)) ?s3 = (Frames_done, fold frame_effect fs ?s3)"
    using parse_all_frames [of fs ?s3 rl now "[]"] frames by (simp add: process_ack_frame parse_frames.simps(1))
  then have "process_plaintext rl now plen (a @ concat (map frame_bytes fs)) s = (Frames_done, fold frame_effect fs ?s3)"
    using a by (simp add: process_plaintext_def Let_def)
  moreover have "cn_data (fold frame_effect fs ?s3) = cn_data (fold frame_effect fs s)"
    by (rule fold_effect_data_cong) (simp add: process_ack_frame)
  ultimately show thesis using that [of "fold frame_effect fs ?s3"] by (simp add: process_ack_frame)
qed

lemma server_handles_carried:
  assumes law: "aead enc dec ov" and carried: "carries enc (rx_key (cn_key_epoch s)) pid slot (of_nat n) fs p"
    and step: "in_step n (replay (cn_key_epoch s))" "n + 1 < 2 ^ 64 - 256"
    and frames: "\<forall>f\<in>set fs. frame_ok (cn_num_channels s) f" "cn_num_channels s \<le> 256"
  obtains s' where "server_handle_packet dec kdf pid now p s = (Packet_processed Frames_done, s')"
    "cn_data s' = cn_data (fold frame_effect fs s)" "cn_num_channels s' = cn_num_channels s"
    "rx_key (cn_key_epoch s') = rx_key (cn_key_epoch s)" "in_step (n + 1) (replay (cn_key_epoch s'))"
proof -
  let ?e = "cn_key_epoch s"
  obtain a ct where a: "length a = 8" and ct: "enc (rx_key ?e) (build_nonce (of_nat n)) (build_aad pid 0x14) (a @ concat (map frame_bytes fs)) = Some ct"
    and p: "p = 0x14 # le_bytes 2 slot @ ct" using carried by (auto simp: carries_def)
  have dec: "dec (rx_key ?e) (build_nonce (of_nat n)) (build_aad pid 0x14) ct = Some (a @ concat (map frame_bytes fs))"
    using aead.dec_enc [OF law ct] .
  have len: "ct \<noteq> []" using aead.dec_length [OF law dec] a by auto
  let ?s1 = "s\<lparr>cn_key_epoch := ?e\<lparr>replay := advance (of_nat n) (replay ?e)\<rparr>\<rparr>"
  obtain s' where s': "process_plaintext Server_side now (Suc (Suc (Suc (length ct)))) (a @ concat (map frame_bytes fs)) ?s1 = (Frames_done, s')"
    "cn_data s' = cn_data (fold frame_effect fs ?s1)" "cn_num_channels s' = cn_num_channels ?s1" "cn_key_epoch s' = cn_key_epoch ?s1"
    by (rule process_plaintext_frames [OF a, of fs ?s1]) (use frames in auto)
  have "server_handle_packet dec kdf pid now p s = (Packet_processed Frames_done, s')"
    using in_step_next [OF step] dec len s'(1)
    by (simp add: server_handle_packet_def p packet_decrypt_def PACKET_PREFIX_DATA_REKEY_def Let_def)
  then show thesis
    using that [of s'] s'(2-) in_step_next(3) [OF step] fold_effect_data_cong [of ?s1 s fs] by simp
qed

lemma server_handles_all:
  assumes law: "aead enc dec ov" and "carries_all enc key pid slot (of_nat n) gs ps" and "rx_key (cn_key_epoch s) = key"
    and "in_step n (replay (cn_key_epoch s))" "n + length ps < 2 ^ 64 - 256"
    and "\<forall>f\<in>set (concat gs). frame_ok (cn_num_channels s) f" "cn_num_channels s \<le> 256"
  shows "\<exists>s'. server_handle_all dec kdf pid now ps s = (replicate (length ps) (Packet_processed Frames_done), s') \<and>
    cn_data s' = cn_data (fold frame_effect (concat gs) s) \<and> in_step (n + length ps) (replay (cn_key_epoch s')) \<and>
    rx_key (cn_key_epoch s') = key"
  using assms(2-)
proof (induction gs arbitrary: n ps s)
  case Nil
  then show ?case by (cases ps) auto
next
  case (Cons g gs)
  then obtain p ps' where ps: "ps = p # ps'" by (cases ps) auto
  obtain s1 where s1: "server_handle_packet dec kdf pid now p s = (Packet_processed Frames_done, s1)"
    "cn_data s1 = cn_data (fold frame_effect g s)" "cn_num_channels s1 = cn_num_channels s"
    "rx_key (cn_key_epoch s1) = rx_key (cn_key_epoch s)" "in_step (n + 1) (replay (cn_key_epoch s1))"
    using server_handles_carried [OF law, of s pid slot n g p kdf now] Cons.prems ps by (auto simp: ac_simps)
  have "of_nat (n + 1) = (of_nat n :: u64) + 1" by simp
  then have "\<exists>s'. server_handle_all dec kdf pid now ps' s1 = (replicate (length ps') (Packet_processed Frames_done), s') \<and>
    cn_data s' = cn_data (fold frame_effect (concat gs) s1) \<and> in_step (n + 1 + length ps') (replay (cn_key_epoch s')) \<and>
    rx_key (cn_key_epoch s') = key"
    using Cons.prems ps s1 by (intro Cons.IH) (auto simp: add.commute)
  then show ?case using s1(1,2) ps fold_effect_data_cong [of s1 "fold frame_effect g s" "concat gs"] by auto
qed

section \<open>From the client's channels to the server's\<close>

fun frame_channel :: "out_frame \<Rightarrow> nat" where
  "frame_channel (Unreliable_out ch d) = ch"
| "frame_channel (Reliable_out ch s d) = ch"

fun frame_data :: "out_frame \<Rightarrow> byte list" where
  "frame_data (Unreliable_out ch d) = d"
| "frame_data (Reliable_out ch s d) = d"

definition sent_on :: "nat \<Rightarrow> out_frame list \<Rightarrow> byte list list" where
  "sent_on i fs = map frame_data (filter (\<lambda>f. frame_channel f = i) fs)"

lemma picks_spec:
  assumes "picks now n chs fs chs'" and "\<forall>ch\<in>set chs. ch_ok ch" and "n \<le> length chs"
  shows "next_channel chs' n now = None \<and> length chs' = length chs \<and>
    (\<forall>i<length chs. sent_on i fs @ map qm_data (ch_queue (chs' ! i)) = map qm_data (ch_queue (chs ! i)))"
  using assms
proof (induction rule: picks.induct)
  case (stop chs n now)
  then show ?case by (simp add: sent_on_def)
next
  case (pick chs n now i q ch fs chs')
  have i: "i < length chs"
  proof -
    obtain p where "next_channel_loop chs now [0..<n] None = Some (i, p)" using pick.hyps(1) by (auto simp: next_channel_def)
    then show ?thesis using next_loop_pending [of chs now "[0..<n]" None i p] pick.prems by auto
  qed
  then have "ch_ok (chs ! i)" using pick.prems by simp
  then have q: "ch_ok ch" "ch_queue (chs ! i) = q # ch_queue ch"
    using pick.hyps(2) by (cases rule: dequeue_send_cases; simp)+
  then have "\<forall>ch\<in>set (chs[i := ch]). ch_ok ch" using pick.prems(1) set_update_subset_insert [of chs i ch] by auto
  moreover have "sent_on j (out_frame_of ch i q # fs) = (if j = i then qm_data q # sent_on j fs else sent_on j fs)" for j
    by (simp add: sent_on_def out_frame_of_def)
  ultimately show ?case using pick.IH pick.prems(2) q i by (auto simp: nth_list_update)
qed


lemma pow2_256: "pow2_capacity 256"
  using pow2_capacity_power [of 8] by simp

lemma init_sender_ok:
  assumes "cn_data c = Some d" and "c = init_subsystems True fill cfgs k t c0"
  shows "sender_ok c \<and> queued_total c = 0"
proof -
  have "ch_ok (new_channel cfg) \<and> ch_queue (new_channel cfg) = [] \<and> rb_size (send_queue (new_channel cfg)) = 0"
    "ch_ok (channel_init i cfg' (new_channel cfg)) \<and> ch_queue (channel_init i cfg' (new_channel cfg)) = [] \<and>
     rb_size (send_queue (channel_init i cfg' (new_channel cfg))) = 0" for i cfg cfg'
    by (simp_all add: new_channel_def channel_init_def ch_ok_def rb_ok_def rb_new_def rb_clear_def rb_items_def pow2_256)
  then show ?thesis
    unfolding assms(2) by (auto simp: init_subsystems_def sender_ok_def queued_total_def MAX_CHANNELS_PER_CONNECTION_def Let_def)
qed

lemma queue_sender_ok:
  assumes "sender_ok c" and "length data \<le> 1186"
  shows "sender_ok (upd_channel i (\<lambda>ch. snd (queue_send data flags ch)) c)"
proof -
  have q: "ch_ok (snd (queue_send data flags ch)) \<and> (\<forall>q\<in>set (ch_queue (snd (queue_send data flags ch))). length (qm_data q) \<le> 1186)"
    if "ch_ok ch" "\<forall>q\<in>set (ch_queue ch). length (qm_data q) \<le> 1186" for ch
    using that(1)
  proof (cases rule: queue_send_impl_cases [of ch data flags 0])
    case (overwrote j ch')
    then show ?thesis using that assms(2)
      by (auto simp: queue_send_def dest!: set_update_subset_insert [THEN subsetD])
  qed (use that assms(2) in \<open>auto simp: queue_send_def\<close>)
  obtain d where d: "cn_data c = Some d" using assms(1) by (auto simp: sender_ok_def)
  then have chs: "ch_ok ch" "\<forall>q\<in>set (ch_queue ch). length (qm_data q) \<le> 1186" if "ch \<in> set (cd_channels d)" for ch
    using assms(1) that by (auto simp: sender_ok_def)
  let ?new = "(cd_channels d)[i := snd (queue_send data flags (cd_channels d ! i))]"
  have "ch_ok ch \<and> (\<forall>q\<in>set (ch_queue ch). length (qm_data q) \<le> 1186)" if ch: "ch \<in> set ?new" for ch
  proof -
    obtain k where k: "k < length (cd_channels d)" "ch = ?new ! k" using ch by (metis in_set_conv_nth length_list_update)
    then show ?thesis using q [OF chs [OF nth_mem [OF k(1)]]] chs [OF nth_mem [OF k(1)]] by (cases "k = i") simp_all
  qed
  moreover have "cn_num_channels c \<le> length (cd_channels d)" "cn_num_channels c \<le> 256"
    using assms(1) d by (auto simp: sender_ok_def)
  ultimately show ?thesis by (simp add: sender_ok_def upd_channel_simps(1) [OF d] upd_channel_simps(2))
qed

text \<open>A client with one message in its first channel, and the server's side of the same connection.\<close>

definition example_server :: Connection where
  "example_server = init_subsystems True 0 [default_config] 1 0 connection_new"

definition example_client :: Connection where
  "example_client = (upd_channel 0 (\<lambda>ch. snd (queue_send [1, 2, 3] 0 ch)) example_server)
     \<lparr>cn_budget := \<lparr>queued_bits = - 100000, burst_bits = 262144\<rparr>\<rparr>"

lemma example_data: "\<exists>d. cn_data example_server = Some d"
  by (simp add: example_server_def init_subsystems_def Let_def)

lemma example_client_queue: "queued_total example_client = 1"
  by (simp add: example_client_def example_server_def init_subsystems_def queued_total_def upd_channel_def upd_data_def
      MAX_CHANNELS_PER_CONNECTION_def Let_def queue_send_def queue_send_impl_def NETUDP_MTU_def NETUDP_SEND_STATE_def
      new_channel_def channel_init_def default_config_def rb_new_def rb_clear_def push_back_def bypass_nagle_def upt_rec)

lemma example_sender_ok: "sender_ok example_client"
proof -
  obtain d where d: "cn_data example_server = Some d" using example_data by blast
  have "sender_ok example_server" using init_sender_ok [OF d example_server_def] by simp
  then have "sender_ok (upd_channel 0 (\<lambda>ch. snd (queue_send [1, 2, 3] 0 ch)) example_server)"
    by (rule queue_sender_ok) simp
  then show ?thesis by (simp add: example_client_def sender_ok_def)
qed


section \<open>Loss and malformed packets\<close>

text \<open>A ciphertext does not open under the nonce of another counter.\<close>

definition opens_once :: "aead_fn \<Rightarrow> aead_fn \<Rightarrow> bool" where
  "opens_once enc dec \<longleftrightarrow> (\<forall>key m m' aad pt ct.
     enc key (build_nonce m) aad pt = Some ct \<longrightarrow> m' \<noteq> m \<longrightarrow> dec key (build_nonce m') aad ct = None)"

lemma server_rejects:
  assumes other: "opens_once enc dec"
    and step: "in_step n (replay (cn_key_epoch s))" "n + 1 < 2 ^ 64 - 256" and grace: "grace_packets_remaining (cn_key_epoch s) \<le> 0"
    and p: "carries enc (rx_key (cn_key_epoch s)) pid slot m fs p" "m \<noteq> of_nat n" "4 \<le> length p"
  shows "server_handle_packet dec kdf pid now p s = (Decrypt_failed, count_decrypt_failure s)"
proof -
  let ?e = "cn_key_epoch s"
  obtain a ct where ct: "enc (rx_key ?e) (build_nonce m) (build_aad pid 0x14) (a @ concat (map frame_bytes fs)) = Some ct"
    "p = 0x14 # le_bytes 2 slot @ ct" using p(1) by (auto simp: carries_def)
  have "dec (rx_key ?e) (build_nonce (of_nat n)) (build_aad pid 0x14) ct = None"
    using other ct(1) p(2) unfolding opens_once_def by metis
  then show ?thesis using in_step_next [OF step] grace p(3)
    by (auto simp: server_handle_packet_def ct(2) packet_decrypt_def packet_decrypt_grace_def Let_def)
qed


lemma example_opens_once: "opens_once example_encrypt example_decrypt"
  by (auto simp: opens_once_def example_encrypt_def example_decrypt_def example_tag_def build_nonce_eq le_bytes_inject)


text \<open>
  C32. An unreliable frame that is longer than a message may be. The receive loop copies such a frame
  into a buffer of 1200 bytes with the length the frame states: an authentic packet of a
  connected client, within the packet size, whose frame is longer than that overruns the buffer.
\<close>

theorem long_unreliable_frame_overruns:
  assumes law: "aead enc dec ov" and step: "in_step n (replay (cn_key_epoch s))" "n + 1 < 2 ^ 64 - 256"
    and sealed: "enc (rx_key (cn_key_epoch s)) (build_nonce (of_nat n)) (build_aad pid 0x14)
       (a @ [FRAME_UNRELIABLE_DATA, of_nat ch] @ le_bytes 2 (of_nat (length d) :: u16) @ d) = Some ct"
    and sizes: "length a = 8" "1200 < length d" "length d \<le> 1360" "ch < cn_num_channels s" "cn_num_channels s \<le> 256"
  shows "fst (server_handle_packet dec kdf pid now (0x14 # le_bytes 2 slot @ ct) s) = Packet_processed Overrun"
proof -
  let ?f = "[FRAME_UNRELIABLE_DATA, of_nat ch] @ le_bytes 2 (of_nat (length d) :: u16) @ d"
  have dec: "dec (rx_key (cn_key_epoch s)) (build_nonce (of_nat n)) (build_aad pid 0x14) ct = Some (a @ ?f)"
    using aead.dec_enc [OF law sealed] .
  then have len: "ct \<noteq> []" using aead.dec_length [OF law dec] sizes(1) by auto
  have u: "unat (of_nat ch :: byte) = ch" "unat (of_nat (length d) :: u16) = length d"
    using sizes by (simp_all add: byte_channel unsigned_of_nat take_bit_nat_eq_self)
  have r: "of_le (read_at 1 2 (of_nat ch # le_bytes 2 (of_nat (length d) :: u16) @ d)) = (of_nat (length d) :: u16)"
    by (simp add: read_at_def)
  have over: "fst (parse_frames rl now ?f c) = Overrun" if "cn_num_channels c = cn_num_channels s" for rl c
    using that sizes u r by (simp add: parse_frames.simps frame_types Let_def NETUDP_MTU_def)
  have "fst (process_plaintext rl now k (a @ ?f) c) = Overrun" if "cn_num_channels c = cn_num_channels s" for rl k c
    using over that sizes(1) by (simp add: process_plaintext_def Let_def process_ack_frame)
  then show ?thesis using in_step_next [OF step] dec len
    by (simp add: server_handle_packet_def packet_decrypt_def PACKET_PREFIX_DATA_REKEY_def Let_def split_beta)
qed

theorem long_unreliable_frame_overruns_witness:
  "let f = [FRAME_UNRELIABLE_DATA, 0] @ le_bytes 2 (1300 :: u16) @ replicate 1300 (0 :: byte);
       packet = 0x14 # le_bytes 2 (0 :: u16) @ ((replicate 8 0 @ f) @ example_tag (build_nonce 0))
   in fst (server_handle_packet example_decrypt (\<lambda>_ _. []) 7 0 packet example_server) = Packet_processed Overrun"
proof -
  have e: "cn_key_epoch example_server = key_epoch_init" "cn_num_channels example_server = 1"
    by (simp_all add: example_server_def init_subsystems_def connection_new_def MAX_CHANNELS_PER_CONNECTION_def Let_def)
  show ?thesis
    using long_unreliable_frame_overruns [OF example_mode.aead_axioms, of 0 example_server 7 "replicate 8 0" 0 "replicate 1300 0"
      "(replicate 8 0 @ [FRAME_UNRELIABLE_DATA, 0] @ le_bytes 2 (1300 :: u16) @ replicate 1300 0) @ example_tag (build_nonce 0)"
      "\<lambda>_ _. []" 0 0]
    by (simp add: e key_epoch_init_def in_step_reset example_encrypt_def)
qed

end
