(* ===== verification/Group.thy ===== *)
theory Group
  imports Netudp_Prelude
begin

text \<open>
  Compact lists with a reverse index, removal by moving the last element into the hole, and the
  multicast groups of \<^verbatim>\<open>group/group.h\<close> built on them. The server keeps its active slots the same way. An
  array with its count is the list of the elements in use; \<open>-1\<close> marks an absent element in the reverse
  index.
\<close>

section \<open>The contract of a set of slots\<close>

locale slot_set =
  fixes members_of :: "'s \<Rightarrow> nat list"
    and add :: "nat \<Rightarrow> 's \<Rightarrow> 's"
    and rmv :: "nat \<Rightarrow> 's \<Rightarrow> 's"
    and ok :: "'s \<Rightarrow> bool"
    and universe :: "'s \<Rightarrow> nat"
  assumes ok_distinct: "ok s \<Longrightarrow> distinct (members_of s)"
    and ok_range: "ok s \<Longrightarrow> set (members_of s) \<subseteq> {..<universe s}"
    and add_members: "ok s \<Longrightarrow> x < universe s \<Longrightarrow> x \<notin> set (members_of s) \<Longrightarrow>
          ok (add x s) \<and> set (members_of (add x s)) = insert x (set (members_of s)) \<and> universe (add x s) = universe s"
    and rmv_members: "ok s \<Longrightarrow> x \<in> set (members_of s) \<Longrightarrow>
          ok (rmv x s) \<and> set (members_of (rmv x s)) = set (members_of s) - {x} \<and> universe (rmv x s) = universe s"
begin

lemma length_card: "ok s \<Longrightarrow> length (members_of s) = card (set (members_of s))"
  by (simp add: ok_distinct distinct_card)

lemma length_bound: "ok s \<Longrightarrow> length (members_of s) \<le> universe s"
  using card_mono [OF _ ok_range, of s] by (simp add: length_card)

lemma add_length: "ok s \<Longrightarrow> x < universe s \<Longrightarrow> x \<notin> set (members_of s) \<Longrightarrow> length (members_of (add x s)) = Suc (length (members_of s))"
  using add_members [of s x] length_card [of s] length_card [of "add x s"] by simp

lemma rmv_length: "ok s \<Longrightarrow> x \<in> set (members_of s) \<Longrightarrow> length (members_of (rmv x s)) = length (members_of s) - 1"
  using rmv_members [of s x] length_card [of s] length_card [of "rmv x s"] by simp

lemma rmv_add: "ok s \<Longrightarrow> x < universe s \<Longrightarrow> x \<notin> set (members_of s) \<Longrightarrow> set (members_of (rmv x (add x s))) = set (members_of s)"
  using add_members [of s x] rmv_members [of "add x s" x] by auto

end

section \<open>A list with its reverse index\<close>

definition swap_remove :: "nat \<Rightarrow> 'a list \<Rightarrow> 'a list" where
  "swap_remove p xs = (if p < length xs - 1 then (butlast xs)[p := last xs] else butlast xs)"

definition indexed :: "nat list \<Rightarrow> int list \<Rightarrow> bool" where
  "indexed xs idx \<longleftrightarrow> (\<forall>i<length xs. xs ! i < length idx \<and> idx ! (xs ! i) = int i) \<and>
     (\<forall>s<length idx. s \<notin> set xs \<longrightarrow> idx ! s = -1)"

definition index_add :: "nat \<Rightarrow> nat list \<times> int list \<Rightarrow> nat list \<times> int list" where
  "index_add s = (\<lambda>(xs, idx). (xs @ [s], idx[s := int (length xs)]))"

definition index_remove :: "nat \<Rightarrow> nat list \<times> int list \<Rightarrow> nat list \<times> int list" where
  "index_remove s = (\<lambda>(xs, idx).
     let pos = nat (idx ! s); idx1 = (if pos < length xs - 1 then idx[last xs := int pos] else idx)
     in (swap_remove pos xs, idx1[s := -1]))"

lemma indexed_distinct: "indexed xs idx \<Longrightarrow> distinct xs"
  unfolding distinct_conv_nth indexed_def by (metis of_nat_eq_iff)

lemma indexed_mem:
  assumes "indexed xs idx" and "s < length idx"
  shows "s \<in> set xs \<longleftrightarrow> 0 \<le> idx ! s"
  using assms unfolding indexed_def in_set_conv_nth by (metis of_nat_0_le_iff in_set_conv_nth neg_0_le_iff_le not_one_le_zero)

lemma indexed_position:
  assumes "indexed xs idx" and "s \<in> set xs"
  shows "s < length idx" "nat (idx ! s) < length xs" "xs ! nat (idx ! s) = s"
  using assms unfolding indexed_def in_set_conv_nth by auto

lemma indexed_add:
  assumes "indexed xs idx" and "s < length idx" and "s \<notin> set xs"
  shows "indexed (xs @ [s]) (idx[s := int (length xs)])"
proof -
  have "xs ! i \<noteq> s" if "i < length xs" for i using assms(3) that by (metis nth_mem)
  then show ?thesis using assms by (auto simp: indexed_def nth_append nth_list_update less_Suc_eq)
qed

lemma length_swap_remove: "xs \<noteq> [] \<Longrightarrow> length (swap_remove p xs) = length xs - 1"
  by (simp add: swap_remove_def)

lemma swap_remove_nth:
  assumes "p < length xs" and "i < length xs - 1"
  shows "swap_remove p xs ! i = (if i = p then last xs else xs ! i)"
  using assms by (auto simp: swap_remove_def nth_butlast nth_list_update)

lemma set_swap_remove:
  assumes "distinct xs" and "p < length xs"
  shows "set (swap_remove p xs) = set xs - {xs ! p}"
proof -
  obtain ys y where xs: "xs = ys @ [y]" using assms(2) by (cases xs rule: rev_cases) auto
  show ?thesis
  proof (cases "p < length ys")
    case True
    then show ?thesis using assms(1) xs
      by (auto simp: swap_remove_def nth_append set_update_distinct)
  next
    case False
    then show ?thesis using assms xs by (auto simp: swap_remove_def nth_append less_Suc_eq)
  qed
qed

lemma indexed_remove:
  assumes ix: "indexed xs idx" and s: "s \<in> set xs"
  shows "indexed (fst (index_remove s (xs, idx))) (snd (index_remove s (xs, idx)))"
    and "set (fst (index_remove s (xs, idx))) = set xs - {s}"
    and "length (snd (index_remove s (xs, idx))) = length idx"
proof -
  let ?p = "nat (idx ! s)" and ?l = "last xs"
  let ?idx1 = "if ?p < length xs - 1 then idx[?l := int ?p] else idx"
  have p: "s < length idx" "?p < length xs" "xs ! ?p = s" using indexed_position [OF ix s] .
  have d: "distinct xs" using indexed_distinct [OF ix] .
  have ne: "xs \<noteq> []" using p(2) by auto
  have l: "?l < length idx" "?l = xs ! (length xs - 1)"
    using indexed_position(1) [OF ix, of ?l] ne by (simp_all add: last_conv_nth)
  show set: "set (fst (index_remove s (xs, idx))) = set xs - {s}"
    using set_swap_remove [OF d p(2)] p(3) by (simp add: index_remove_def Let_def)
  have ls: "?l \<noteq> s" if "?p < length xs - 1" using that p d l(2) by (metis diff_less length_greater_0_conv ne nat_neq_iff nth_eq_iff_index_eq zero_less_one)
  have one: "swap_remove ?p xs ! i < length idx \<and> (?idx1[s := -1]) ! (swap_remove ?p xs ! i) = int i"
    if i: "i < length xs - 1" for i
  proof (cases "i = ?p")
    case True
    then have "swap_remove ?p xs ! i = ?l" using swap_remove_nth [OF p(2) i] by simp
    then show ?thesis using True i ls l p by simp
  next
    case False
    then have v: "swap_remove ?p xs ! i = xs ! i" using swap_remove_nth [OF p(2) i] by simp
    have "xs ! i \<noteq> s" using False d p i by (metis less_diff_conv nth_eq_iff_index_eq add_lessD1)
    moreover have "xs ! i \<noteq> ?l" using d i l(2) ne by (metis less_diff_conv add_lessD1 diff_less length_greater_0_conv nat_neq_iff nth_eq_iff_index_eq zero_less_one)
    ultimately show ?thesis using ix i v by (simp add: indexed_def)
  qed
  have two: "(?idx1[s := -1]) ! t = -1" if t: "t < length idx" "t \<notin> set xs - {s}" for t
  proof (cases "t = s")
    case False
    then have "t \<notin> set xs" using t by simp
    moreover from this have "t \<noteq> ?l" using ne by auto
    ultimately show ?thesis using ix t False by (simp add: indexed_def)
  qed (use p in simp)
  have eq: "index_remove s (xs, idx) = (swap_remove ?p xs, ?idx1[s := -1])" unfolding index_remove_def by (simp only: Let_def split)
  have len: "length (?idx1[s := -1]) = length idx" by simp
  show "indexed (fst (index_remove s (xs, idx))) (snd (index_remove s (xs, idx)))"
    using one two set length_swap_remove [OF ne, of ?p] unfolding eq indexed_def fst_conv snd_conv len by metis
  show "length (snd (index_remove s (xs, idx))) = length idx" by (simp add: index_remove_def Let_def)
qed

interpretation indexed_list: slot_set fst index_add index_remove "\<lambda>p. indexed (fst p) (snd p)" "\<lambda>p. length (snd p)"
proof
  fix p :: "nat list \<times> int list" and x
  obtain xs idx where p: "p = (xs, idx)" by (cases p)
  show "indexed (fst p) (snd p) \<Longrightarrow> distinct (fst p)" by (rule indexed_distinct)
  show "indexed (fst p) (snd p) \<Longrightarrow> set (fst p) \<subseteq> {..<length (snd p)}" using indexed_position(1) by auto
  show "indexed (fst p) (snd p) \<Longrightarrow> x < length (snd p) \<Longrightarrow> x \<notin> set (fst p) \<Longrightarrow>
      indexed (fst (index_add x p)) (snd (index_add x p)) \<and> set (fst (index_add x p)) = insert x (set (fst p)) \<and>
      length (snd (index_add x p)) = length (snd p)"
    using indexed_add [of xs idx x] p by (simp add: index_add_def)
  show "indexed (fst p) (snd p) \<Longrightarrow> x \<in> set (fst p) \<Longrightarrow>
      indexed (fst (index_remove x p)) (snd (index_remove x p)) \<and> set (fst (index_remove x p)) = set (fst p) - {x} \<and>
      length (snd (index_remove x p)) = length (snd p)"
    using indexed_remove [of xs idx x] p by simp
qed

section \<open>Groups\<close>

definition kMaxGroupMembers :: nat where
  "kMaxGroupMembers = 8192"

record Group =
  gr_active :: bool
  gr_id :: int
  gr_members :: "nat list"
  gr_capacity :: nat
  gr_slot_to_pos :: "int list option"

definition group_new :: Group where
  "group_new = \<lparr>gr_active = False, gr_id = -1, gr_members = [], gr_capacity = 0, gr_slot_to_pos = None\<rparr>"

text \<open>An access outside the reverse index, which the code does not check, is \<open>None\<close>.\<close>

definition group_add :: "int \<Rightarrow> Group \<Rightarrow> (bool \<times> Group) option" where
  "group_add slot g =
     (case gr_slot_to_pos g of None \<Rightarrow> Some (False, g)
      | Some idx \<Rightarrow>
          if slot < 0 then Some (False, g)
          else if nat slot \<ge> length idx then None
          else if idx ! nat slot \<ge> 0 then Some (False, g)
          else if length (gr_members g) \<ge> gr_capacity g then Some (False, g)
          else let (xs, idx') = index_add (nat slot) (gr_members g, idx)
               in Some (True, g\<lparr>gr_members := xs, gr_slot_to_pos := Some idx'\<rparr>))"

definition group_remove :: "int \<Rightarrow> Group \<Rightarrow> (bool \<times> Group) option" where
  "group_remove slot g =
     (case gr_slot_to_pos g of None \<Rightarrow> Some (False, g)
      | Some idx \<Rightarrow>
          if slot < 0 then Some (False, g)
          else if nat slot \<ge> length idx then None
          else if idx ! nat slot < 0 then Some (False, g)
          else let (xs, idx') = index_remove (nat slot) (gr_members g, idx)
               in Some (True, g\<lparr>gr_members := xs, gr_slot_to_pos := Some idx'\<rparr>))"

definition group_has :: "int \<Rightarrow> Group \<Rightarrow> bool option" where
  "group_has slot g =
     (case gr_slot_to_pos g of None \<Rightarrow> Some False
      | Some idx \<Rightarrow>
          if slot < 0 then Some False else if nat slot \<ge> length idx then None else Some (idx ! nat slot \<ge> 0))"

definition group_init :: "int \<Rightarrow> nat \<Rightarrow> nat \<Rightarrow> Group" where
  "group_init gid max_clients capacity =
     \<lparr>gr_active = True, gr_id = gid, gr_members = [], gr_capacity = capacity, gr_slot_to_pos = Some (replicate max_clients (-1))\<rparr>"

definition group_clear :: "Group \<Rightarrow> Group" where
  "group_clear g =
     g\<lparr>gr_members := [], gr_slot_to_pos := map_option (fold (\<lambda>m idx. idx[m := -1]) (gr_members g)) (gr_slot_to_pos g)\<rparr>"

definition group_reset :: "Group \<Rightarrow> Group" where
  "group_reset g = (group_clear g)\<lparr>gr_active := False, gr_id := -1, gr_members := [], gr_slot_to_pos := None, gr_capacity := 0\<rparr>"

section \<open>A group is a bounded set of clients\<close>

definition group_ok :: "nat \<Rightarrow> Group \<Rightarrow> bool" where
  "group_ok n g \<longleftrightarrow> (\<exists>idx. gr_slot_to_pos g = Some idx \<and> length idx = n \<and> indexed (gr_members g) idx) \<and>
     length (gr_members g) \<le> gr_capacity g"

datatype group_op = Group_add nat | Group_remove nat | Group_has nat | Group_clear

fun group_step :: "group_op \<Rightarrow> Group \<Rightarrow> (bool \<times> Group) option" where
  "group_step (Group_add c) g = group_add (int c) g"
| "group_step (Group_remove c) g = group_remove (int c) g"
| "group_step (Group_has c) g = map_option (\<lambda>b. (b, g)) (group_has (int c) g)"
| "group_step Group_clear g = Some (True, group_clear g)"

fun group_spec :: "nat \<Rightarrow> group_op \<Rightarrow> nat set \<Rightarrow> bool \<times> nat set" where
  "group_spec cap (Group_add c) S = (if c \<notin> S \<and> card S < cap then (True, insert c S) else (False, S))"
| "group_spec cap (Group_remove c) S = (c \<in> S, S - {c})"
| "group_spec cap (Group_has c) S = (c \<in> S, S)"
| "group_spec cap Group_clear S = (True, {})"

fun op_client :: "group_op \<Rightarrow> nat option" where
  "op_client (Group_add c) = Some c" | "op_client (Group_remove c) = Some c" | "op_client (Group_has c) = Some c"
| "op_client Group_clear = None"

fun group_run :: "group_op list \<Rightarrow> Group \<Rightarrow> (bool list \<times> Group) option" where
  "group_run [] g = Some ([], g)"
| "group_run (op # ops) g =
     (case group_step op g of None \<Rightarrow> None
      | Some (b, g1) \<Rightarrow> map_option (\<lambda>(bs, g2). (b # bs, g2)) (group_run ops g1))"

fun group_spec_run :: "nat \<Rightarrow> group_op list \<Rightarrow> nat set \<Rightarrow> bool list \<times> nat set" where
  "group_spec_run cap [] S = ([], S)"
| "group_spec_run cap (op # ops) S =
     (let (b, S1) = group_spec cap op S; (bs, S2) = group_spec_run cap ops S1 in (b # bs, S2))"

lemma group_init_ok: "group_ok n (group_init gid n cap)"
  by (simp add: group_ok_def group_init_def indexed_def)

lemma length_fold_clear [simp]: "length (fold (\<lambda>m idx. idx[m := -1]) ms idx) = length idx"
  by (induction ms arbitrary: idx) simp_all

lemma nth_fold_clear:
  "s < length idx \<Longrightarrow> fold (\<lambda>m idx. idx[m := -1]) ms idx ! s = (if s \<in> set ms then -1 else idx ! s)" for idx :: "int list"
proof (induction ms arbitrary: idx)
  case (Cons m ms)
  then show ?case using Cons.IH [of "idx[m := -1]"] by (auto simp: nth_list_update)
qed simp

lemma group_clear_ok: "group_ok n g \<Longrightarrow> group_ok n (group_clear g) \<and> gr_members (group_clear g) = []"
  by (auto simp: group_ok_def group_clear_def indexed_def nth_fold_clear)

lemma group_step_refines:
  assumes ok: "group_ok n g" and c: "\<forall>c. op_client op = Some c \<longrightarrow> c < n"
  shows "\<exists>b g'. group_step op g = Some (b, g') \<and> group_ok n g' \<and> gr_capacity g' = gr_capacity g \<and>
    group_spec (gr_capacity g) op (set (gr_members g)) = (b, set (gr_members g'))"
proof -
  obtain idx where idx: "gr_slot_to_pos g = Some idx" "length idx = n" "indexed (gr_members g) idx"
    and len: "length (gr_members g) \<le> gr_capacity g" using ok by (auto simp: group_ok_def)
  have card: "card (set (gr_members g)) = length (gr_members g)"
    using indexed_distinct [OF idx(3)] by (simp add: distinct_card)
  have mem: "k \<in> set (gr_members g) \<longleftrightarrow> 0 \<le> idx ! k" if "k < n" for k
    using indexed_mem [OF idx(3), of k] that idx(2) by simp
  show ?thesis
  proof (cases op)
    case (Group_add k)
    then have k: "k < n" using c by simp
    show ?thesis
    proof (cases "k \<notin> set (gr_members g) \<and> length (gr_members g) < gr_capacity g")
      case True
      then show ?thesis using Group_add k idx card mem [OF k] indexed_add [OF idx(3), of k]
        by (auto simp: group_add_def index_add_def group_ok_def)
    next
      case False
      then show ?thesis using Group_add k idx card mem [OF k] ok by (auto simp: group_add_def)
    qed
  next
    case (Group_remove k)
    then have k: "k < n" using c by simp
    show ?thesis
    proof (cases "k \<in> set (gr_members g)")
      case True
      obtain xs' idx' where r: "index_remove k (gr_members g, idx) = (xs', idx')" by fastforce
      have "indexed xs' idx'" "set xs' = set (gr_members g) - {k}" "length idx' = n" "length xs' \<le> gr_capacity g"
        using indexed_remove [OF idx(3) True] indexed_list.rmv_length [of "(gr_members g, idx)" k] idx len True by (simp_all add: r)
      then show ?thesis using Group_remove k idx(1,2) mem [OF k] True by (auto simp: group_remove_def group_ok_def r)
    next
      case False
      then show ?thesis using Group_remove k idx mem [OF k] ok by (auto simp: group_remove_def)
    qed
  next
    case (Group_has k)
    then show ?thesis using c idx mem [of k] ok by (auto simp: group_has_def)
  next
    case Group_clear
    then show ?thesis using group_clear_ok [OF ok] by (auto simp: group_clear_def)
  qed
qed

text \<open>
  C35. A group is a bounded set of clients. Whatever sequence of additions, removals, membership tests
  and clearings is run on a fresh group, over clients the server has slots for, no access leaves the
  arrays, every answer is that of a set with the group's capacity, and the member list holds every
  member of the set exactly once.
\<close>

theorem group_is_bounded_set:
  assumes "\<forall>op\<in>set ops. \<forall>c. op_client op = Some c \<longrightarrow> c < n"
  shows "\<exists>bs g. group_run ops (group_init gid n cap) = Some (bs, g) \<and>
    group_spec_run cap ops {} = (bs, set (gr_members g)) \<and> distinct (gr_members g) \<and> length (gr_members g) \<le> cap"
proof -
  have "\<exists>bs g'. group_run ops g = Some (bs, g') \<and> group_spec_run (gr_capacity g) ops (set (gr_members g)) = (bs, set (gr_members g')) \<and>
    group_ok n g' \<and> gr_capacity g' = gr_capacity g" if "group_ok n g" for g
    using assms that
  proof (induction ops arbitrary: g)
    case (Cons op ops)
    obtain b g1 where g1: "group_step op g = Some (b, g1)" "group_ok n g1" "gr_capacity g1 = gr_capacity g"
      "group_spec (gr_capacity g) op (set (gr_members g)) = (b, set (gr_members g1))"
      using group_step_refines [of n g op] Cons.prems by auto
    with Cons.IH [OF _ g1(2)] Cons.prems show ?case by auto
  qed simp
  from this [OF group_init_ok, of gid cap] obtain bs g where "group_run ops (group_init gid n cap) = Some (bs, g)"
    "group_spec_run cap ops {} = (bs, set (gr_members g))" "group_ok n g" "gr_capacity g = cap"
    by (auto simp: group_init_def)
  then show ?thesis using indexed_distinct by (auto simp: group_ok_def)
qed

theorem group_is_bounded_set_witness:
  "let ops = [Group_add 0, Group_add 2, Group_add 1, Group_add 3, Group_remove 0, Group_has 1, Group_add 3]
   in \<exists>bs g. group_run ops (group_init 0 4 3) = Some (bs, g) \<and> group_spec_run 3 ops {} = (bs, set (gr_members g)) \<and>
     bs = [True, True, True, False, True, True, True]"
  using group_is_bounded_set [of "[Group_add 0, Group_add 2, Group_add 1, Group_add 3, Group_remove 0, Group_has 1, Group_add 3]" 4 0 3]
  by (auto simp: card_insert_if)

end
