(* ===== verification/Pipeline_Queue.thy ===== *)
theory Pipeline_Queue
  imports Ring_Buffer
begin

text \<open>
  The queues between the socket threads and the game thread of \<^verbatim>\<open>server.cpp\<close> (\<^verbatim>\<open>PipelineRecvQueue\<close>,
  \<^verbatim>\<open>PipelineSendQueue\<close>): a ring of 4096 slots with one slot kept free. First \<^verbatim>\<open>push\<close>, \<^verbatim>\<open>pop\<close> and \<^verbatim>\<open>count\<close>
  as whole operations, which satisfy the contract of a bounded queue; then the same code as the atomic
  loads and stores of one producer and one consumer that interleave freely. The release stores and
  acquire loads of the indices order the accesses to the slots, so the steps are sequentially consistent.
\<close>

section \<open>Whole operations\<close>

definition kPipelineQueueSize :: nat where
  "kPipelineQueueSize = 4096"

record 'a PipelineQueue =
  pq_ring :: "'a list"
  pq_head :: nat
  pq_tail :: nat

definition pq_new :: "'a \<Rightarrow> 'a PipelineQueue" where
  "pq_new x = \<lparr>pq_ring = replicate kPipelineQueueSize x, pq_head = 0, pq_tail = 0\<rparr>"

definition pq_push :: "'a \<Rightarrow> 'a PipelineQueue \<Rightarrow> bool \<times> 'a PipelineQueue" where
  "pq_push x q =
     (let h = pq_head q; nxt = (h + 1) mod kPipelineQueueSize
      in if nxt = pq_tail q then (False, q)
         else (True, q\<lparr>pq_ring := (pq_ring q)[h := x], pq_head := nxt\<rparr>))"

definition pq_pop :: "'a PipelineQueue \<Rightarrow> 'a option \<times> 'a PipelineQueue" where
  "pq_pop q =
     (let t = pq_tail q
      in if t = pq_head q then (None, q)
         else (Some (pq_ring q ! t), q\<lparr>pq_tail := (t + 1) mod kPipelineQueueSize\<rparr>))"

definition pq_count :: "'a PipelineQueue \<Rightarrow> nat" where
  "pq_count q = (let h = pq_head q; t = pq_tail q in if h \<ge> t then h - t else kPipelineQueueSize - t + h)"

definition pq_ok :: "'a PipelineQueue \<Rightarrow> bool" where
  "pq_ok q \<longleftrightarrow> length (pq_ring q) = kPipelineQueueSize \<and> pq_head q < kPipelineQueueSize \<and> pq_tail q < kPipelineQueueSize"

definition pq_items :: "'a PipelineQueue \<Rightarrow> 'a list" where
  "pq_items q = map (\<lambda>i. pq_ring q ! ((pq_tail q + i) mod kPipelineQueueSize)) [0..<pq_count q]"

lemma length_pq_items [simp]: "length (pq_items q) = pq_count q"
  by (simp add: pq_items_def)

lemma pq_count_less: "pq_ok q \<Longrightarrow> pq_count q < kPipelineQueueSize"
  by (auto simp: pq_count_def pq_ok_def Let_def)

lemma pq_head_eq: "pq_ok q \<Longrightarrow> pq_head q = (pq_tail q + pq_count q) mod kPipelineQueueSize"
  by (auto simp: pq_count_def pq_ok_def Let_def)

lemma pq_count_mod:
  assumes "pq_ok q" and "pq_head q = (pq_tail q + n) mod kPipelineQueueSize" and "n < kPipelineQueueSize"
  shows "pq_count q = n"
  using assms by (auto simp: pq_count_def pq_ok_def Let_def mod_if split: if_splits)

lemma pq_full: "pq_ok q \<Longrightarrow> (pq_head q + 1) mod kPipelineQueueSize = pq_tail q \<longleftrightarrow> pq_count q = kPipelineQueueSize - 1"
  by (auto simp: pq_count_def pq_ok_def Let_def mod_if split: if_splits)

lemma mod_ne:
  fixes t i n N :: nat
  assumes "i < n" and "n < N"
  shows "(t + i) mod N \<noteq> (t + n) mod N"
proof
  assume eq: "(t + i) mod N = (t + n) mod N"
  have "(t + n) mod N = ((t + i) + (n - i)) mod N" using assms(1) by simp
  then have "N dvd (n - i)" using eq mod_eq_dvd_iff_nat [of "t + i" "t + n" N] assms(1) by simp
  then show False using assms by (meson dvd_imp_le less_imp_diff_less not_le zero_less_diff)
qed

lemma pq_push_accepts:
  assumes ok: "pq_ok q" and room: "pq_count q < kPipelineQueueSize - 1"
  shows "pq_push x q = (True, snd (pq_push x q)) \<and> pq_items (snd (pq_push x q)) = pq_items q @ [x]"
proof -
  let ?N = "kPipelineQueueSize" and ?n = "pq_count q"
  let ?q = "q\<lparr>pq_ring := (pq_ring q)[pq_head q := x], pq_head := (pq_head q + 1) mod ?N\<rparr>"
  have N: "?N > 0" by (simp add: kPipelineQueueSize_def)
  have p: "pq_push x q = (True, ?q)" using pq_full [OF ok] room by (simp add: pq_push_def Let_def)
  have okq: "pq_ok ?q" using ok N by (simp add: pq_ok_def)
  have "pq_head ?q = (pq_tail ?q + Suc ?n) mod ?N" using pq_head_eq [OF ok] by (simp add: mod_Suc_eq)
  then have cnt: "pq_count ?q = Suc ?n" by (rule pq_count_mod [OF okq]) (use room in simp)
  have old: "(pq_ring q)[pq_head q := x] ! ((pq_tail q + i) mod ?N) = pq_ring q ! ((pq_tail q + i) mod ?N)" if "i < ?n" for i
    using mod_ne [OF that, of ?N "pq_tail q"] pq_count_less [OF ok] pq_head_eq [OF ok] by simp
  have "pq_items ?q = pq_items q @ [(pq_ring q)[pq_head q := x] ! ((pq_tail q + ?n) mod ?N)]"
    unfolding pq_items_def cnt using old by simp
  moreover have "(pq_ring q)[pq_head q := x] ! ((pq_tail q + ?n) mod ?N) = x"
    using pq_head_eq [OF ok] ok by (simp add: pq_ok_def)
  ultimately show ?thesis using p by simp
qed

lemma pq_pop_front:
  assumes ok: "pq_ok q" and items: "pq_items q = y # ys"
  shows "fst (pq_pop q) = Some y \<and> pq_items (snd (pq_pop q)) = ys"
proof -
  let ?N = "kPipelineQueueSize" and ?q = "q\<lparr>pq_tail := (pq_tail q + 1) mod kPipelineQueueSize\<rparr>"
  have cnt: "pq_count q = Suc (length ys)" using items length_pq_items [of q] by simp
  have ne: "pq_tail q \<noteq> pq_head q" using cnt by (auto simp: pq_count_def)
  have okq: "pq_ok ?q" using ok by (simp add: pq_ok_def kPipelineQueueSize_def)
  have "pq_head ?q = (pq_tail ?q + length ys) mod ?N" using pq_head_eq [OF ok] cnt by (simp add: mod_add_left_eq)
  then have c: "pq_count ?q = length ys" by (rule pq_count_mod [OF okq]) (use pq_count_less [OF ok] cnt in simp)
  have i: "pq_items q = map (\<lambda>i. pq_ring q ! ((pq_tail q + i) mod ?N)) (0 # map Suc [0..<length ys])"
    unfolding pq_items_def cnt by (simp add: map_Suc_upt upt_conv_Cons del: upt_Suc)
  have "y = pq_ring q ! (pq_tail q mod ?N)" "ys = map (\<lambda>i. pq_ring q ! ((pq_tail q + Suc i) mod ?N)) [0..<length ys]"
    using items unfolding i by (simp_all add: comp_def)
  moreover have "pq_items ?q = map (\<lambda>i. pq_ring q ! ((pq_tail q + Suc i) mod ?N)) [0..<length ys]"
    unfolding pq_items_def c by (simp add: mod_add_left_eq)
  ultimately show ?thesis using ne ok by (simp add: pq_pop_def Let_def pq_ok_def)
qed

interpretation pipeline: bounded_fifo pq_push pq_pop pq_items "\<lambda>q. kPipelineQueueSize - 1" pq_ok
proof (unfold_locales, goal_cases)
  case (1 q x)
  then show ?case using pq_push_accepts [of q x] by (metis fst_conv length_pq_items)
next
  case (2 q x)
  then show ?case using pq_full [of q] pq_count_less [of q] by (simp add: pq_push_def Let_def)
next
  case (3 q)
  then have "pq_count q = 0" using length_pq_items [of q] by simp
  then show ?case using 3(1) by (auto simp: pq_pop_def pq_count_def pq_ok_def Let_def split: if_splits)
next
  case (4 q y ys)
  then show ?case by (rule pq_pop_front)
next
  case (5 q x)
  then show ?case by (simp add: pq_push_def pq_ok_def Let_def kPipelineQueueSize_def)
next
  case (6 q)
  then show ?case by (simp add: pq_pop_def pq_ok_def Let_def kPipelineQueueSize_def)
next
  case (9 q)
  then show ?case using pq_count_less [of q] by simp
qed simp_all

section \<open>Interleaved threads\<close>

datatype 'a producer = P_idle | P_checked 'a | P_written 'a

datatype 'a consumer = C_idle | C_checked | C_read 'a

record 'a spsc =
  sq :: "'a PipelineQueue"
  sp :: "'a producer"
  sc :: "'a consumer"
  accepted :: "'a list"
  handed_out :: "'a list"

inductive spsc_step :: "'a spsc \<Rightarrow> 'a spsc \<Rightarrow> bool" where
  push_full: "sp s = P_idle \<Longrightarrow> (pq_head (sq s) + 1) mod kPipelineQueueSize = pq_tail (sq s) \<Longrightarrow> spsc_step s s"
| push_check: "sp s = P_idle \<Longrightarrow> (pq_head (sq s) + 1) mod kPipelineQueueSize \<noteq> pq_tail (sq s) \<Longrightarrow>
    spsc_step s (s\<lparr>sp := P_checked x\<rparr>)"
| push_write: "sp s = P_checked x \<Longrightarrow>
    spsc_step s (s\<lparr>sq := (sq s)\<lparr>pq_ring := (pq_ring (sq s))[pq_head (sq s) := x]\<rparr>, sp := P_written x\<rparr>)"
| push_publish: "sp s = P_written x \<Longrightarrow>
    spsc_step s (s\<lparr>sq := (sq s)\<lparr>pq_head := (pq_head (sq s) + 1) mod kPipelineQueueSize\<rparr>, sp := P_idle, accepted := accepted s @ [x]\<rparr>)"
| pop_empty: "sc s = C_idle \<Longrightarrow> pq_tail (sq s) = pq_head (sq s) \<Longrightarrow> spsc_step s s"
| pop_check: "sc s = C_idle \<Longrightarrow> pq_tail (sq s) \<noteq> pq_head (sq s) \<Longrightarrow> spsc_step s (s\<lparr>sc := C_checked\<rparr>)"
| pop_read: "sc s = C_checked \<Longrightarrow> spsc_step s (s\<lparr>sc := C_read (pq_ring (sq s) ! pq_tail (sq s))\<rparr>)"
| pop_publish: "sc s = C_read v \<Longrightarrow>
    spsc_step s (s\<lparr>sq := (sq s)\<lparr>pq_tail := (pq_tail (sq s) + 1) mod kPipelineQueueSize\<rparr>, sc := C_idle, handed_out := handed_out s @ [v]\<rparr>)"

definition spsc_start :: "'a \<Rightarrow> 'a spsc" where
  "spsc_start x = \<lparr>sq = pq_new x, sp = P_idle, sc = C_idle, accepted = [], handed_out = []\<rparr>"

definition spsc_inv :: "'a spsc \<Rightarrow> bool" where
  "spsc_inv s \<longleftrightarrow>
     (let N = kPipelineQueueSize; i = length (accepted s); j = length (handed_out s)
      in length (pq_ring (sq s)) = N \<and> pq_head (sq s) = i mod N \<and> pq_tail (sq s) = j mod N \<and> j \<le> i \<and> i - j < N \<and>
         take j (accepted s) = handed_out s \<and> (\<forall>k. j \<le> k \<and> k < i \<longrightarrow> pq_ring (sq s) ! (k mod N) = accepted s ! k) \<and>
         (case sp s of P_idle \<Rightarrow> True | P_checked x \<Rightarrow> i - j < N - 1
          | P_written x \<Rightarrow> i - j < N - 1 \<and> pq_ring (sq s) ! (i mod N) = x) \<and>
         (case sc s of C_idle \<Rightarrow> True | C_checked \<Rightarrow> j < i | C_read v \<Rightarrow> j < i \<and> v = accepted s ! j))"

lemma spsc_start_inv: "spsc_inv (spsc_start x)"
  by (simp add: spsc_inv_def spsc_start_def pq_new_def kPipelineQueueSize_def)

lemma mod_ne_window:
  fixes k i N :: nat
  assumes "k < i" and "i - k < N"
  shows "k mod N \<noteq> i mod N"
  using mod_ne [of 0 "i - k" N k] assms by simp

lemma pos_eq_mod:
  fixes i j N :: nat
  assumes "j \<le> i" and "i - j < N" and "N > 1"
  shows "j mod N = i mod N \<longleftrightarrow> i = j" "(i mod N + 1) mod N = j mod N \<longleftrightarrow> i - j = N - 1"
proof -
  show "j mod N = i mod N \<longleftrightarrow> i = j" using mod_ne_window [of j i N] assms by (cases "i = j") auto
  show "(i mod N + 1) mod N = j mod N \<longleftrightarrow> i - j = N - 1"
  proof (cases "i - j = N - 1")
    case True
    then have "i + 1 = j + N" using assms by simp
    then show ?thesis using True by (simp add: mod_Suc_eq)
  next
    case False
    then have "j mod N \<noteq> (i + 1) mod N" using mod_ne_window [of j "i + 1" N] assms by linarith
    then show ?thesis using False by (simp add: mod_Suc_eq)
  qed
qed

lemma spsc_step_inv: "spsc_step s s' \<Longrightarrow> spsc_inv s \<Longrightarrow> spsc_inv s'"
proof (induction rule: spsc_step.induct)
  case (push_check s x)
  let ?N = kPipelineQueueSize and ?i = "length (accepted s)" and ?j = "length (handed_out s)"
  have N: "?N > 1" by (simp add: kPipelineQueueSize_def)
  have "?i - ?j \<noteq> ?N - 1" using push_check pos_eq_mod(2) [of ?j ?i ?N] N by (simp add: spsc_inv_def Let_def)
  moreover have "?i - ?j < ?N" using push_check.prems by (simp add: spsc_inv_def Let_def)
  ultimately have "?i - ?j < ?N - 1" by linarith
  then show ?case using push_check.prems by (simp add: spsc_inv_def Let_def split: consumer.splits producer.splits)
next
  case (push_write s x)
  let ?N = kPipelineQueueSize and ?i = "length (accepted s)" and ?j = "length (handed_out s)"
  have win: "?i - ?j < ?N" using push_write.prems by (simp add: spsc_inv_def Let_def)
  have "(pq_ring (sq s))[?i mod ?N := x] ! (k mod ?N) = pq_ring (sq s) ! (k mod ?N)" if k: "?j \<le> k" "k < ?i" for k
  proof -
    have "?i - k < ?N" using win k(1) by linarith
    then have "k mod ?N \<noteq> ?i mod ?N" by (rule mod_ne_window [OF k(2)])
    then show ?thesis by simp
  qed
  moreover have "?i mod ?N < ?N" by (simp add: kPipelineQueueSize_def)
  ultimately show ?case using push_write by (simp add: spsc_inv_def Let_def split: consumer.splits producer.splits)
next
  case (push_publish s x)
  then show ?case by (auto simp: spsc_inv_def Let_def nth_append mod_Suc_eq less_Suc_eq split: consumer.splits)
next
  case (pop_check s)
  let ?N = kPipelineQueueSize and ?i = "length (accepted s)" and ?j = "length (handed_out s)"
  have "?i \<noteq> ?j" using pop_check by (auto simp: spsc_inv_def Let_def)
  then show ?case using pop_check by (simp add: spsc_inv_def Let_def split: consumer.splits producer.splits)
next
  case (pop_read s)
  then show ?case by (simp add: spsc_inv_def Let_def split: consumer.splits producer.splits)
next
  case (pop_publish s v)
  then show ?case by (auto simp: spsc_inv_def Let_def mod_Suc_eq take_Suc_conv_app_nth split: producer.splits)
qed simp_all

lemma spsc_reachable_inv: "spsc_step\<^sup>*\<^sup>* (spsc_start x) s \<Longrightarrow> spsc_inv s"
  by (induction rule: rtranclp_induct) (auto simp: spsc_start_inv dest: spsc_step_inv)

text \<open>
  C34. The pipeline queue under every interleaving. Whatever way the loads and stores of the producer
  and of the consumer interleave, the consumer has been handed exactly the first of the accepted packets, in
  order, none lost and none twice; at most 4095 packets are pending; and the producer never writes a
  slot while the consumer may read it.
\<close>

theorem pipeline_fifo_concurrent:
  assumes "spsc_step\<^sup>*\<^sup>* (spsc_start x) s"
  shows "handed_out s = take (length (handed_out s)) (accepted s) \<and>
    length (accepted s) - length (handed_out s) \<le> kPipelineQueueSize - 1 \<and>
    (\<forall>y. sp s = P_checked y \<and> sc s = C_checked \<longrightarrow> pq_head (sq s) \<noteq> pq_tail (sq s))"
proof -
  let ?N = kPipelineQueueSize and ?i = "length (accepted s)" and ?j = "length (handed_out s)"
  have inv: "spsc_inv s" using spsc_reachable_inv [OF assms] .
  have "?N > 1" by (simp add: kPipelineQueueSize_def)
  then have "pq_head (sq s) \<noteq> pq_tail (sq s)" if "sc s = C_checked"
    using inv that pos_eq_mod(1) [of ?j ?i ?N] by (auto simp: spsc_inv_def Let_def)
  moreover have "take ?j (accepted s) = handed_out s" "?i - ?j < ?N" using inv by (simp_all add: spsc_inv_def Let_def)
  ultimately show ?thesis by auto
qed

lemma example_run: "spsc_step\<^sup>*\<^sup>* (spsc_start (0 :: nat))
  ((spsc_start 0)\<lparr>sq := (pq_new 0)\<lparr>pq_ring := (pq_ring (pq_new 0))[0 := 7]\<rparr>, sp := P_written 7\<rparr>)"
proof -
  have "spsc_step (spsc_start 0) ((spsc_start (0 :: nat))\<lparr>sp := P_checked 7\<rparr>)"
    by (rule push_check) (simp_all add: spsc_start_def pq_new_def kPipelineQueueSize_def)
  moreover have "spsc_step ((spsc_start (0 :: nat))\<lparr>sp := P_checked 7\<rparr>)
    ((spsc_start 0)\<lparr>sq := (pq_new 0)\<lparr>pq_ring := (pq_ring (pq_new 0))[0 := 7]\<rparr>, sp := P_written 7\<rparr>)"
    using push_write [of "(spsc_start (0 :: nat))\<lparr>sp := P_checked 7\<rparr>" 7] by (simp add: spsc_start_def pq_new_def)
  ultimately show ?thesis by (meson converse_rtranclp_into_rtranclp rtranclp.rtrancl_refl)
qed

theorem pipeline_fifo_concurrent_witness:
  "let s = (spsc_start (0 :: nat))\<lparr>sq := (pq_new 0)\<lparr>pq_ring := (pq_ring (pq_new 0))[0 := 7]\<rparr>, sp := P_written 7\<rparr>
   in handed_out s = take (length (handed_out s)) (accepted s) \<and> length (accepted s) - length (handed_out s) \<le> kPipelineQueueSize - 1"
  using pipeline_fifo_concurrent [OF example_run] by simp

end
