(* ===== verification/Network_Sim.thy ===== *)
theory Network_Sim
  imports Flow_Control Address "HOL-Library.Multiset"
begin

text \<open>
  The network conditions emulator of \<^verbatim>\<open>sim/network_sim.cpp\<close>: loss, delay, jitter, duplication and
  reordering of incoming packets, driven by an xorshift generator. The \<^verbatim>\<open>float\<close> computations are rounded
  step by step; \<^verbatim>\<open>poll\<close> hands the due packets to a callback that does not touch the emulator, so it
  returns them in the order of the calls.
\<close>

section \<open>The emulator\<close>

record NetSimConfig =
  latency_min_ms :: rat
  latency_max_ms :: rat
  jitter_ms :: rat
  loss_percent :: rat
  duplicate_percent :: rat
  reorder_percent :: rat

record SimPacket =
  spk_data :: "byte list"
  spk_from :: netudp_address
  deliver_time :: real

record NetworkSimulator =
  ns_config :: NetSimConfig
  ns_queue :: "SimPacket list"
  ns_head :: nat
  ns_tail :: nat
  ns_count :: nat
  rng_state :: u32

definition xorshift :: "u32 \<Rightarrow> u32" where
  "xorshift s = (let a = s XOR push_bit 13 s; b = a XOR drop_bit 17 a in b XOR push_bit 5 b)"

definition rand_u32 :: "NetworkSimulator \<Rightarrow> u32 \<times> NetworkSimulator" where
  "rand_u32 s = (let r = xorshift (rng_state s) in (r, s\<lparr>rng_state := r\<rparr>))"

definition rand_float :: "NetworkSimulator \<Rightarrow> rat \<times> NetworkSimulator" where
  "rand_float s = (let (r, s1) = rand_u32 s in (f32 (of_nat (unat (r mod 10000)) / 100), s1))"

definition sim_insert :: "byte list \<Rightarrow> netudp_address \<Rightarrow> real \<Rightarrow> NetworkSimulator \<Rightarrow> NetworkSimulator" where
  "sim_insert data src time s =
     (if ns_count s \<ge> 512 then s
      else s\<lparr>ns_queue := (ns_queue s)[ns_tail s := \<lparr>spk_data = take 1500 data, spk_from = src, deliver_time = time\<rparr>],
             ns_tail := (ns_tail s + 1) mod 512, ns_count := ns_count s + 1\<rparr>)"

definition sim_init :: "NetSimConfig \<Rightarrow> u32 \<Rightarrow> NetworkSimulator \<Rightarrow> NetworkSimulator" where
  "sim_init cfg seed s = s\<lparr>ns_config := cfg, ns_head := 0, ns_tail := 0, ns_count := 0, rng_state := seed\<rparr>"

definition sim_reset :: "NetworkSimulator \<Rightarrow> NetworkSimulator" where
  "sim_reset s = s\<lparr>ns_head := 0, ns_tail := 0, ns_count := 0\<rparr>"

definition base_delay :: "NetSimConfig \<Rightarrow> rat \<Rightarrow> rat \<Rightarrow> rat" where
  "base_delay cfg r1 r2 =
     (let range_ms = f32 (latency_max_ms cfg - latency_min_ms cfg);
          delay_ms = f32 (latency_min_ms cfg + f32 (f32 (r1 / 100) * range_ms));
          jitter_offset = f32 (f32 (f32 (f32 (r2 / 100) * jitter_ms cfg) * 2) - jitter_ms cfg)
      in max (f32 (delay_ms + jitter_offset)) 0)"

definition sim_submit :: "byte list \<Rightarrow> netudp_address \<Rightarrow> real \<Rightarrow> NetworkSimulator \<Rightarrow> nat \<times> NetworkSimulator" where
  "sim_submit data src now s =
     (let (l, s1) = rand_float s
      in if l < loss_percent (ns_config s1) then (0, s1)
         else let (r1, s2) = rand_float s1; (r2, s3) = rand_float s2;
                  time = now + real_of_rat (base_delay (ns_config s3) r1 r2) / 1000;
                  (d, s4) = rand_float s3
           in if d < duplicate_percent (ns_config s4)
              then (2, sim_insert data src time (sim_insert data src time s4))
              else let (o1, s5) = rand_float s4
                in if o1 < reorder_percent (ns_config s5)
                   then let (x, s6) = rand_float s5
                     in (1, sim_insert data src (time + real_of_rat (f32 (f32 (x / 100) * 50)) / 1000) s6)
                   else (1, sim_insert data src time s5))"

fun poll_loop :: "real \<Rightarrow> nat \<Rightarrow> nat list \<Rightarrow> nat \<Rightarrow> SimPacket list \<Rightarrow> SimPacket list \<times> nat \<times> SimPacket list" where
  "poll_loop now h0 [] wr queue = ([], wr, queue)"
| "poll_loop now h0 (n # ns) wr queue =
     (let idx = (h0 + n) mod 512
      in if deliver_time (queue ! idx) \<le> now
         then let (out, w, q) = poll_loop now h0 ns wr queue in (queue ! idx # out, w, q)
         else poll_loop now h0 ns (wr + 1) (if wr \<noteq> idx then queue[wr := queue ! idx] else queue))"

definition sim_poll :: "real \<Rightarrow> NetworkSimulator \<Rightarrow> SimPacket list \<times> NetworkSimulator" where
  "sim_poll now s =
     (let (out, wr, queue) = poll_loop now (ns_head s) [0..<ns_count s] 0 (ns_queue s)
      in (out, s\<lparr>ns_queue := queue, ns_head := 0, ns_tail := wr mod 512, ns_count := wr\<rparr>))"

section \<open>What it holds and what it hands out\<close>

definition sim_ok :: "NetworkSimulator \<Rightarrow> bool" where
  "sim_ok s \<longleftrightarrow> length (ns_queue s) = 512 \<and> ns_head s = 0 \<and> ns_count s \<le> 512 \<and> ns_tail s = ns_count s mod 512"

definition pending :: "NetworkSimulator \<Rightarrow> SimPacket list" where
  "pending s = take (ns_count s) (ns_queue s)"

lemma sim_init_ok: "length (ns_queue s) = 512 \<Longrightarrow> sim_ok (sim_init cfg seed s) \<and> pending (sim_init cfg seed s) = []"
  by (simp add: sim_ok_def sim_init_def pending_def)

lemma sim_insert_ok:
  assumes "sim_ok s"
  shows "sim_ok (sim_insert data src t s)"
    "pending (sim_insert data src t s) =
       (if ns_count s < 512 then pending s @ [\<lparr>spk_data = take 1500 data, spk_from = src, deliver_time = t\<rparr>] else pending s)"
proof -
  show "sim_ok (sim_insert data src t s)" using assms by (auto simp: sim_ok_def sim_insert_def mod_Suc_eq)
  show "pending (sim_insert data src t s) =
       (if ns_count s < 512 then pending s @ [\<lparr>spk_data = take 1500 data, spk_from = src, deliver_time = t\<rparr>] else pending s)"
    using assms by (auto simp: sim_ok_def sim_insert_def pending_def take_Suc_conv_app_nth)
qed

lemma poll_loop_spec:
  assumes "length queue = 512" and "wr \<le> n" and "n + k \<le> 512"
  shows "\<exists>q. poll_loop now 0 [n..<n + k] wr queue =
      (filter (\<lambda>p. deliver_time p \<le> now) (take k (drop n queue)),
       wr + length (filter (\<lambda>p. \<not> deliver_time p \<le> now) (take k (drop n queue))), q) \<and>
    length q = 512 \<and> take (wr + length (filter (\<lambda>p. \<not> deliver_time p \<le> now) (take k (drop n queue)))) q =
      take wr queue @ filter (\<lambda>p. \<not> deliver_time p \<le> now) (take k (drop n queue))"
  using assms
proof (induction k arbitrary: n wr queue)
  case (Suc k)
  let ?late = "\<lambda>p. \<not> deliver_time p \<le> now"
  have n: "n < 512" and list: "[n..<n + Suc k] = n # [Suc n..<Suc n + k]" using Suc.prems by (simp_all add: upt_conv_Cons)
  have dr: "take (Suc k) (drop n queue) = queue ! n # take k (drop (Suc n) queue)"
    using Suc.prems by (simp add: Cons_nth_drop_Suc [symmetric])
  show ?case
  proof (cases "deliver_time (queue ! n) \<le> now")
    case True
    from Suc.IH [of queue wr "Suc n"] Suc.prems obtain q where
      "poll_loop now 0 [Suc n..<Suc n + k] wr queue =
        (filter (\<lambda>p. deliver_time p \<le> now) (take k (drop (Suc n) queue)), wr + length (filter ?late (take k (drop (Suc n) queue))), q)"
      "length q = 512" "take (wr + length (filter ?late (take k (drop (Suc n) queue)))) q = take wr queue @ filter ?late (take k (drop (Suc n) queue))"
      by auto
    then show ?thesis using True n unfolding list dr by (intro exI [of _ q]) simp
  next
    case False
    let ?q = "if wr \<noteq> n then queue[wr := queue ! n] else queue"
    have same: "drop (Suc n) ?q = drop (Suc n) queue" using Suc.prems(2) by simp
    have pre: "take (wr + 1) ?q = take wr queue @ [queue ! n]"
    proof (cases "wr = n")
      case True
      then show ?thesis using Suc.prems n by (simp add: take_Suc_conv_app_nth)
    next
      case False
      then have "wr < length queue" using Suc.prems n by simp
      then show ?thesis using False by (simp add: take_Suc_conv_app_nth)
    qed
    have "length ?q = 512" "wr + 1 \<le> Suc n" "Suc n + k \<le> 512" using Suc.prems by simp_all
    from Suc.IH [OF this] obtain q where
      "poll_loop now 0 [Suc n..<Suc n + k] (wr + 1) ?q =
        (filter (\<lambda>p. deliver_time p \<le> now) (take k (drop (Suc n) ?q)), wr + 1 + length (filter ?late (take k (drop (Suc n) ?q))), q)"
      "length q = 512" "take (wr + 1 + length (filter ?late (take k (drop (Suc n) ?q)))) q = take (wr + 1) ?q @ filter ?late (take k (drop (Suc n) ?q))"
      by auto
    then show ?thesis using False n unfolding list dr same pre by (intro exI [of _ q]) simp
  qed
qed simp

lemma sim_poll_exact:
  assumes "sim_ok s"
  shows "fst (sim_poll now s) = filter (\<lambda>p. deliver_time p \<le> now) (pending s)"
    "pending (snd (sim_poll now s)) = filter (\<lambda>p. \<not> deliver_time p \<le> now) (pending s)" "sim_ok (snd (sim_poll now s))"
proof -
  obtain q where q: "poll_loop now 0 [0..<ns_count s] 0 (ns_queue s) =
      (filter (\<lambda>p. deliver_time p \<le> now) (pending s), length (filter (\<lambda>p. \<not> deliver_time p \<le> now) (pending s)), q)"
    "length q = 512" "take (length (filter (\<lambda>p. \<not> deliver_time p \<le> now) (pending s))) q = filter (\<lambda>p. \<not> deliver_time p \<le> now) (pending s)"
    using poll_loop_spec [of "ns_queue s" 0 0 "ns_count s" now] assms by (auto simp: sim_ok_def pending_def)
  have h: "ns_head s = 0" "length (pending s) \<le> 512" using assms by (auto simp: sim_ok_def pending_def)
  then show "fst (sim_poll now s) = filter (\<lambda>p. deliver_time p \<le> now) (pending s)"
    "pending (snd (sim_poll now s)) = filter (\<lambda>p. \<not> deliver_time p \<le> now) (pending s)" "sim_ok (snd (sim_poll now s))"
    using q le_trans [OF length_filter_le h(2)] by (simp_all add: sim_poll_def pending_def sim_ok_def)
qed

lemma f32_nonneg: "0 \<le> x \<Longrightarrow> 0 \<le> f32 x"
proof -
  assume "0 \<le> x"
  then show ?thesis using f32_round_bounds(1) [of x] by (cases "x = 0") (auto simp: f32_def f32_round_def intro: order_trans [rotated])
qed

lemma rand_float_props:
  assumes "rand_float s = (r, s')"
  shows "0 \<le> r" "ns_config s' = ns_config s" "pending s' = pending s" "ns_count s' = ns_count s" "sim_ok s' \<longleftrightarrow> sim_ok s"
  using assms by (auto simp: rand_float_def rand_u32_def pending_def sim_ok_def Let_def intro!: f32_nonneg simp del: of_nat_unat)

definition stamped :: "byte list \<Rightarrow> netudp_address \<Rightarrow> real \<Rightarrow> SimPacket" where
  "stamped data src t = \<lparr>spk_data = take 1500 data, spk_from = src, deliver_time = t\<rparr>"

text \<open>What \<^verbatim>\<open>submit\<close> adds: none, one or two copies of the packet, due at or after the time of the call.\<close>

lemma sim_submit_cases:
  assumes ok: "sim_ok s"
  obtains k m t s' where "sim_submit data src now s = (k, s')" "sim_ok s'" "ns_config s' = ns_config s" "m \<le> k" "k \<le> 2" "now \<le> t"
    "pending s' = pending s @ replicate m (stamped data src t)" "ns_count s + k \<le> 512 \<longrightarrow> m = k"
    "loss_percent (ns_config s) \<le> 0 \<longrightarrow> 1 \<le> k" "duplicate_percent (ns_config s) \<le> 0 \<longrightarrow> k \<le> 1"
proof -
  note result = that
  obtain l s1 where l: "rand_float s = (l, s1)" by fastforce
  obtain r1 s2 where r1: "rand_float s1 = (r1, s2)" by fastforce
  obtain r2 s3 where r2: "rand_float s2 = (r2, s3)" by fastforce
  obtain d s4 where d: "rand_float s3 = (d, s4)" by fastforce
  obtain o1 s5 where o1: "rand_float s4 = (o1, s5)" by fastforce
  obtain x s6 where x: "rand_float s5 = (x, s6)" by fastforce
  note props = rand_float_props [OF l] rand_float_props [OF r1] rand_float_props [OF r2] rand_float_props [OF d]
    rand_float_props [OF o1] rand_float_props [OF x]
  let ?t = "now + real_of_rat (base_delay (ns_config s3) r1 r2) / 1000"
  let ?t2 = "?t + real_of_rat (f32 (f32 (x / 100) * 50)) / 1000"
  have t: "now \<le> ?t" by (simp add: base_delay_def Let_def)
  have "0 \<le> x / 100" using rand_float_props(1) [OF x] by simp
  then have "0 \<le> f32 (f32 (x / 100) * 50)" by (intro f32_nonneg mult_nonneg_nonneg) simp_all
  then have "0 \<le> real_of_rat (f32 (f32 (x / 100) * 50)) / 1000" by simp
  then have t2: "now \<le> ?t2" using t by linarith
  have cfg: "ns_config s1 = ns_config s" "ns_config s3 = ns_config s" "ns_config s4 = ns_config s" "ns_config s5 = ns_config s" "ns_config s6 = ns_config s"
    and pend: "pending s1 = pending s" "pending s4 = pending s" "pending s5 = pending s" "pending s6 = pending s"
    and cnt: "ns_count s4 = ns_count s" "ns_count s5 = ns_count s" "ns_count s6 = ns_count s"
    and oks: "sim_ok s1" "sim_ok s4" "sim_ok s5" "sim_ok s6" using props ok by simp_all
  let ?L = "l < loss_percent (ns_config s)" and ?D = "d < duplicate_percent (ns_config s)"
  have sub: "sim_submit data src now s =
      (if ?L then (0, s1) else if ?D then (2, sim_insert data src ?t (sim_insert data src ?t s4))
       else if o1 < reorder_percent (ns_config s) then (1, sim_insert data src ?t2 s6) else (1, sim_insert data src ?t s5))"
    by (simp add: sim_submit_def l r1 r2 d o1 x Let_def cfg)
  have pos: "0 \<le> l" "0 \<le> d" using rand_float_props(1) l d by auto
  show thesis
  proof (cases ?L)
    case True
    then show thesis using that [of 0 s1 0 now] sub oks cfg pend pos by auto
  next
    case noloss: False
    show thesis
    proof (cases ?D)
      case True
      let ?a = "sim_insert data src ?t s4" and ?p = "stamped data src ?t"
      have a: "sim_ok ?a" "ns_config ?a = ns_config s" "ns_count ?a = (if ns_count s < 512 then ns_count s + 1 else ns_count s)"
        "pending ?a = (if ns_count s < 512 then pending s @ [?p] else pending s)"
        using sim_insert_ok [OF oks(2), of data src ?t] cfg pend cnt by (auto simp: sim_insert_def stamped_def)
      let ?b = "sim_insert data src ?t ?a" and ?m = "min 2 (512 - ns_count s)"
      have b: "sim_ok ?b" "ns_config ?b = ns_config s" "pending ?b = (if ns_count ?a < 512 then pending ?a @ [?p] else pending ?a)"
        using sim_insert_ok [OF a(1), of data src ?t] a(2) by (auto simp: sim_insert_def stamped_def)
      have "ns_count s \<le> 512" using ok by (simp add: sim_ok_def)
      then consider "ns_count s < 511" | "ns_count s = 511" | "ns_count s = 512" by linarith
      then have "pending ?b = pending s @ replicate ?m ?p" by cases (simp_all add: a b numeral_2_eq_2)
      then show thesis using that [of 2 ?b ?m ?t] sub noloss True t b pos by auto
    next
      case nodup: False
      have one: thesis if c: "sim_submit data src now s = (1, sim_insert data src u c)" "now \<le> u" "sim_ok c" "pending c = pending s"
        "ns_count c = ns_count s" "ns_config c = ns_config s" for u c
        using result [of 1 "sim_insert data src u c" "if ns_count s < 512 then 1 else 0" u]
          sim_insert_ok [OF c(3), of data src u] c noloss nodup by (auto simp: stamped_def sim_insert_def)
      show thesis using one [of ?t2 s6] one [of ?t s5] sub noloss nodup t t2 oks pend cnt cfg
        by (cases "o1 < reorder_percent (ns_config s)") simp_all
    qed
  qed
qed

section \<open>Runs\<close>

datatype sim_event = Submit "byte list" netudp_address real | Poll real

fun sim_run :: "sim_event list \<Rightarrow> NetworkSimulator \<Rightarrow> (real \<times> SimPacket) list \<times> NetworkSimulator" where
  "sim_run [] s = ([], s)"
| "sim_run (Submit data src now # es) s = sim_run es (snd (sim_submit data src now s))"
| "sim_run (Poll now # es) s =
     (let (out, s1) = sim_poll now s; (outs, s2) = sim_run es s1 in (map (Pair now) out @ outs, s2))"

fun submitted :: "sim_event list \<Rightarrow> (byte list \<times> netudp_address) multiset" where
  "submitted [] = {#}"
| "submitted (Submit data src now # es) = add_mset (take 1500 data, src) (submitted es)"
| "submitted (Poll now # es) = submitted es"

definition packet_key :: "SimPacket \<Rightarrow> byte list \<times> netudp_address" where
  "packet_key p = (spk_data p, spk_from p)"

definition held :: "NetworkSimulator \<Rightarrow> (byte list \<times> netudp_address) multiset" where
  "held s = mset (map packet_key (pending s))"

lemma held_submit:
  assumes "sim_ok s"
  obtains m s' where "snd (sim_submit data src now s) = s'" "sim_ok s'" "ns_config s' = ns_config s" "m \<le> 2" "ns_count s' = ns_count s + m"
    "held s' = held s + replicate_mset m (take 1500 data, src)"
    "loss_percent (ns_config s) \<le> 0 \<and> duplicate_percent (ns_config s) \<le> 0 \<and> ns_count s < 512 \<longrightarrow> m = 1"
proof -
  obtain k m t s' where r: "sim_submit data src now s = (k, s')" "sim_ok s'" "ns_config s' = ns_config s" "m \<le> k" "k \<le> 2"
    "pending s' = pending s @ replicate m (stamped data src t)" "ns_count s + k \<le> 512 \<longrightarrow> m = k"
    "loss_percent (ns_config s) \<le> 0 \<longrightarrow> 1 \<le> k" "duplicate_percent (ns_config s) \<le> 0 \<longrightarrow> k \<le> 1"
    using sim_submit_cases [OF assms] by metis
  have "length (pending s') = length (pending s) + m" using r(6) by simp
  then have "ns_count s' = ns_count s + m" using r(2) assms by (simp add: pending_def sim_ok_def)
  moreover have "held s' = held s + replicate_mset m (take 1500 data, src)"
    by (simp add: held_def r(6) stamped_def packet_key_def)
  moreover have "loss_percent (ns_config s) \<le> 0 \<and> duplicate_percent (ns_config s) \<le> 0 \<and> ns_count s < 512 \<longrightarrow> m = 1"
    using r(7-9) by auto
  ultimately show thesis using that [of s' m] r by simp
qed

lemma held_poll:
  assumes "sim_ok s"
  shows "mset (map packet_key (fst (sim_poll now s))) + held (snd (sim_poll now s)) = held s"
    "ns_count (snd (sim_poll now s)) \<le> ns_count s" "ns_config (snd (sim_poll now s)) = ns_config s"
proof -
  note p = sim_poll_exact [OF assms, of now]
  show "mset (map packet_key (fst (sim_poll now s))) + held (snd (sim_poll now s)) = held s"
    unfolding p(1) held_def p(2) mset_map mset_filter image_mset_union [symmetric] multiset_partition [symmetric] ..
  have "length (pending (snd (sim_poll now s))) \<le> length (pending s)" by (simp add: p(2))
  then show "ns_count (snd (sim_poll now s)) \<le> ns_count s" using p(3) assms by (simp add: pending_def sim_ok_def)
  show "ns_config (snd (sim_poll now s)) = ns_config s" by (simp add: sim_poll_def split_beta)
qed

lemma sim_run_bound:
  assumes "sim_ok s" and "sim_run es s = (outs, s')"
  shows "mset (map (packet_key \<circ> snd) outs) + held s' \<subseteq># held s + submitted es + submitted es \<and>
    (\<forall>(t, p)\<in>set outs. deliver_time p \<le> t) \<and>
    (loss_percent (ns_config s) \<le> 0 \<and> duplicate_percent (ns_config s) \<le> 0 \<and> ns_count s + length es \<le> 512 \<longrightarrow>
      mset (map (packet_key \<circ> snd) outs) + held s' = held s + submitted es)"
  using assms
proof (induction es s arbitrary: outs rule: sim_run.induct)
  case (2 data src now es s)
  obtain m s1 where s1: "snd (sim_submit data src now s) = s1" "sim_ok s1" "ns_config s1 = ns_config s" "m \<le> 2" "ns_count s1 = ns_count s + m"
    "held s1 = held s + replicate_mset m (take 1500 data, src)"
    "loss_percent (ns_config s) \<le> 0 \<and> duplicate_percent (ns_config s) \<le> 0 \<and> ns_count s < 512 \<longrightarrow> m = 1"
    using held_submit [OF 2(2)] by metis
  have "replicate_mset m (take 1500 data, src) \<subseteq># {#(take 1500 data, src), (take 1500 data, src)#}"
    using s1(4) by (simp add: numeral_2_eq_2 le_Suc_eq) auto
  then have "held s1 + submitted es + submitted es \<subseteq># held s + submitted (Submit data src now # es) + submitted (Submit data src now # es)"
    unfolding s1(6) by (simp add: union_ac subset_mset.add_left_mono)
  moreover have "sim_run es s1 = (outs, s')" using 2(3) s1(1) by simp
  ultimately show ?case using 2(1) [of outs] s1 by (auto intro: subset_mset.order_trans)
next
  case (3 now es s)
  obtain outs1 s2 where r: "sim_run es (snd (sim_poll now s)) = (outs1, s2)" by fastforce
  then have o: "outs = map (Pair now) (fst (sim_poll now s)) @ outs1" "s' = s2" using 3(3) by (auto simp: split_beta)
  let ?s = "snd (sim_poll now s)" and ?out = "mset (map packet_key (fst (sim_poll now s)))" and ?outs = "mset (map (packet_key \<circ> snd) outs1)"
  note hp = held_poll [OF 3(2), of now] and ok = sim_poll_exact(3) [OF 3(2), of now]
  have ih: "?outs + held s2 \<subseteq># held ?s + submitted es + submitted es" "\<forall>(t, p)\<in>set outs1. deliver_time p \<le> t"
    "loss_percent (ns_config s) \<le> 0 \<and> duplicate_percent (ns_config s) \<le> 0 \<and> ns_count ?s + length es \<le> 512 \<longrightarrow>
      ?outs + held s2 = held ?s + submitted es"
    using 3(1) [OF refl prod.collapse, of outs1] ok r o(2) hp(3) by (auto simp: comp_def)
  have m: "mset (map (packet_key \<circ> snd) outs) = ?out + ?outs" by (simp add: o comp_def)
  have "?out + (?outs + held s2) \<subseteq># ?out + (held ?s + submitted es + submitted es)" using ih(1) by simp
  then have "mset (map (packet_key \<circ> snd) outs) + held s' \<subseteq># held s + submitted es + submitted es"
    unfolding m o(2) hp(1) [symmetric] by (simp add: union_ac)
  moreover have "\<forall>(t, p)\<in>set outs. deliver_time p \<le> t" using ih(2) sim_poll_exact(1) [OF 3(2), of now] by (auto simp: o)
  moreover have "mset (map (packet_key \<circ> snd) outs) + held s' = held s + submitted es"
    if "loss_percent (ns_config s) \<le> 0 \<and> duplicate_percent (ns_config s) \<le> 0 \<and> ns_count s + length (Poll now # es) \<le> 512"
  proof -
    have "?outs + held s2 = held ?s + submitted es" using ih(3) that hp(2) by simp
    then show ?thesis unfolding m o(2) hp(1) [symmetric] by (simp add: union_ac)
  qed
  ultimately show ?case by (simp add: comp_def)
qed simp

text \<open>
  C36. The network emulator. Whatever packets are submitted to a fresh emulator and whenever it is
  polled, every packet it has handed out or still holds is a copy of a submitted one, at most two
  copies each; no packet is handed out before its delivery time, and without loss, duplication and
  overflow exactly the submitted packets have come out or are still held.
\<close>

theorem network_sim_conserves:
  assumes "length (ns_queue s) = 512" and "sim_run es (sim_init cfg seed s) = (outs, s')"
  shows "mset (map (packet_key \<circ> snd) outs) + held s' \<subseteq># submitted es + submitted es \<and>
    (\<forall>(t, p)\<in>set outs. deliver_time p \<le> t) \<and>
    (loss_percent cfg \<le> 0 \<and> duplicate_percent cfg \<le> 0 \<and> length es \<le> 512 \<longrightarrow>
      mset (map (packet_key \<circ> snd) outs) + held s' = submitted es)"
proof -
  have i: "sim_ok (sim_init cfg seed s)" "held (sim_init cfg seed s) = {#}" using sim_init_ok [OF assms(1)] by (simp_all add: held_def)
  have "ns_config (sim_init cfg seed s) = cfg" "ns_count (sim_init cfg seed s) = 0" by (simp_all add: sim_init_def)
  then show ?thesis using sim_run_bound [OF i(1) assms(2)] i(2) by simp
qed

definition example_sim :: NetworkSimulator where
  "example_sim = \<lparr>ns_config = \<lparr>latency_min_ms = 0, latency_max_ms = 0, jitter_ms = 0, loss_percent = 0, duplicate_percent = 0, reorder_percent = 0\<rparr>,
     ns_queue = replicate 512 (stamped [] address_zero 0), ns_head = 0, ns_tail = 0, ns_count = 0, rng_state = 1\<rparr>"

theorem network_sim_conserves_witness:
  "let (outs, s') = sim_run [Submit [1] address_zero 0, Poll 1] (sim_init (ns_config example_sim) 12345 example_sim)
   in mset (map (packet_key \<circ> snd) outs) + held s' = {#([1], address_zero)#}"
  using network_sim_conserves [of example_sim "[Submit [1] address_zero 0, Poll 1]" "ns_config example_sim" 12345]
  by (auto simp: example_sim_def split: prod.split)

end
