(* ===== verification/Replication.thy ===== *)
theory Replication
  imports Flow_Control Packet_Crypto
begin

text \<open>
  Property replication (\<^verbatim>\<open>replication/schema.h\<close>, \<^verbatim>\<open>replication/entity.h\<close>, \<^verbatim>\<open>replication/replicate.cpp\<close>): the layout
  of an entity's properties, setters that mark changed properties, compact encodings of floats, vectors
  and quaternions, and the wire format of an update. A \<^verbatim>\<open>float\<close> is its 32-bit pattern in the value
  buffer and on the wire; where the code computes with it, it is the rational it stands for and every
  operation rounds. Behaviour the language leaves undefined (a shift by 64, an access outside the value
  buffer, a conversion of a float that does not fit) is an outcome of its own.
\<close>

section \<open>Floats\<close>

definition f32_val :: "u32 \<Rightarrow> rat option" where
  "f32_val b =
     (let s = (if bit b 31 then -1 else 1); e = uint (drop_bit 23 b AND 0xFF); m = of_int (uint (b AND 0x7FFFFF))
      in if e = 255 then None
         else if e = 0 then Some (s * (m * 2 powi (-149)))
         else Some (s * ((m + 2 ^ 23) * 2 powi (e - 150))))"

definition f32_bits :: "rat \<Rightarrow> u32" where
  "f32_bits x =
     (if x = 0 then 0
      else let e = max (rat_log2 \<bar>x\<bar>) (-126); m = round_even (\<bar>x\<bar> / 2 powi (e - 23));
               b = (if e = -126 \<and> m < 2 ^ 23 then m else (e + 126) * 2 ^ 23 + m)
           in (if x < 0 then 0x80000000 else 0) OR (if e > 127 \<or> b \<ge> 255 * 2 ^ 23 then 0x7F800000 else of_int b))"

definition is_nan :: "u32 \<Rightarrow> bool" where
  "is_nan b \<longleftrightarrow> drop_bit 23 b AND 0xFF = 0xFF \<and> b AND 0x7FFFFF \<noteq> 0"

definition float_eq :: "u32 \<Rightarrow> u32 \<Rightarrow> bool" where
  "float_eq a b \<longleftrightarrow> \<not> is_nan a \<and> \<not> is_nan b \<and> (a = b \<or> a AND 0x7FFFFFFF = 0 \<and> b AND 0x7FFFFFFF = 0)"

fun isqrt :: "nat \<Rightarrow> nat" where
  "isqrt n = (if n = 0 then 0 else let r = 2 * isqrt (n div 4) in if (r + 1) ^ 2 \<le> n then r + 1 else r)"

declare isqrt.simps [simp del]

text \<open>The correctly rounded square root of a positive \<^verbatim>\<open>float\<close>.\<close>

definition f32_sqrt :: "rat \<Rightarrow> rat" where
  "f32_sqrt x =
     (if x \<le> 0 then 0
      else let k = 23 - rat_log2 x div 2; t = x * 4 powi k; r = isqrt (nat \<lfloor>t\<rfloor>); h = (of_nat r + 1 / 2) ^ 2;
               m = (if t > h \<or> t = h \<and> odd r then r + 1 else r)
           in of_nat m * 2 powi (- k))"

definition trunc_rat :: "rat \<Rightarrow> int" where
  "trunc_rat x = (if x < 0 then \<lceil>x\<rceil> else \<lfloor>x\<rfloor>)"

text \<open>\<^verbatim>\<open>static_cast<int32_t>\<close> of a float; out of range it is undefined.\<close>

definition to_int32 :: "rat \<Rightarrow> int option" where
  "to_int32 x = (let t = trunc_rat x in if - (2 ^ 31) \<le> t \<and> t < 2 ^ 31 then Some t else None)"

section \<open>Variable-length integers\<close>

function varint_encode :: "u64 \<Rightarrow> byte list" where
  "varint_encode val =
     (let b = ucast (val AND 0x7F) :: byte; rest = drop_bit 7 val
      in if rest = 0 then [b] else (b OR 0x80) # varint_encode rest)"
  by pat_completeness auto
termination
proof (relation "measure unat", goal_cases)
  case (2 val b rest)
  then have "val \<noteq> 0" by auto
  then have "0 < unat val" by (simp add: word_neq_0_conv unat_gt_0)
  then show ?case using 2 by (simp add: drop_bit_eq_div unat_div)
qed simp

declare varint_encode.simps [simp del]

fun varint_loop :: "nat \<Rightarrow> nat \<Rightarrow> u64 \<Rightarrow> byte list \<Rightarrow> (nat \<times> u64) option" where
  "varint_loop pos shift result [] = None"
| "varint_loop pos shift result (b # bs) =
     (if shift \<ge> 64 then None
      else let r = result OR push_bit shift (ucast (b AND 0x7F))
           in if b AND 0x80 = 0 then Some (pos + 1, r) else varint_loop (pos + 1) (shift + 7) r bs)"

definition varint_decode :: "byte list \<Rightarrow> (nat \<times> u64) option" where
  "varint_decode bs = varint_loop 0 0 0 bs"

section \<open>Quantization\<close>

definition f32_to_half :: "u32 \<Rightarrow> u16" where
  "f32_to_half bits =
     (let sgn = drop_bit 16 bits AND 0x8000; ex = uint (drop_bit 23 bits AND 0xFF) - 127 + 15; mant = drop_bit 13 bits AND 0x3FF
      in if ex \<le> 0 then ucast sgn
         else if ex \<ge> 31 then ucast (sgn OR 0x7C00)
         else ucast (sgn OR push_bit 10 (of_int ex) OR mant))"

definition half_to_f32 :: "u16 \<Rightarrow> u32" where
  "half_to_f32 h =
     (let sgn = push_bit 16 (ucast (h AND 0x8000)); ex = ucast (drop_bit 10 h AND 0x1F) :: u32; mant = ucast (h AND 0x3FF) :: u32
      in if ex = 0 then sgn
         else if ex = 31 then sgn OR 0x7F800000 OR push_bit 13 mant
         else sgn OR push_bit 23 (ex - 15 + 127) OR push_bit 13 mant)"

definition clamp_i :: "int \<Rightarrow> int \<Rightarrow> int \<Rightarrow> int" where
  "clamp_i v lo hi = (if v < lo then lo else if v > hi then hi else v)"

definition quantize_half_steps :: "int \<Rightarrow> int \<Rightarrow> u32 \<Rightarrow> int option" where
  "quantize_half_steps lo hi b =
     (case f32_val b of None \<Rightarrow> None | Some v \<Rightarrow> map_option (\<lambda>t. clamp_i t lo hi) (to_int32 (v * 2)))"

definition vec3_quantize :: "u32 list \<Rightarrow> u32 option" where
  "vec3_quantize v =
     (case (quantize_half_steps (-1024) 1023 (v ! 0), quantize_half_steps (-1024) 1023 (v ! 1), quantize_half_steps (-512) 511 (v ! 2)) of
        (Some x, Some y, Some z) \<Rightarrow>
          Some ((of_int (x + 1024) AND 0x7FF) OR push_bit 11 (of_int (y + 1024) AND 0x7FF) OR push_bit 22 (of_int (z + 512) AND 0x3FF))
      | _ \<Rightarrow> None)"

definition vec3_steps :: "u32 \<Rightarrow> int list" where
  "vec3_steps packed = [uint (packed AND 0x7FF) - 1024, uint (drop_bit 11 packed AND 0x7FF) - 1024, uint (drop_bit 22 packed AND 0x3FF) - 512]"

definition vec3_dequantize :: "u32 \<Rightarrow> u32 list" where
  "vec3_dequantize packed = map (\<lambda>x. f32_bits (of_int x / 2)) (vec3_steps packed)"

fun largest :: "rat list \<Rightarrow> nat list \<Rightarrow> nat \<Rightarrow> nat" where
  "largest q [] best = best"
| "largest q (i # is) best = largest q is (if \<bar>q ! i\<bar> > \<bar>q ! best\<bar> then i else best)"

definition to10 :: "rat \<Rightarrow> u32 option" where
  "to10 v = map_option (\<lambda>t. of_int (clamp_i t 0 1023)) (to_int32 (f32 (f32 (f32 (f32 (v / 2) + 1 / 2) * 1023) + 1 / 2)))"

definition from10 :: "u32 \<Rightarrow> rat" where
  "from10 v = f32 (f32 (f32 (of_int (uint v) / 1023) - 1 / 2) * 2)"

text \<open>For quaternions with finite components.\<close>

definition quat_quantize :: "u32 list \<Rightarrow> u32 option" where
  "quat_quantize bits =
     (case those (map f32_val bits) of None \<Rightarrow> None
      | Some q \<Rightarrow>
          let max_idx = largest q [1, 2, 3] 0; sgn = (if q ! max_idx < 0 then -1 else 1);
              small = map (\<lambda>i. q ! i * sgn) (filter (\<lambda>i. i \<noteq> max_idx) [0..<4])
          in case (to10 (small ! 0), to10 (small ! 1), to10 (small ! 2)) of
               (Some a, Some b, Some c) \<Rightarrow> Some (push_bit 30 (of_nat max_idx) OR push_bit 20 a OR push_bit 10 b OR c)
             | _ \<Rightarrow> None)"

definition quat_dequantize :: "u32 \<Rightarrow> u32 list" where
  "quat_dequantize packed =
     (let max_idx = unat (drop_bit 30 packed AND 3);
          a = from10 (drop_bit 20 packed AND 0x3FF); b = from10 (drop_bit 10 packed AND 0x3FF); c = from10 (packed AND 0x3FF);
          sum_sq = f32 (f32 (f32 (a * a) + f32 (b * b)) + f32 (c * c));
          w = (if sum_sq < 1 then f32_sqrt (f32 (1 - sum_sq)) else 0);
          small = [a, b, c]
      in map f32_bits (take max_idx small @ [w] @ drop max_idx small))"

section \<open>Schemas\<close>

datatype PropType = U8 | U16 | I32 | F32 | VEC3 | QUAT | BLOB

definition REP_OWNER_ONLY :: u16 where "REP_OWNER_ONLY = 0x0001"
definition REP_SKIP_OWNER :: u16 where "REP_SKIP_OWNER = 0x0002"
definition REP_INITIAL_ONLY :: u16 where "REP_INITIAL_ONLY = 0x0004"
definition REP_RELIABLE :: u16 where "REP_RELIABLE = 0x0010"
definition REP_QUANTIZE :: u16 where "REP_QUANTIZE = 0x0020"

definition kMaxPropName :: nat where "kMaxPropName = 32"
definition kMaxProperties :: nat where "kMaxProperties = 64"
definition kEntityMaxValueSize :: nat where "kEntityMaxValueSize = 2048"

lemmas replication_consts [simp] = kMaxPropName_def kMaxProperties_def kEntityMaxValueSize_def

record PropDesc =
  pd_name :: string
  pd_type :: PropType
  pd_rep_flags :: u16
  pd_raw_size :: nat
  pd_wire_size :: nat
  pd_offset :: nat
  pd_bit_index :: nat
  pd_blob_capacity :: nat

text \<open>The first \<^verbatim>\<open>prop_count\<close> entries of the array \<^verbatim>\<open>props\<close> are the list of properties.\<close>

record Schema =
  sc_id :: int
  sc_value_buffer_size :: nat
  sc_props :: "PropDesc list"

definition schema_new :: Schema where
  "schema_new = \<lparr>sc_id = -1, sc_value_buffer_size = 0, sc_props = []\<rparr>"

definition rep_has_flag :: "u16 \<Rightarrow> u16 \<Rightarrow> bool" where
  "rep_has_flag flags f \<longleftrightarrow> flags AND f \<noteq> 0"

definition add_prop :: "string \<Rightarrow> PropType \<Rightarrow> u16 \<Rightarrow> nat \<Rightarrow> nat \<Rightarrow> nat \<Rightarrow> Schema \<Rightarrow> int \<times> Schema" where
  "add_prop name ty flags raw_size wire_size blob_cap s =
     (let idx = length (sc_props s)
      in if idx \<ge> kMaxProperties then (-1, s)
         else (int idx,
               s\<lparr>sc_props := sc_props s @
                   [\<lparr>pd_name = take (kMaxPropName - 1) name, pd_type = ty, pd_rep_flags = flags, pd_raw_size = raw_size,
                     pd_wire_size = (if rep_has_flag flags REP_QUANTIZE then wire_size else raw_size),
                     pd_offset = sc_value_buffer_size s, pd_bit_index = idx, pd_blob_capacity = blob_cap\<rparr>],
                 sc_value_buffer_size := sc_value_buffer_size s + raw_size\<rparr>))"

fun find_prop_from :: "nat \<Rightarrow> string \<Rightarrow> PropDesc list \<Rightarrow> int" where
  "find_prop_from i name [] = -1"
| "find_prop_from i name (p # ps) = (if pd_name p = name then int i else find_prop_from (i + 1) name ps)"

definition find_prop :: "string \<Rightarrow> Schema \<Rightarrow> int" where
  "find_prop name s = find_prop_from 0 name (sc_props s)"

text \<open>The sizes with which the interface adds a property of each type: in memory, and on the wire when quantized.\<close>

fun type_size :: "PropType \<Rightarrow> nat \<Rightarrow> nat" where
  "type_size U8 cap = 1"
| "type_size U16 cap = 2"
| "type_size I32 cap = 4"
| "type_size F32 cap = 4"
| "type_size VEC3 cap = 12"
| "type_size QUAT cap = 16"
| "type_size BLOB cap = cap"

fun quantized_size :: "PropType \<Rightarrow> nat \<Rightarrow> nat" where
  "quantized_size F32 cap = 2"
| "quantized_size VEC3 cap = 4"
| "quantized_size QUAT cap = 4"
| "quantized_size ty cap = type_size ty cap"

section \<open>Entities\<close>

text \<open>
  The pointer \<^verbatim>\<open>schema\<close> of an entity is an index into the server's array of schemas; the operations below
  take the schema it points to, or \<^const>\<open>None\<close> for a null pointer.
\<close>

record Entity =
  en_active :: bool
  en_entity_id :: u16
  en_schema_id :: int
  en_schema :: "nat option"
  en_owner_client :: int
  en_group_id :: int
  en_dirty_mask :: u64
  en_initial_mask :: u64
  en_needs_initial :: bool
  en_priority :: byte
  en_max_rate_hz :: real
  en_last_replicate_time :: real
  en_min_update_interval :: real
  en_values :: "byte list"

definition entity_new :: Entity where
  "entity_new =
     \<lparr>en_active = False, en_entity_id = 0, en_schema_id = -1, en_schema = None, en_owner_client = -1, en_group_id = -1,
      en_dirty_mask = 0, en_initial_mask = 0, en_needs_initial = True, en_priority = 128, en_max_rate_hz = 20,
      en_last_replicate_time = 0, en_min_update_interval = 2, en_values = replicate kEntityMaxValueSize 0\<rparr>"

definition entity_reset :: "Entity \<Rightarrow> Entity" where
  "entity_reset e = entity_new"

definition valid_prop :: "Schema option \<Rightarrow> int \<Rightarrow> PropType \<Rightarrow> bool" where
  "valid_prop sch idx expected =
     (case sch of None \<Rightarrow> False
      | Some s \<Rightarrow> 0 \<le> idx \<and> idx < int (length (sc_props s)) \<and> pd_type (sc_props s ! nat idx) = expected)"

definition prop_at :: "Schema option \<Rightarrow> int \<Rightarrow> PropDesc" where
  "prop_at sch idx = sc_props (the sch) ! nat idx"

text \<open>
  Every setter compares the stored bytes with the new ones and, when they differ, stores them and marks the
  property; the outcome is \<^const>\<open>None\<close> when the bytes lie outside the value buffer.
\<close>

definition mark_dirty :: "int \<Rightarrow> Entity \<Rightarrow> Entity" where
  "mark_dirty idx e = e\<lparr>en_dirty_mask := en_dirty_mask e OR push_bit (nat idx) 1\<rparr>"

definition store_changed :: "(byte list \<Rightarrow> byte list \<Rightarrow> bool) \<Rightarrow> nat \<Rightarrow> int \<Rightarrow> byte list \<Rightarrow> Entity \<Rightarrow> (bool \<times> Entity) option" where
  "store_changed same off idx new e =
     (if off + length new > length (en_values e) then None
      else if same (read_at off (length new) (en_values e)) new then Some (False, e)
      else Some (True, mark_dirty idx (e\<lparr>en_values := write_at off new (en_values e)\<rparr>)))"

definition set_scalar :: "PropType \<Rightarrow> (byte list \<Rightarrow> byte list \<Rightarrow> bool) \<Rightarrow> Schema option \<Rightarrow> int \<Rightarrow> byte list \<Rightarrow> Entity \<Rightarrow> (bool \<times> Entity) option" where
  "set_scalar ty same sch idx new e =
     (if \<not> valid_prop sch idx ty then Some (False, e) else store_changed same (pd_offset (prop_at sch idx)) idx new e)"

definition set_u8 :: "Schema option \<Rightarrow> int \<Rightarrow> byte \<Rightarrow> Entity \<Rightarrow> (bool \<times> Entity) option" where
  "set_u8 sch idx val = set_scalar U8 (=) sch idx [val]"

definition set_u16 :: "Schema option \<Rightarrow> int \<Rightarrow> u16 \<Rightarrow> Entity \<Rightarrow> (bool \<times> Entity) option" where
  "set_u16 sch idx val = set_scalar U16 (=) sch idx (le_bytes 2 val)"

definition set_i32 :: "Schema option \<Rightarrow> int \<Rightarrow> u32 \<Rightarrow> Entity \<Rightarrow> (bool \<times> Entity) option" where
  "set_i32 sch idx val = set_scalar I32 (=) sch idx (le_bytes 4 val)"

definition set_f32 :: "Schema option \<Rightarrow> int \<Rightarrow> u32 \<Rightarrow> Entity \<Rightarrow> (bool \<times> Entity) option" where
  "set_f32 sch idx val = set_scalar F32 (\<lambda>old new. float_eq (of_le old) (of_le new)) sch idx (le_bytes 4 val)"

definition float_bytes :: "u32 list \<Rightarrow> byte list" where
  "float_bytes v = concat (map (le_bytes 4) v)"

definition set_vec3 :: "Schema option \<Rightarrow> int \<Rightarrow> u32 list \<Rightarrow> Entity \<Rightarrow> (bool \<times> Entity) option" where
  "set_vec3 sch idx v = set_scalar VEC3 (=) sch idx (float_bytes v)"

definition set_quat :: "Schema option \<Rightarrow> int \<Rightarrow> u32 list \<Rightarrow> Entity \<Rightarrow> (bool \<times> Entity) option" where
  "set_quat sch idx q = set_scalar QUAT (=) sch idx (float_bytes q)"

definition set_blob :: "Schema option \<Rightarrow> int \<Rightarrow> byte list \<Rightarrow> Entity \<Rightarrow> (bool \<times> Entity) option" where
  "set_blob sch idx data e =
     (if \<not> valid_prop sch idx BLOB then Some (False, e)
      else if length data > pd_blob_capacity (prop_at sch idx) then Some (False, e)
      else store_changed (=) (pd_offset (prop_at sch idx)) idx data e)"

definition value_of :: "PropType \<Rightarrow> nat \<Rightarrow> byte list \<Rightarrow> Schema option \<Rightarrow> int \<Rightarrow> Entity \<Rightarrow> byte list" where
  "value_of ty n dflt sch idx e = (if valid_prop sch idx ty then read_at (pd_offset (prop_at sch idx)) n (en_values e) else dflt)"

definition get_u8 :: "Schema option \<Rightarrow> int \<Rightarrow> Entity \<Rightarrow> byte" where
  "get_u8 sch idx e = of_le (value_of U8 1 [0] sch idx e)"

definition get_u16 :: "Schema option \<Rightarrow> int \<Rightarrow> Entity \<Rightarrow> u16" where
  "get_u16 sch idx e = of_le (value_of U16 2 [0, 0] sch idx e)"

definition get_i32 :: "Schema option \<Rightarrow> int \<Rightarrow> Entity \<Rightarrow> u32" where
  "get_i32 sch idx e = of_le (value_of I32 4 [0, 0, 0, 0] sch idx e)"

definition get_f32 :: "Schema option \<Rightarrow> int \<Rightarrow> Entity \<Rightarrow> u32" where
  "get_f32 sch idx e = of_le (value_of F32 4 [0, 0, 0, 0] sch idx e)"

definition get_vec3 :: "Schema option \<Rightarrow> int \<Rightarrow> Entity \<Rightarrow> byte list" where
  "get_vec3 = value_of VEC3 12 (float_bytes [0, 0, 0])"

definition get_quat :: "Schema option \<Rightarrow> int \<Rightarrow> Entity \<Rightarrow> byte list" where
  "get_quat = value_of QUAT 16 (float_bytes [0, 0, 0, 0x3F800000])"

section \<open>The wire format of an update\<close>

datatype ser_result = Ser_undefined | Ser_error | Ser_bytes "byte list"

definition ser_bind :: "ser_result \<Rightarrow> (byte list \<Rightarrow> ser_result) \<Rightarrow> ser_result" where
  "ser_bind r f = (case r of Ser_undefined \<Rightarrow> Ser_undefined | Ser_error \<Rightarrow> Ser_error | Ser_bytes bs \<Rightarrow> f bs)"

definition floats_at :: "nat \<Rightarrow> byte list \<Rightarrow> u32 list" where
  "floats_at n val = map (\<lambda>i. of_le (read_at (4 * i) 4 val)) [0..<n]"

definition packed_bytes :: "u32 option \<Rightarrow> ser_result" where
  "packed_bytes p = (case p of None \<Rightarrow> Ser_undefined | Some w \<Rightarrow> Ser_bytes (le_bytes 4 w))"

definition write_prop :: "PropDesc \<Rightarrow> byte list \<Rightarrow> int \<Rightarrow> ser_result" where
  "write_prop pd val cap =
     (if rep_has_flag (pd_rep_flags pd) REP_QUANTIZE \<and> pd_type pd = VEC3 then
        (if cap < 4 then Ser_error else packed_bytes (vec3_quantize (floats_at 3 val)))
      else if rep_has_flag (pd_rep_flags pd) REP_QUANTIZE \<and> pd_type pd = QUAT then
        (if cap < 4 then Ser_error else packed_bytes (quat_quantize (floats_at 4 val)))
      else if rep_has_flag (pd_rep_flags pd) REP_QUANTIZE \<and> pd_type pd = F32 then
        (if cap < 2 then Ser_error else Ser_bytes (le_bytes 2 (f32_to_half (of_le (take 4 val)))))
      else if cap < int (pd_raw_size pd) then Ser_error else Ser_bytes (take (pd_raw_size pd) val))"

definition in_mask :: "u64 \<Rightarrow> nat \<Rightarrow> bool" where
  "in_mask dm i \<longleftrightarrow> dm AND push_bit i 1 \<noteq> 0"

fun filter_mask :: "bool \<Rightarrow> bool \<Rightarrow> PropDesc list \<Rightarrow> nat \<Rightarrow> u64 \<Rightarrow> u64" where
  "filter_mask is_initial to_owner [] i dm = dm"
| "filter_mask is_initial to_owner (pd # pds) i dm =
     (let b = push_bit i 1; flags = pd_rep_flags pd
      in filter_mask is_initial to_owner pds (i + 1)
           (if dm AND b = 0 then dm
            else if rep_has_flag flags REP_INITIAL_ONLY \<and> \<not> is_initial then dm AND NOT b
            else if rep_has_flag flags REP_OWNER_ONLY \<and> \<not> to_owner then dm AND NOT b
            else if rep_has_flag flags REP_SKIP_OWNER \<and> to_owner then dm AND NOT b
            else dm))"

fun write_props :: "u64 \<Rightarrow> byte list \<Rightarrow> int \<Rightarrow> PropDesc list \<Rightarrow> nat \<Rightarrow> ser_result" where
  "write_props dm values room [] i = Ser_bytes []"
| "write_props dm values room (pd # pds) i =
     (if \<not> in_mask dm i then write_props dm values room pds (i + 1)
      else if pd_offset pd + pd_raw_size pd > length values then Ser_undefined
      else ser_bind (write_prop pd (drop (pd_offset pd) values) room)
             (\<lambda>bs. ser_bind (write_props dm values (room - int (length bs)) pds (i + 1)) (\<lambda>rest. Ser_bytes (bs @ rest))))"

definition initial_props :: "nat \<Rightarrow> u64 option" where
  "initial_props n = (if n < 64 then Some (push_bit n 1 - 1) else None)"

definition replicate_serialize :: "Schema option \<Rightarrow> Entity \<Rightarrow> int \<Rightarrow> int \<Rightarrow> bool \<Rightarrow> ser_result" where
  "replicate_serialize sch ent out_cap target_client is_initial =
     (case sch of None \<Rightarrow> Ser_error
      | Some s \<Rightarrow>
          if out_cap < 2 then Ser_error
          else case (if is_initial then initial_props (length (sc_props s)) else Some (en_dirty_mask ent)) of
                 None \<Rightarrow> Ser_undefined
               | Some dm0 \<Rightarrow>
                   let dm = filter_mask is_initial (target_client = en_owner_client ent) (sc_props s) 0 dm0;
                       head = le_bytes 2 (en_entity_id ent) @ varint_encode dm
                   in if dm = 0 then Ser_bytes []
                      else if int (length head) > out_cap then Ser_undefined
                      else ser_bind (write_props dm (en_values ent) (out_cap - int (length head)) (sc_props s) 0)
                             (\<lambda>bs. Ser_bytes (head @ bs)))"

definition read_prop :: "PropDesc \<Rightarrow> byte list \<Rightarrow> (nat \<times> byte list) option" where
  "read_prop pd wire =
     (if rep_has_flag (pd_rep_flags pd) REP_QUANTIZE \<and> pd_type pd = VEC3 then
        (if length wire < 4 then None else Some (4, float_bytes (vec3_dequantize (of_le (take 4 wire)))))
      else if rep_has_flag (pd_rep_flags pd) REP_QUANTIZE \<and> pd_type pd = QUAT then
        (if length wire < 4 then None else Some (4, float_bytes (quat_dequantize (of_le (take 4 wire)))))
      else if rep_has_flag (pd_rep_flags pd) REP_QUANTIZE \<and> pd_type pd = F32 then
        (if length wire < 2 then None else Some (2, le_bytes 4 (half_to_f32 (of_le (take 2 wire)))))
      else if length wire < pd_raw_size pd then None else Some (pd_raw_size pd, take (pd_raw_size pd) wire))"

fun read_props :: "u64 \<Rightarrow> byte list \<Rightarrow> nat \<Rightarrow> PropDesc list \<Rightarrow> nat \<Rightarrow> byte list \<Rightarrow> nat option \<times> byte list" where
  "read_props dm wire pos [] i out = (Some pos, out)"
| "read_props dm wire pos (pd # pds) i out =
     (if \<not> in_mask dm i then read_props dm wire pos pds (i + 1) out
      else case read_prop pd (drop pos wire) of
             None \<Rightarrow> (None, out)
           | Some (consumed, v) \<Rightarrow> read_props dm wire (pos + consumed) pds (i + 1) (write_at (pd_offset pd) v out))"

text \<open>The result: bytes consumed (\<^const>\<open>None\<close> is -1), the entity id and the mask where they were set, and the values.\<close>

definition replicate_deserialize :: "Schema \<Rightarrow> byte list \<Rightarrow> byte list \<Rightarrow> nat option \<times> u16 option \<times> u64 option \<times> byte list" where
  "replicate_deserialize s wire out =
     (if length wire < 3 then (None, None, None, out)
      else let eid = Some (of_le (take 2 wire))
           in case varint_decode (drop 2 wire) of
                None \<Rightarrow> (None, eid, None, out)
              | Some (n, dm) \<Rightarrow> (case read_props dm wire (2 + n) (sc_props s) 0 out of (r, out') \<Rightarrow> (r, eid, Some dm, out')))"

section \<open>Varints decode to what was encoded\<close>

lemma bit_7F: "bit (0x7F :: int) k \<longleftrightarrow> k < 7" and bit_80: "bit (0x80 :: int) k \<longleftrightarrow> k = 7"
proof -
  have "(0x7F :: int) = mask 7" "(0x80 :: int) = 2 ^ 7" by (simp_all add: mask_eq_exp_minus_1)
  then show "bit (0x7F :: int) k \<longleftrightarrow> k < 7" "bit (0x80 :: int) k \<longleftrightarrow> k = 7"
    by (simp_all only: bit_mask_iff bit_exp_iff possible_bit_int) auto
qed

lemma push_bit_split: "push_bit s (v AND 0x7F) OR push_bit (s + 7) (drop_bit 7 v) = push_bit s (v :: 'a::len word)"
proof (rule bit_eqI)
  fix n
  assume "possible_bit TYPE('a word) n"
  moreover have "7 + (n - (s + 7)) = n - s" if "\<not> n - s < 7" using that by simp
  ultimately show "bit (push_bit s (v AND 0x7F) OR push_bit (s + 7) (drop_bit 7 v)) n = bit (push_bit s v) n"
    by (cases "n - s < 7") (auto simp: bit_or_iff bit_push_bit_iff bit_and_iff bit_drop_bit_eq bit_7F)
qed

lemma low_byte: "(ucast (ucast (v AND 0x7F) :: byte) :: 'a::len word) = v AND 0x7F"
  by (rule bit_eqI) (auto simp: bit_ucast_iff bit_and_iff bit_7F)

lemma low_bits:
  fixes b :: byte and v :: "'a::len word"
  assumes "b = ucast (v AND 0x7F)"
  shows "b AND 0x7F = b" "b AND 0x80 = 0" "(b OR 0x80) AND 0x7F = b" "(b OR 0x80) AND 0x80 \<noteq> 0"
proof -
  show "b AND 0x7F = b" "b AND 0x80 = 0" "(b OR 0x80) AND 0x7F = b"
    by (rule bit_eqI; auto simp: assms bit_ucast_iff bit_and_iff bit_or_iff bit_7F bit_80)+
  have "(b OR 0x80) AND 0x80 = 0x80" by (rule bit_eqI) (auto simp: bit_and_iff bit_or_iff)
  then show "(b OR 0x80) AND 0x80 \<noteq> 0" by simp
qed

lemma unat_drop7: "unat (drop_bit 7 v :: 'a::len word) = unat v div 2 ^ 7"
  by (subst unsigned_drop_bit_eq) (simp add: drop_bit_eq_div take_bit_nat_eq_self)

lemma varint_loop_encode:
  assumes "s < 64" and "unat v < 2 ^ (64 - s)"
  shows "varint_loop pos s r (varint_encode v @ rest) = Some (pos + length (varint_encode v), r OR push_bit s v)"
  using assms
proof (induction v arbitrary: pos s r rule: varint_encode.induct)
  case (1 v)
  define b :: byte where "b = ucast (v AND 0x7F)"
  have bits: "b AND 0x7F = b" "b AND 0x80 = 0" "(b OR 0x80) AND 0x7F = b" "(b OR 0x80) AND 0x80 \<noteq> 0" "ucast b = v AND 0x7F"
    using low_bits [OF b_def] low_byte [of v] by (simp_all add: b_def)
  show ?case
  proof (cases "drop_bit 7 v = 0")
    case True
    then have "push_bit s (v AND 0x7F) = push_bit s v" using push_bit_split [of s v] by simp
    moreover have "varint_encode v = [b]" by (subst varint_encode.simps) (simp add: True b_def)
    ultimately show ?thesis using 1(2) by (simp add: bits)
  next
    case False
    have enc: "varint_encode v = (b OR 0x80) # varint_encode (drop_bit 7 v)"
      by (subst varint_encode.simps) (simp add: False b_def)
    have "unat (drop_bit 7 v) \<noteq> 0" using False unat_eq_zero by blast
    then have big: "2 ^ 7 \<le> unat v" unfolding unat_drop7 by simp
    then have s: "7 < 64 - s" using 1(3) by (metis le_less_trans nat_power_less_imp_less pos2)
    have "64 - s = 7 + (64 - (s + 7))" using s by simp
    then have "2 ^ (64 - s) = (2 ^ 7 * 2 ^ (64 - (s + 7)) :: nat)" by (metis power_add)
    then have small: "unat (drop_bit 7 v) < 2 ^ (64 - (s + 7))"
      using 1(3) unfolding unat_drop7 by (subst div_less_iff_less_mult) (auto simp: mult.commute)
    have "varint_loop (pos + 1) (s + 7) (r OR push_bit s (v AND 0x7F)) (varint_encode (drop_bit 7 v) @ rest) =
        Some (pos + 1 + length (varint_encode (drop_bit 7 v)), (r OR push_bit s (v AND 0x7F)) OR push_bit (s + 7) (drop_bit 7 v))"
      by (rule 1(1) [OF b_def refl False _ small]) (use s in simp)
    then show ?thesis using 1(2) by (simp add: enc bits or.assoc push_bit_split del: push_bit_and)
  qed
qed

lemma varint_decode_encode [simp]: "varint_decode (varint_encode v @ rest) = Some (length (varint_encode v), v)"
  using varint_loop_encode [of 0 v 0 0 rest] unsigned_less [of v, where 'a = nat] by (simp add: varint_decode_def)

lemma length_varint_encode: "unat v < 2 ^ (7 * n) \<Longrightarrow> n > 0 \<Longrightarrow> length (varint_encode v) \<le> n"
proof (induction n arbitrary: v)
  case (Suc n)
  show ?case
  proof (cases "drop_bit 7 v = 0")
    case True
    then show ?thesis by (subst varint_encode.simps) simp
  next
    case False
    have d: "unat (drop_bit 7 v) < 2 ^ (7 * n)"
      using Suc.prems unfolding unat_drop7 by (subst div_less_iff_less_mult) (auto simp: power_add mult.commute)
    with False have "n > 0" by (cases n) (auto simp: unat_eq_0)
    then have "length (varint_encode (drop_bit 7 v)) \<le> n" using Suc.IH d by blast
    then show ?thesis by (subst varint_encode.simps) (simp add: False)
  qed
qed simp

lemma length_varint_encode_le: "length (varint_encode v) \<le> 10"
  by (rule length_varint_encode) (use unsigned_less [of v, where 'a = nat] in simp_all)

section \<open>Updates read back what was written\<close>

lemma length_float_bytes [simp]: "length (float_bytes v) = 4 * length v"
  by (induction v) (auto simp: float_bytes_def)

lemma floats_at_take: "4 * n \<le> m \<Longrightarrow> floats_at n (take m xs) = floats_at n xs"
  by (auto simp: floats_at_def read_at_def drop_take min_def)

text \<open>What a property's value becomes on its way over the wire.\<close>

definition through_wire :: "PropDesc \<Rightarrow> byte list \<Rightarrow> byte list" where
  "through_wire pd val =
     (if rep_has_flag (pd_rep_flags pd) REP_QUANTIZE then
        case pd_type pd of
          VEC3 \<Rightarrow> float_bytes (vec3_dequantize (the (vec3_quantize (floats_at 3 val))))
        | QUAT \<Rightarrow> float_bytes (quat_dequantize (the (quat_quantize (floats_at 4 val))))
        | F32 \<Rightarrow> le_bytes 4 (half_to_f32 (f32_to_half (of_le val)))
        | _ \<Rightarrow> val
      else val)"

lemma length_dequantize [simp]: "length (vec3_dequantize p) = 3" "length (quat_dequantize p) = 4"
proof -
  have "unat (drop_bit 30 p AND 3) \<le> 3" using word_and_le1 [of "drop_bit 30 p" 3] by (simp add: word_le_nat_alt)
  then show "length (quat_dequantize p) = 4" by (simp add: quat_dequantize_def Let_def)
qed (simp add: vec3_dequantize_def vec3_steps_def)

definition prop_ok :: "PropDesc \<Rightarrow> bool" where
  "prop_ok pd \<longleftrightarrow> pd_raw_size pd = type_size (pd_type pd) (pd_blob_capacity pd)"

lemma length_through_wire:
  "prop_ok pd \<Longrightarrow> length val = pd_raw_size pd \<Longrightarrow> length (through_wire pd val) = pd_raw_size pd"
  by (auto simp: through_wire_def prop_ok_def split: PropType.splits)

lemma read_write_prop:
  assumes "prop_ok pd" and "pd_raw_size pd \<le> length val" and "write_prop pd val cap = Ser_bytes bs"
  shows "read_prop pd (bs @ rest) = Some (length bs, through_wire pd (take (pd_raw_size pd) val))"
  using assms
  by (auto simp: write_prop_def read_prop_def through_wire_def prop_ok_def packed_bytes_def floats_at_take
      split: if_splits option.splits PropType.splits)

fun laid_out :: "nat \<Rightarrow> PropDesc list \<Rightarrow> bool" where
  "laid_out off [] \<longleftrightarrow> off \<le> kEntityMaxValueSize"
| "laid_out off (pd # pds) \<longleftrightarrow> pd_offset pd = off \<and> prop_ok pd \<and> laid_out (off + pd_raw_size pd) pds"

definition prop_value :: "PropDesc \<Rightarrow> byte list \<Rightarrow> byte list" where
  "prop_value pd values = read_at (pd_offset pd) (pd_raw_size pd) values"

lemma laid_out_bounds:
  assumes "laid_out off pds" and "pd \<in> set pds"
  shows "off \<le> pd_offset pd" "pd_offset pd + pd_raw_size pd \<le> kEntityMaxValueSize" "prop_ok pd"
proof -
  have le: "off' \<le> kEntityMaxValueSize" if "laid_out off' pds'" for off' pds'
    using that by (induction pds' arbitrary: off') fastforce+
  show "off \<le> pd_offset pd" "pd_offset pd + pd_raw_size pd \<le> kEntityMaxValueSize" "prop_ok pd"
    using assms by (induction pds arbitrary: off) (auto dest: le, fastforce+)
qed

lemma prop_value_write_below:
  "pd_offset pd \<ge> off + length v \<Longrightarrow> off + length v \<le> length out \<Longrightarrow> pd_offset pd + pd_raw_size pd \<le> length out
    \<Longrightarrow> prop_value pd (write_at off v out) = prop_value pd out"
  unfolding prop_value_def by (rule read_write_other) auto

lemma prop_value_take:
  "take (pd_offset pd + pd_raw_size pd) out' = take (pd_offset pd + pd_raw_size pd) out \<Longrightarrow> prop_value pd out' = prop_value pd out"
  by (simp add: prop_value_def read_at_def take_drop add.commute)

lemma take_le_eq: "take m xs = take m ys \<Longrightarrow> n \<le> m \<Longrightarrow> take n xs = take n ys"
  by (metis min.absorb1 take_take)

lemma read_write_props:
  assumes "laid_out off pds" and "length values = kEntityMaxValueSize" and "length out = kEntityMaxValueSize"
    and "write_props dm values room pds i = Ser_bytes bs" and "drop pos wire = bs @ rest"
  shows "\<exists>out'. read_props dm wire pos pds i out = (Some (pos + length bs), out') \<and> length out' = kEntityMaxValueSize
      \<and> take off out' = take off out
      \<and> (\<forall>k < length pds. prop_value (pds ! k) out' =
            (if in_mask dm (i + k) then through_wire (pds ! k) (prop_value (pds ! k) values) else prop_value (pds ! k) out))"
  using assms
proof (induction pds arbitrary: off out room i bs pos)
  case Nil
  then show ?case by simp
next
  case (Cons pd pds)
  let ?off' = "off + pd_raw_size pd"
  have pd: "pd_offset pd = off" "prop_ok pd" "laid_out ?off' pds" using Cons.prems(1) by auto
  have fits: "?off' \<le> kEntityMaxValueSize" using laid_out_bounds(2) [OF Cons.prems(1), of pd] pd(1) by simp
  show ?case
  proof (cases "in_mask dm i")
    case False
    then have "write_props dm values room pds (i + 1) = Ser_bytes bs" using Cons.prems(4) by simp
    from Cons.IH [OF pd(3) Cons.prems(2,3) this Cons.prems(5)] obtain out' where
      o: "read_props dm wire pos pds (i + 1) out = (Some (pos + length bs), out')" "length out' = kEntityMaxValueSize"
        "take ?off' out' = take ?off' out" "\<forall>k < length pds. prop_value (pds ! k) out' =
          (if in_mask dm (i + 1 + k) then through_wire (pds ! k) (prop_value (pds ! k) values) else prop_value (pds ! k) out)"
      by blast
    have "prop_value pd out' = prop_value pd out" by (rule prop_value_take) (use o(3) pd(1) in simp)
    then show ?thesis using o False by (auto simp: All_less_Suc2 intro!: exI [of _ out'] take_le_eq [OF o(3)])
  next
    case True
    let ?v = "through_wire pd (prop_value pd values)" and ?out1 = "write_at off (through_wire pd (prop_value pd values)) out"
    from Cons.prems(4) True obtain b1 b2 where w: "write_prop pd (drop off values) room = Ser_bytes b1"
      "write_props dm values (room - int (length b1)) pds (i + 1) = Ser_bytes b2" "bs = b1 @ b2"
      by (auto simp: ser_bind_def pd split: if_splits ser_result.splits)
    have len: "length (prop_value pd values) = pd_raw_size pd" "length ?v = pd_raw_size pd"
      using length_through_wire [OF pd(2)] fits Cons.prems(2) by (auto simp: prop_value_def pd(1))
    have "read_prop pd (drop pos wire) = Some (length b1, ?v)"
      using read_write_prop [OF pd(2) _ w(1), of "b2 @ rest"] fits Cons.prems(2,5) w(3) pd(1)
      by (simp add: prop_value_def read_at_def)
    then have read: "read_props dm wire pos (pd # pds) i out = read_props dm wire (pos + length b1) pds (i + 1) ?out1"
      using True pd(1) by simp
    have len1: "length ?out1 = kEntityMaxValueSize" using fits len Cons.prems(3) by simp
    have "drop (pos + length b1) wire = b2 @ rest" using Cons.prems(5) w(3)
      by (metis add.commute append_assoc append_eq_conv_conj drop_drop)
    from Cons.IH [OF pd(3) Cons.prems(2) len1 w(2) this] obtain out' where
      o: "read_props dm wire (pos + length b1) pds (i + 1) ?out1 = (Some (pos + length b1 + length b2), out')"
        "length out' = kEntityMaxValueSize" "take ?off' out' = take ?off' ?out1" "\<forall>k < length pds. prop_value (pds ! k) out' =
          (if in_mask dm (i + 1 + k) then through_wire (pds ! k) (prop_value (pds ! k) values) else prop_value (pds ! k) ?out1)"
      by blast
    have "prop_value pd out' = prop_value pd ?out1" by (rule prop_value_take) (use o(3) pd(1) in simp)
    also have "\<dots> = ?v" using fits len Cons.prems(3) by (simp add: prop_value_def pd(1))
    finally have here: "prop_value pd out' = ?v" .
    have other: "prop_value (pds ! k) ?out1 = prop_value (pds ! k) out" if "k < length pds" for k
      using laid_out_bounds [OF pd(3), of "pds ! k"] that len fits Cons.prems(3) by (intro prop_value_write_below) auto
    have "take off out' = take off ?out1" by (rule take_le_eq [OF o(3)]) simp
    also have "\<dots> = take off out" using fits Cons.prems(3) by (simp add: write_at_def)
    finally show ?thesis using o read here other True w(3)
      by (intro exI [of _ out']) (simp add: All_less_Suc2)
  qed
qed

text \<open>Which quantized values the conversions are defined for.\<close>

definition quantizable :: "PropDesc \<Rightarrow> byte list \<Rightarrow> bool" where
  "quantizable pd val \<longleftrightarrow>
     (rep_has_flag (pd_rep_flags pd) REP_QUANTIZE \<longrightarrow>
        (pd_type pd = VEC3 \<longrightarrow> vec3_quantize (floats_at 3 val) \<noteq> None) \<and> (pd_type pd = QUAT \<longrightarrow> quat_quantize (floats_at 4 val) \<noteq> None))"

lemma write_prop_ok:
  assumes "prop_ok pd" and "quantizable pd (take (pd_raw_size pd) val)" and "int (pd_raw_size pd) \<le> cap"
  shows "\<exists>bs. write_prop pd val cap = Ser_bytes bs \<and> length bs \<le> pd_raw_size pd"
  using assms
  by (auto simp: write_prop_def prop_ok_def quantizable_def packed_bytes_def floats_at_take split: if_splits)

lemma write_props_ok:
  assumes "laid_out off pds" and "length values = kEntityMaxValueSize" and "int kEntityMaxValueSize \<le> room + int off"
    and "\<forall>pd \<in> set pds. quantizable pd (prop_value pd values)"
  shows "\<exists>bs. write_props dm values room pds i = Ser_bytes bs"
  using assms
proof (induction pds arbitrary: off room i)
  case Nil
  then show ?case by simp
next
  case (Cons pd pds)
  let ?off' = "off + pd_raw_size pd"
  have pd: "pd_offset pd = off" "prop_ok pd" "laid_out ?off' pds" using Cons.prems(1) by auto
  have fits: "?off' \<le> kEntityMaxValueSize" using laid_out_bounds(2) [OF Cons.prems(1), of pd] pd(1) by simp
  have "quantizable pd (take (pd_raw_size pd) (drop off values))"
    using Cons.prems(4) pd(1) by (simp add: prop_value_def read_at_def)
  moreover have "int (pd_raw_size pd) \<le> room" using Cons.prems(3) fits by linarith
  ultimately obtain bs where bs: "write_prop pd (drop off values) room = Ser_bytes bs" "length bs \<le> pd_raw_size pd"
    using write_prop_ok [OF pd(2)] by blast
  have "int kEntityMaxValueSize \<le> room - int (length bs) + int ?off'" using Cons.prems(3) bs(2) by linarith
  then obtain rest where "write_props dm values (room - int (length bs)) pds (i + 1) = Ser_bytes rest"
    using Cons.IH [OF pd(3) Cons.prems(2)] Cons.prems(4) by (metis list.set_intros(2))
  moreover have "\<exists>bs. write_props dm values room pds (i + 1) = Ser_bytes bs"
    by (rule Cons.IH [OF pd(3) Cons.prems(2)]) (use Cons.prems(3,4) in auto)
  ultimately show ?case using bs(1) fits Cons.prems(2) by (auto simp: ser_bind_def pd)
qed

text \<open>Which properties a client is sent.\<close>

definition visible :: "bool \<Rightarrow> bool \<Rightarrow> PropDesc \<Rightarrow> bool" where
  "visible is_initial to_owner pd \<longleftrightarrow>
     (rep_has_flag (pd_rep_flags pd) REP_INITIAL_ONLY \<longrightarrow> is_initial) \<and> (rep_has_flag (pd_rep_flags pd) REP_OWNER_ONLY \<longrightarrow> to_owner)
     \<and> (rep_has_flag (pd_rep_flags pd) REP_SKIP_OWNER \<longrightarrow> \<not> to_owner)"

lemma in_mask_bit: "in_mask dm j \<longleftrightarrow> bit dm j"
  by (simp add: in_mask_def and_exp_eq_0_iff_not_bit)

lemma in_mask_filter:
  "in_mask (filter_mask is_initial to_owner pds i dm) j \<longleftrightarrow>
     in_mask dm j \<and> (i \<le> j \<and> j < i + length pds \<longrightarrow> visible is_initial to_owner (pds ! (j - i)))"
proof (induction pds arbitrary: i dm)
  case (Cons pd pds)
  have clear: "in_mask (dm AND NOT (push_bit i 1)) j \<longleftrightarrow> in_mask dm j \<and> j \<noteq> i"
    by (auto simp: in_mask_bit bit_and_iff bit_not_iff bit_exp_iff dest: bit_imp_le_length)
  define dm' where "dm' = (if in_mask dm i \<and> \<not> visible is_initial to_owner pd then dm AND NOT (push_bit i 1) else dm)"
  have step: "filter_mask is_initial to_owner (pd # pds) i dm = filter_mask is_initial to_owner pds (Suc i) dm'"
    by (auto simp: dm'_def in_mask_def visible_def Let_def)
  have dm': "in_mask dm' j \<longleftrightarrow> in_mask dm j \<and> (j = i \<longrightarrow> visible is_initial to_owner pd)"
    using clear by (auto simp: dm'_def)
  show ?case unfolding step Cons.IH dm' by (cases "j - i") (auto simp: nth_Cons' diff_Suc split: nat.splits)
qed auto

lemma in_initial_props: "initial_props n = Some dm \<Longrightarrow> in_mask dm j \<longleftrightarrow> j < n"
proof -
  assume "initial_props n = Some dm"
  then have "n < 64" "dm = mask n" by (auto simp: initial_props_def mask_eq_exp_minus_1 split: if_splits)
  then show "in_mask dm j \<longleftrightarrow> j < n" by (auto simp: in_mask_bit bit_mask_iff)
qed

definition schema_ok :: "Schema \<Rightarrow> bool" where
  "schema_ok s \<longleftrightarrow> laid_out 0 (sc_props s) \<and> length (sc_props s) < kMaxProperties"

lemma add_prop_ok:
  assumes "schema_ok s" and "sc_value_buffer_size s = sum_list (map pd_raw_size (sc_props s))"
    and "sc_value_buffer_size s + type_size ty cap \<le> kEntityMaxValueSize" and "length (sc_props s) + 1 < kMaxProperties"
    and "add_prop name ty flags (type_size ty cap) (quantized_size ty cap) cap s = (idx, s')"
  shows "schema_ok s' \<and> sc_value_buffer_size s' = sum_list (map pd_raw_size (sc_props s')) \<and> idx = int (length (sc_props s))"
proof -
  have snoc: "laid_out off (pds @ [pd]) \<longleftrightarrow>
      laid_out off pds \<and> pd_offset pd = off + sum_list (map pd_raw_size pds) \<and> prop_ok pd
      \<and> off + sum_list (map pd_raw_size pds) + pd_raw_size pd \<le> kEntityMaxValueSize" for off pds pd
    by (induction pds arbitrary: off) (auto simp: add.assoc)
  show ?thesis using assms by (auto simp: schema_ok_def add_prop_def Let_def snoc prop_ok_def)
qed

lemma deserialize_head:
  assumes "w = le_bytes 2 (eid :: u16) @ varint_encode dm @ bs" and "read_props dm w (2 + length (varint_encode dm)) (sc_props s) 0 out = (r, out')"
  shows "replicate_deserialize s w out = (r, Some eid, Some dm, out')"
proof -
  have "varint_encode dm \<noteq> []" by (subst varint_encode.simps) (simp add: Let_def)
  then have "\<not> length w < 3" using assms(1) by (cases "varint_encode dm") auto
  then show ?thesis using assms by (simp add: replicate_deserialize_def)
qed


definition example_schema :: Schema where
  "example_schema = snd (add_prop ''health'' U16 REP_OWNER_ONLY 2 2 0 (snd (add_prop ''speed'' F32 REP_QUANTIZE 4 2 0 schema_new)))"

definition example_entity :: Entity where
  "example_entity =
     (let e = entity_new\<lparr>en_active := True, en_entity_id := 5, en_owner_client := 2\<rparr>
      in snd (the (set_u16 (Some example_schema) 1 99 (snd (the (set_f32 (Some example_schema) 0 0x3FC00001 e))))))"


section \<open>How far quantized values move\<close>

lemma int_masks: "(0x7FF :: int) = mask 11" "(0x3FF :: int) = mask 10" "(0xFF :: int) = mask 8"
  "(0x8000 :: int) = 2 ^ 15" "(0x1F :: int) = mask 5" "(0xFFFFE000 :: int) = push_bit 13 (mask 19)"
  by (simp_all add: mask_eq_exp_minus_1)

lemma bit_int_masks:
  "bit (0x7FF :: int) k \<longleftrightarrow> k < 11" "bit (0x3FF :: int) k \<longleftrightarrow> k < 10" "bit (0xFF :: int) k \<longleftrightarrow> k < 8"
  "bit (0x8000 :: int) k \<longleftrightarrow> k = 15" "bit (0x1F :: int) k \<longleftrightarrow> k < 5" "bit (0xFFFFE000 :: int) k \<longleftrightarrow> 13 \<le> k \<and> k < 32"
  by (simp_all only: int_masks bit_mask_iff bit_exp_iff possible_bit_int bit_push_bit_iff) auto

lemma vec3_fields:
  fixes x y z :: u32
  defines "p \<equiv> (x AND 0x7FF) OR push_bit 11 (y AND 0x7FF) OR push_bit 22 (z AND 0x3FF)"
  shows "p AND 0x7FF = x AND 0x7FF" "drop_bit 11 p AND 0x7FF = y AND 0x7FF" "drop_bit 22 p AND 0x3FF = z AND 0x3FF"
  unfolding p_def
  by (rule bit_eqI; auto simp: bit_or_iff bit_and_iff bit_push_bit_iff bit_drop_bit_eq bit_int_masks simp del: push_bit_and)+

lemma uint_and_mask:
  assumes "0 \<le> t" and "t < 2 ^ n" and "n < 32"
  shows "uint ((of_int t :: u32) AND mask n) = t"
  using assms by (simp add: take_bit_eq_mask [symmetric] unsigned_take_bit_eq take_bit_int_eq_self uint_word_of_int_eq)

lemma trunc_error: "\<bar>of_int (trunc_rat x) - x\<bar> < 1" for x :: rat
  unfolding trunc_rat_def by (auto; linarith)

lemma quantize_half_steps_error:
  assumes "quantize_half_steps lo hi b = Some t" and "lo \<le> hi" and "0 \<le> hi" and "f32_val b = Some x"
  shows "lo \<le> t \<and> t \<le> hi \<and> (of_int lo \<le> 2 * x \<and> 2 * x < of_int hi + 1 \<longrightarrow> \<bar>of_int t / 2 - x\<bar> < 1 / 2)"
proof -
  have t: "t = clamp_i (trunc_rat (x * 2)) lo hi"
    using assms(1,4) by (auto simp: quantize_half_steps_def to_int32_def Let_def split: if_splits)
  have "lo \<le> trunc_rat (x * 2) \<and> trunc_rat (x * 2) \<le> hi" if "of_int lo \<le> 2 * x" "2 * x < of_int hi + 1"
    using that assms(3) unfolding trunc_rat_def by (auto simp: le_floor_iff floor_le_iff ceiling_le_iff le_ceiling_iff mult.commute)
  moreover have "\<bar>of_int (trunc_rat (x * 2)) / 2 - x\<bar> < 1 / 2"
    using trunc_error [of "x * 2"] unfolding abs_less_iff by auto
  ultimately show ?thesis using assms(2) by (auto simp: t clamp_i_def)
qed

lemma vec3_steps_quantize:
  assumes "vec3_quantize v = Some p"
  obtains x y z where "quantize_half_steps (-1024) 1023 (v ! 0) = Some x" "quantize_half_steps (-1024) 1023 (v ! 1) = Some y"
    "quantize_half_steps (-512) 511 (v ! 2) = Some z" "vec3_steps p = [x, y, z]"
proof -
  obtain x y z where q: "quantize_half_steps (-1024) 1023 (v ! 0) = Some x" "quantize_half_steps (-1024) 1023 (v ! 1) = Some y"
    "quantize_half_steps (-512) 511 (v ! 2) = Some z"
    and p: "p = (of_int (x + 1024) AND 0x7FF) OR push_bit 11 (of_int (y + 1024) AND 0x7FF) OR push_bit 22 (of_int (z + 512) AND 0x3FF)"
    using assms by (auto simp: vec3_quantize_def split: option.splits)
  have range: "lo \<le> t \<and> t \<le> hi" if "quantize_half_steps lo hi b = Some t" "lo \<le> hi" for lo hi b t
    using that by (auto simp: quantize_half_steps_def clamp_i_def split: option.splits)
  have m: "(0x7FF :: u32) = mask 11" "(0x3FF :: u32) = mask 10" by (simp_all add: mask_eq_exp_minus_1)
  have "vec3_steps p = [x, y, z]"
    unfolding vec3_steps_def p vec3_fields unfolding m
    using range [OF q(1)] range [OF q(2)] range [OF q(3)] by (simp add: uint_and_mask del: of_int_add)
  then show thesis using q that by blast
qed

lemma vec3_steps_error:
  assumes "vec3_quantize v = Some p" and "i < 3" and "f32_val (v ! i) = Some x"
    and "if i < 2 then -512 \<le> x \<and> x < 512 else -256 \<le> x \<and> x < 256"
  shows "\<bar>of_int (vec3_steps p ! i) / 2 - x\<bar> < 1 / 2"
proof -
  obtain a b c where q: "quantize_half_steps (-1024) 1023 (v ! 0) = Some a" "quantize_half_steps (-1024) 1023 (v ! 1) = Some b"
    "quantize_half_steps (-512) 511 (v ! 2) = Some c" and s: "vec3_steps p = [a, b, c]"
    by (rule vec3_steps_quantize [OF assms(1)])
  consider "i = 0" | "i = 1" | "i = 2" using assms(2) by linarith
  then show ?thesis
    by cases (use assms(3,4) quantize_half_steps_error [OF q(1)] quantize_half_steps_error [OF q(2)] quantize_half_steps_error [OF q(3)] s in auto)
qed


lemma half_fields:
  fixes sg e m :: u32
  assumes "e < 32"
  defines "h \<equiv> ucast ((sg AND 0x8000) OR push_bit 10 e OR (m AND 0x3FF)) :: u16"
  shows "ucast (h AND 0x8000) = sg AND 0x8000" "ucast (drop_bit 10 h AND 0x1F) = e" "ucast (h AND 0x3FF) = m AND 0x3FF"
proof -
  have "unat (take_bit 5 e) = unat e" using assms(1) by (simp add: unsigned_take_bit_eq take_bit_nat_eq_self word_less_nat_alt)
  then have "e = take_bit 5 e" by (metis unsigned_word_eqI)
  then have e: "k < 5" if "bit e k" for k using that by (metis bit_take_bit_iff)
  note b = bit_or_iff bit_and_iff bit_push_bit_iff bit_drop_bit_eq bit_ucast_iff bit_int_masks
  show "ucast (h AND 0x8000) = sg AND 0x8000" unfolding h_def
    by (rule bit_eqI) (auto simp: b dest: e)
  show "ucast (drop_bit 10 h AND 0x1F) = e" unfolding h_def
    by (rule bit_eqI) (auto simp: b dest: e)
  show "ucast (h AND 0x3FF) = m AND 0x3FF" unfolding h_def
    by (rule bit_eqI) (auto simp: b dest: e)
qed


lemma half_join:
  "push_bit 16 (drop_bit 16 b AND 0x8000) OR push_bit 23 (drop_bit 23 b AND 0xFF) OR push_bit 13 (drop_bit 13 b AND 0x3FF) = b AND (0xFFFFE000 :: u32)"
proof (rule bit_eqI)
  fix n
  assume "possible_bit TYPE(u32) n"
  then consider "n < 13" | "13 \<le> n" "n < 23" | "23 \<le> n" "n < 31" | "n = 31" by fastforce
  then show "bit (push_bit 16 (drop_bit 16 b AND 0x8000) OR push_bit 23 (drop_bit 23 b AND 0xFF) OR push_bit 13 (drop_bit 13 b AND 0x3FF)) n
      = bit (b AND (0xFFFFE000 :: u32)) n"
    by cases (auto simp: bit_or_iff bit_and_iff bit_push_bit_iff bit_drop_bit_eq bit_int_masks simp del: push_bit_and)
qed

lemma half_exact:
  assumes "113 \<le> uint (drop_bit 23 b AND 0xFF)" and "uint (drop_bit 23 b AND 0xFF) \<le> 142"
  shows "half_to_f32 (f32_to_half b) = b AND 0xFFFFE000"
proof -
  define e where "e = (drop_bit 23 b AND 0xFF) - 112"
  define ex where "ex = uint (drop_bit 23 b AND 0xFF) - 112"
  have e: "of_int ex = e" by (simp add: ex_def e_def)
  have "0 \<le> ex" "ex < 2 ^ 32" using assms by (simp_all add: ex_def)
  then have "uint e = ex" unfolding e [symmetric] by (simp add: uint_word_of_int_eq take_bit_int_eq_self)
  then have r: "1 \<le> uint e" "uint e \<le> 30" using assms by (simp_all add: ex_def)
  then have e32: "e < 32" "e \<noteq> 0" "e \<noteq> 31" by (auto simp: word_less_def word_uint_eq_iff)
  have "f32_to_half b = ucast ((drop_bit 16 b AND 0x8000) OR push_bit 10 e OR (drop_bit 13 b AND 0x3FF))"
    using assms by (simp add: f32_to_half_def Let_def e [symmetric] ex_def)
  then have "half_to_f32 (f32_to_half b) = push_bit 16 (drop_bit 16 b AND 0x8000) OR push_bit 23 (e - 15 + 127) OR push_bit 13 (drop_bit 13 b AND 0x3FF)"
    using e32 half_fields [OF e32(1)] by (simp add: half_to_f32_def Let_def del: push_bit_and)
  also have "e - 15 + 127 = drop_bit 23 b AND 0xFF" by (simp add: e_def)
  also have "push_bit 16 (drop_bit 16 b AND 0x8000) OR push_bit 23 (drop_bit 23 b AND 0xFF) OR push_bit 13 (drop_bit 13 b AND 0x3FF) = b AND 0xFFFFE000"
    by (rule half_join)
  finally show ?thesis .
qed



end
