(* ===== verification/Socket.thy ===== *)
theory Socket
  imports Address
begin

text \<open>
  The datagram socket (\<^verbatim>\<open>socket/socket.h\<close>, \<^verbatim>\<open>socket/socket.cpp\<close>): socket addresses, creation, and single and batched
  sending and receiving on the three platforms. The operating system is an argument: what the calls that can fail return, the
  datagrams that wait in the socket's queue, and what leaves the socket for a call that succeeds.
\<close>

section \<open>Socket addresses\<close>

text \<open>The port and the address are in network byte order; flow and scope of an IPv6 address stay zero.\<close>

datatype sockaddr = Sockaddr_in (sa_port: "byte list") (sa_addr: "byte list") | Sockaddr_in6 (sa_port: "byte list") (sa_addr: "byte list")

definition htons :: "u16 \<Rightarrow> byte list" where
  "htons p = [ucast (drop_bit 8 p), ucast p]"

definition ntohs :: "byte list \<Rightarrow> u16" where
  "ntohs bs = push_bit 8 (ucast (bs ! 0)) OR ucast (bs ! 1)"

text \<open>The 16-bit groups of an IPv6 address lie in the union in the byte order of the machine.\<close>

definition ipv6_group :: "netudp_address \<Rightarrow> nat \<Rightarrow> u16" where
  "ipv6_group a i = of_le (read_at (2 * i) 2 (addr_data a))"

definition address_to_sockaddr :: "netudp_address \<Rightarrow> sockaddr" where
  "address_to_sockaddr a =
     (if addr_type a = NETUDP_ADDRESS_IPV6
      then Sockaddr_in6 (htons (addr_port a))
             (concat (map (\<lambda>i. [ucast (drop_bit 8 (ipv6_group a i)), ucast (ipv6_group a i AND 0xFF)]) [0..<8]))
      else Sockaddr_in (htons (addr_port a)) (take 4 (addr_data a)))"

definition sockaddr_to_address :: "sockaddr \<Rightarrow> netudp_address" where
  "sockaddr_to_address ss =
     (case ss of
        Sockaddr_in6 port s6 \<Rightarrow>
          address_zero\<lparr>addr_type := NETUDP_ADDRESS_IPV6, addr_port := ntohs port,
            addr_data := concat (map (\<lambda>i. le_bytes 2 (push_bit 8 (ucast (s6 ! (2 * i))) OR ucast (s6 ! (2 * i + 1)) :: u16)) [0..<8])\<rparr>
      | Sockaddr_in port s4 \<Rightarrow>
          address_zero\<lparr>addr_type := NETUDP_ADDRESS_IPV4, addr_port := ntohs port, addr_data := take 4 s4 @ replicate 12 0\<rparr>)"

section \<open>Creating and closing\<close>

record Socket =
  sk_handle :: int

definition NETUDP_INVALID_SOCKET :: int where
  "NETUDP_INVALID_SOCKET = -1"

datatype platform = Linux | Windows | Macos

datatype sock_code = SOCK_OK | SOCK_ERROR_SOCKET

datatype sock_option = SO_REUSEADDR | SO_REUSEPORT | SIO_UDP_CONNRESET | SO_SNDBUF | SO_RCVBUF | IPV6_V6ONLY

datatype sys_call = Sys_socket bool | Sys_option sock_option int | Sys_nonblocking | Sys_bind sockaddr | Sys_close int

definition kSocketFlagReusePort :: u32 where
  "kSocketFlagReusePort = 1"

text \<open>
  What the system answers when a socket is created: the handle, whether it becomes non-blocking (both \<^verbatim>\<open>fcntl\<close> calls, or
  \<^verbatim>\<open>ioctlsocket\<close>) and whether it can be bound. The results of setting options are not looked at.
\<close>

record create_answers =
  os_socket :: "bool \<Rightarrow> int"
  os_nonblocking :: "int \<Rightarrow> bool"
  os_bind :: "sockaddr \<Rightarrow> bool"

definition socket_options :: "platform \<Rightarrow> bool \<Rightarrow> int \<Rightarrow> int \<Rightarrow> u32 \<Rightarrow> sys_call list" where
  "socket_options pl v6 send_buf_size recv_buf_size flags =
     [Sys_option SO_REUSEADDR 1]
     @ (if pl = Linux \<and> flags AND kSocketFlagReusePort \<noteq> 0 then [Sys_option SO_REUSEPORT 1] else [])
     @ (if pl = Windows then [Sys_option SIO_UDP_CONNRESET 0] else [])
     @ [Sys_option SO_SNDBUF send_buf_size, Sys_option SO_RCVBUF recv_buf_size]
     @ (if v6 then [Sys_option IPV6_V6ONLY 0] else [])"

definition socket_create ::
    "platform \<Rightarrow> create_answers \<Rightarrow> netudp_address \<Rightarrow> int \<Rightarrow> int \<Rightarrow> u32 \<Rightarrow> Socket \<Rightarrow> sock_code \<times> Socket \<times> sys_call list" where
  "socket_create pl os bind_addr send_buf_size recv_buf_size flags out =
     (let v6 = addr_type bind_addr = NETUDP_ADDRESS_IPV6; sock = os_socket os v6
      in if sock = NETUDP_INVALID_SOCKET then (SOCK_ERROR_SOCKET, out, [Sys_socket v6])
         else let calls = Sys_socket v6 # socket_options pl v6 send_buf_size recv_buf_size flags
              in if \<not> os_nonblocking os sock then (SOCK_ERROR_SOCKET, out, calls @ [Sys_close sock])
                 else let ss = address_to_sockaddr bind_addr; calls1 = calls @ [Sys_nonblocking, Sys_bind ss]
                      in if \<not> os_bind os ss then (SOCK_ERROR_SOCKET, out, calls1 @ [Sys_close sock])
                         else (SOCK_OK, out\<lparr>sk_handle := sock\<rparr>, calls1))"

definition socket_destroy :: "Socket \<Rightarrow> Socket \<times> sys_call list" where
  "socket_destroy s =
     (if sk_handle s = NETUDP_INVALID_SOCKET then (s, []) else (s\<lparr>sk_handle := NETUDP_INVALID_SOCKET\<rparr>, [Sys_close (sk_handle s)]))"

section \<open>Sending\<close>

text \<open>A call gives what the C function returns, with the datagrams that leave the socket; \<^verbatim>\<open>r\<close> is the system call's result.\<close>

type_synonym datagram = "sockaddr \<times> byte list"

definition socket_send_raw :: "int \<Rightarrow> Socket \<Rightarrow> sockaddr \<Rightarrow> byte list \<Rightarrow> int \<times> datagram list" where
  "socket_send_raw r sock sa data =
     (if sk_handle sock = NETUDP_INVALID_SOCKET then (-1, []) else if r < 0 then (-1, []) else (r, [(sa, data)]))"

definition socket_send :: "int \<Rightarrow> Socket \<Rightarrow> netudp_address \<Rightarrow> byte list \<Rightarrow> int \<times> datagram list" where
  "socket_send r sock dest data =
     (if sk_handle sock = NETUDP_INVALID_SOCKET then (-1, [])
      else let ss = address_to_sockaddr dest in if r < 0 then (-1, []) else (r, [(ss, data)]))"

definition socket_connect :: "int \<Rightarrow> Socket \<Rightarrow> netudp_address \<Rightarrow> int \<times> sockaddr option" where
  "socket_connect r sock dest =
     (if sk_handle sock = NETUDP_INVALID_SOCKET then (-1, None) else if r < 0 then (-1, None) else (0, Some (address_to_sockaddr dest)))"

definition socket_send_connected :: "int \<Rightarrow> Socket \<Rightarrow> sockaddr \<Rightarrow> byte list \<Rightarrow> int \<times> datagram list" where
  "socket_send_connected r sock peer data =
     (if sk_handle sock = NETUDP_INVALID_SOCKET then (-1, []) else if r < 0 then (-1, []) else (r, [(peer, data)]))"

record SocketPacket =
  pk_addr :: netudp_address
  pk_data :: "byte list"

definition kSocketBatchMax :: nat where
  "kSocketBatchMax = 64"

definition NETUDP_MAX_PACKET_ON_WIRE :: nat where
  "NETUDP_MAX_PACKET_ON_WIRE = 1400"

text \<open>The test for segmentation offload: all packets have the size and the destination of the first, and it is not empty.\<close>

definition same_batch :: "SocketPacket list \<Rightarrow> bool" where
  "same_batch pkts \<longleftrightarrow>
     (case pkts of [] \<Rightarrow> False
      | p # ps \<Rightarrow> list_all (\<lambda>q. length (pk_data q) = length (pk_data p) \<and> address_bytes (pk_addr q) = address_bytes (pk_addr p)) ps
                  \<and> 0 < length (pk_data p))"

text \<open>What the kernel makes of a buffer sent with \<^verbatim>\<open>UDP_SEGMENT\<close>: a datagram for each segment, the last one with the rest.\<close>

function segments :: "nat \<Rightarrow> 'a list \<Rightarrow> 'a list list" where
  "segments n xs = (if n = 0 \<or> xs = [] then [] else take n xs # segments n (drop n xs))"
  by auto
termination by (relation "measure (\<lambda>(n, xs). length xs)") auto

declare segments.simps [simp del]

text \<open>
  \<^verbatim>\<open>gso\<close> says whether the kernel takes the segmented buffer, \<^verbatim>\<open>sent\<close> is the result of \<^verbatim>\<open>sendmmsg\<close>. There is no outcome
  when the packets do not fit into the buffer they are joined in.
\<close>

definition socket_send_batch_linux :: "bool \<Rightarrow> int \<Rightarrow> Socket \<Rightarrow> SocketPacket list \<Rightarrow> (int \<times> datagram list) option" where
  "socket_send_batch_linux gso sent sock pkts =
     (if sk_handle sock = NETUDP_INVALID_SOCKET \<or> pkts = [] then Some (-1, [])
      else let batch = take kSocketBatchMax pkts;
               mmsg = map (\<lambda>p. (address_to_sockaddr (pk_addr p), pk_data p)) batch;
               plain = if sent < 0 then (-1, []) else (sent, take (nat sent) mmsg)
           in if length batch > 1 \<and> same_batch batch
              then let super_buf = concat (map pk_data batch); seg_size = length (pk_data (hd batch));
                       dest_addr = address_to_sockaddr (pk_addr (hd batch))
                   in if kSocketBatchMax * NETUDP_MAX_PACKET_ON_WIRE < length super_buf then None
                      else if gso then Some (int (length batch), map (Pair dest_addr) (segments (unat (of_nat seg_size :: u16)) super_buf))
                      else Some plain
              else Some plain)"

text \<open>The loop that sends the packets one by one and stops at the first that fails; \<^verbatim>\<open>accepts\<close> is the system's answer for each.\<close>

fun send_each :: "bool list \<Rightarrow> SocketPacket list \<Rightarrow> int \<times> datagram list" where
  "send_each accepts [] = (0, [])"
| "send_each [] (p # ps) = (0, [])"
| "send_each (a # accepts) (p # ps) =
     (if \<not> a then (0, []) else let (n, ds) = send_each accepts ps in (1 + n, (address_to_sockaddr (pk_addr p), pk_data p) # ds))"

text \<open>
  On Windows the joined buffer goes out through one \<^verbatim>\<open>WSASendTo\<close>. The segment size is a socket option
  (\<^verbatim>\<open>UDP_SEND_MSG_SIZE\<close>) that no call sets: the buffer is one datagram. \<^verbatim>\<open>big\<close> says whether the system accepts it.
\<close>

definition socket_send_batch_windows :: "bool \<Rightarrow> bool list \<Rightarrow> Socket \<Rightarrow> SocketPacket list \<Rightarrow> (int \<times> datagram list) option" where
  "socket_send_batch_windows big accepts sock pkts =
     (if sk_handle sock = NETUDP_INVALID_SOCKET \<or> pkts = [] then Some (-1, [])
      else let batch = take kSocketBatchMax pkts
           in if length batch > 1 \<and> same_batch batch
              then let super_buf = concat (map pk_data batch); dest_addr = address_to_sockaddr (pk_addr (hd batch))
                   in if kSocketBatchMax * NETUDP_MAX_PACKET_ON_WIRE < length super_buf then None
                      else if big then Some (int (length batch), [(dest_addr, super_buf)])
                      else Some (send_each accepts batch)
              else Some (send_each accepts batch))"

definition socket_send_batch_macos :: "bool list \<Rightarrow> Socket \<Rightarrow> SocketPacket list \<Rightarrow> int \<times> datagram list" where
  "socket_send_batch_macos accepts sock pkts =
     (if sk_handle sock = NETUDP_INVALID_SOCKET \<or> pkts = [] then (-1, []) else send_each accepts (take kSocketBatchMax pkts))"

section \<open>Receiving\<close>

text \<open>
  The queue of a socket: datagrams and pending errors. A datagram longer than the buffer is cut, on Windows it is reported as
  an error.
\<close>

datatype pending = Datagram sockaddr "byte list" | Failure

datatype recv_result = Would_block | Recv_error | Received sockaddr "byte list"

fun os_recvfrom :: "platform \<Rightarrow> nat \<Rightarrow> pending list \<Rightarrow> recv_result \<times> pending list" where
  "os_recvfrom pl buf_len [] = (Would_block, [])"
| "os_recvfrom pl buf_len (Failure # q) = (Recv_error, q)"
| "os_recvfrom pl buf_len (Datagram sa d # q) = (if pl = Windows \<and> buf_len < length d then Recv_error else Received sa (take buf_len d), q)"

definition socket_recv :: "platform \<Rightarrow> Socket \<Rightarrow> nat \<Rightarrow> pending list \<Rightarrow> int \<times> SocketPacket option \<times> pending list" where
  "socket_recv pl sock buf_len q =
     (if sk_handle sock = NETUDP_INVALID_SOCKET then (-1, None, q)
      else case os_recvfrom pl buf_len q of
             (Would_block, q1) \<Rightarrow> (0, None, q1)
           | (Recv_error, q1) \<Rightarrow> (-1, None, q1)
           | (Received sa d, q1) \<Rightarrow> (int (length d), Some \<lparr>pk_addr = sockaddr_to_address sa, pk_data = d\<rparr>, q1))"

text \<open>\<^verbatim>\<open>recvmmsg\<close> takes what is there up to the first error; an error before any datagram is its result.\<close>

fun os_recvmmsg :: "nat \<Rightarrow> nat \<Rightarrow> pending list \<Rightarrow> (sockaddr \<times> byte list) list \<times> pending list" where
  "os_recvmmsg buf_len (Suc n) (Datagram sa d # q) = (let (ds, q1) = os_recvmmsg buf_len n q in ((sa, take buf_len d) # ds, q1))"
| "os_recvmmsg buf_len n q = ([], q)"

definition socket_recv_batch_linux :: "Socket \<Rightarrow> nat \<Rightarrow> nat \<Rightarrow> pending list \<Rightarrow> int \<times> SocketPacket list \<times> pending list" where
  "socket_recv_batch_linux sock max_pkts buf_len q =
     (if sk_handle sock = NETUDP_INVALID_SOCKET \<or> max_pkts = 0 then (-1, [], q)
      else let count = if max_pkts > kSocketBatchMax then kSocketBatchMax else max_pkts; (mmsg, q1) = os_recvmmsg buf_len count q
           in if mmsg = [] then (case q of Failure # q2 \<Rightarrow> (-1, [], q2) | _ \<Rightarrow> (0, [], q))
              else (int (length mmsg), map (\<lambda>(sa, d). \<lparr>pk_addr = sockaddr_to_address sa, pk_data = d\<rparr>) mmsg, q1))"

fun recv_each_macos :: "Socket \<Rightarrow> nat \<Rightarrow> nat \<Rightarrow> pending list \<Rightarrow> SocketPacket list \<times> pending list" where
  "recv_each_macos sock buf_len 0 q = ([], q)"
| "recv_each_macos sock buf_len (Suc n) q =
     (case socket_recv Macos sock buf_len q of
        (r, Some p, q1) \<Rightarrow> if r \<le> 0 then ([], q1) else (let (ps, q2) = recv_each_macos sock buf_len n q1 in (p # ps, q2))
      | (r, None, q1) \<Rightarrow> ([], q1))"

definition socket_recv_batch_macos :: "Socket \<Rightarrow> nat \<Rightarrow> nat \<Rightarrow> pending list \<Rightarrow> int \<times> SocketPacket list \<times> pending list" where
  "socket_recv_batch_macos sock max_pkts buf_len q =
     (if sk_handle sock = NETUDP_INVALID_SOCKET \<or> max_pkts = 0 then (-1, [], q)
      else let (ps, q1) = recv_each_macos sock buf_len (if max_pkts > kSocketBatchMax then kSocketBatchMax else max_pkts) q
           in (int (length ps), ps, q1))"

text \<open>The flag says that an error ended the loop.\<close>

fun recv_each_windows :: "nat \<Rightarrow> nat \<Rightarrow> pending list \<Rightarrow> bool \<times> SocketPacket list \<times> pending list" where
  "recv_each_windows buf_len 0 q = (False, [], q)"
| "recv_each_windows buf_len (Suc n) q =
     (case os_recvfrom Windows buf_len q of
        (Would_block, q1) \<Rightarrow> (False, [], q1)
      | (Recv_error, q1) \<Rightarrow> (True, [], q1)
      | (Received sa d, q1) \<Rightarrow>
          if length d = 0 then (False, [], q1)
          else let (e, ps, q2) = recv_each_windows buf_len n q1 in (e, \<lparr>pk_addr = sockaddr_to_address sa, pk_data = d\<rparr> # ps, q2))"

definition socket_recv_batch_windows :: "Socket \<Rightarrow> nat \<Rightarrow> nat \<Rightarrow> pending list \<Rightarrow> int \<times> SocketPacket list \<times> pending list" where
  "socket_recv_batch_windows sock max_pkts buf_len q =
     (if sk_handle sock = NETUDP_INVALID_SOCKET \<or> max_pkts = 0 then (-1, [], q)
      else let (e, ps, q1) = recv_each_windows buf_len (if max_pkts > kSocketBatchMax then kSocketBatchMax else max_pkts) q
           in (if e \<and> ps = [] then -1 else int (length ps), ps, q1))"

definition socket_recv_batch :: "platform \<Rightarrow> Socket \<Rightarrow> nat \<Rightarrow> nat \<Rightarrow> pending list \<Rightarrow> int \<times> SocketPacket list \<times> pending list" where
  "socket_recv_batch pl =
     (case pl of Linux \<Rightarrow> socket_recv_batch_linux | Windows \<Rightarrow> socket_recv_batch_windows | Macos \<Rightarrow> socket_recv_batch_macos)"

section \<open>Addresses survive the conversion\<close>

definition plain_address :: "netudp_address \<Rightarrow> bool" where
  "plain_address a \<longleftrightarrow> addr_pad a = 0 \<and> length (addr_data a) = 16
     \<and> (addr_type a = NETUDP_ADDRESS_IPV6 \<or> addr_type a = NETUDP_ADDRESS_IPV4 \<and> drop 4 (addr_data a) = replicate 12 0)"

lemma ntohs_htons [simp]: "ntohs (htons p) = p"
  by (rule bit_word_eqI) (auto simp: ntohs_def htons_def bit_simps)

lemma sixteen_bytes:
  assumes "length xs = 16"
  obtains b0 b1 b2 b3 b4 b5 b6 b7 b8 b9 b10 b11 b12 b13 b14 b15
    where "xs = [b0, b1, b2, b3, b4, b5, b6, b7, b8, b9, b10, b11, b12, b13, b14, b15]"
  using assms by (auto simp: length_Suc_conv eval_nat_numeral)

lemma swap_group:
  fixes lo hi :: byte
  defines "g \<equiv> of_le [lo, hi] :: u16"
  shows "ucast (drop_bit 8 g) = hi" "ucast (g AND 0xFF) = lo"
    and "le_bytes 2 (push_bit 8 (ucast hi) OR ucast lo :: u16) = [lo, hi]"
proof -
  show "ucast (drop_bit 8 g) = hi" by (rule bit_word_eqI) (auto simp: g_def bit_simps dest: bit_imp_le_length)
  have "g AND 0xFF = take_bit 8 g" by (simp add: take_bit_eq_mask mask_eq_exp_minus_1)
  then show "ucast (g AND 0xFF) = lo" by (intro bit_word_eqI) (auto simp: g_def bit_simps)
  have "push_bit 8 (ucast hi) OR ucast lo = (of_le [lo, hi] :: u16)" by (rule bit_word_eqI) (auto simp: bit_simps)
  then show "le_bytes 2 (push_bit 8 (ucast hi) OR ucast lo :: u16) = [lo, hi]" by (simp del: of_le.simps)
qed

text \<open>
  C. The address of a peer survives the conversion to a socket address and back, for both families: what is received from an
  address compares equal to the address that was sent to.
\<close>

theorem sockaddr_round_trip:
  assumes "plain_address a"
  shows "sockaddr_to_address (address_to_sockaddr a) = a"
proof (cases "addr_type a = NETUDP_ADDRESS_IPV6")
  case True
  obtain b0 b1 b2 b3 b4 b5 b6 b7 b8 b9 b10 b11 b12 b13 b14 b15
    where d: "addr_data a = [b0, b1, b2, b3, b4, b5, b6, b7, b8, b9, b10, b11, b12, b13, b14, b15]"
  proof (rule sixteen_bytes)
    show "length (addr_data a) = 16" using assms by (simp add: plain_address_def)
  qed
  have "[0..<8] = [0, 1, 2, 3, 4, 5, 6, 7 :: nat]" by (simp add: upt_rec)
  then show ?thesis
    using True assms by (simp add: address_to_sockaddr_def sockaddr_to_address_def ipv6_group_def read_at_def d swap_group plain_address_def address_zero_def del: of_le.simps)
next
  case False
  then have "take 4 (addr_data a) @ replicate 12 0 = addr_data a" using assms by (metis append_take_drop_id plain_address_def)
  then show ?thesis using False assms by (simp add: address_to_sockaddr_def sockaddr_to_address_def plain_address_def address_zero_def)
qed

theorem sockaddr_round_trip_witness:
  "let a = \<lparr>addr_data = [10, 0, 0, 7] @ replicate 12 0, addr_port = 7777, addr_type = NETUDP_ADDRESS_IPV4, addr_pad = 0\<rparr>
   in sockaddr_to_address (address_to_sockaddr a) = a"
  using sockaddr_round_trip [of "\<lparr>addr_data = [10, 0, 0, 7] @ replicate 12 0, addr_port = 7777, addr_type = NETUDP_ADDRESS_IPV4, addr_pad = 0\<rparr>"]
  by (simp add: plain_address_def Let_def)

section \<open>Batches\<close>

lemma segments_concat:
  assumes "0 < n" and "\<forall>x \<in> set xss. length x = n"
  shows "segments n (concat xss) = xss"
  using assms(2)
proof (induction xss)
  case (Cons x xss)
  then have "length x = n" "concat (x # xss) \<noteq> []" using assms(1) by auto
  then show ?case using Cons assms(1) by (subst segments.simps) auto
qed (simp add: segments.simps)

lemma address_bytes_inject:
  assumes "address_bytes a = address_bytes b" and "length (addr_data a) = length (addr_data b)"
  shows "a = b"
  using assms by (auto simp: address_bytes_def le_bytes_inject intro!: netudp_address.equality)

lemma send_each_prefix: "send_each accepts ps = (n, ds) \<Longrightarrow>
   0 \<le> n \<and> nat n \<le> length ps \<and> ds = map (\<lambda>p. (address_to_sockaddr (pk_addr p), pk_data p)) (take (nat n) ps)"
  by (induction accepts ps arbitrary: n ds rule: send_each.induct)
    (auto simp: Let_def nat_add_distrib split: if_splits prod.splits)

lemma same_batch_all:
  assumes "same_batch ps" and "\<forall>p \<in> set ps. length (addr_data (pk_addr p)) = 16"
  shows "\<forall>p \<in> set ps. length (pk_data p) = length (pk_data (hd ps)) \<and> pk_addr p = pk_addr (hd ps)" "0 < length (pk_data (hd ps))"
  using assms by (auto simp: same_batch_def list_all_iff intro: address_bytes_inject split: list.splits)

text \<open>
  C. A batch sent on Linux leaves as it would one packet at a time, whether the kernel segments it, refuses to, or takes only
  some of the packets: what leaves the socket is exactly one datagram for each of the packets counted by the result, the first ones of the batch, with their
  own data and destination.
\<close>

theorem linux_batch_datagrams:
  assumes "socket_send_batch_linux gso sent sock pkts = Some (r, ds)" and "0 \<le> r" and "sent \<le> int (min (length pkts) kSocketBatchMax)"
    and "\<forall>p \<in> set pkts. length (addr_data (pk_addr p)) = 16 \<and> length (pk_data p) \<le> NETUDP_MAX_PACKET_ON_WIRE"
  shows "nat r \<le> min (length pkts) kSocketBatchMax \<and> ds = map (\<lambda>p. (address_to_sockaddr (pk_addr p), pk_data p)) (take (nat r) pkts)"
proof -
  let ?batch = "take kSocketBatchMax pkts"
  have take: "take (nat k) ?batch = take (nat k) pkts" if "k \<le> int (min (length pkts) kSocketBatchMax)" for k
    using that by (simp add: min_def le_nat_iff nat_le_iff split: if_splits)
  consider (plain) "r = sent" "ds = take (nat sent) (map (\<lambda>p. (address_to_sockaddr (pk_addr p), pk_data p)) ?batch)"
    | (gso) "same_batch ?batch" "r = int (length ?batch)"
      "ds = map (Pair (address_to_sockaddr (pk_addr (hd ?batch)))) (segments (unat (of_nat (length (pk_data (hd ?batch))) :: u16)) (concat (map pk_data ?batch)))"
    using assms(1,2) by (auto simp: socket_send_batch_linux_def Let_def split: if_splits)
  then show ?thesis
  proof cases
    case plain
    have "nat r \<le> min (length pkts) kSocketBatchMax" using plain(1) assms(2,3) by linarith
    moreover have "ds = map (\<lambda>p. (address_to_sockaddr (pk_addr p), pk_data p)) (take (nat r) pkts)"
      unfolding plain take_map take [OF assms(3)] ..
    ultimately show ?thesis ..
  next
    case gso
    let ?n = "length (pk_data (hd ?batch))"
    have "\<forall>p \<in> set ?batch. length (addr_data (pk_addr p)) = 16" using assms(4) by (auto dest: in_set_takeD)
    note all = same_batch_all [OF gso(1) this]
    have "?batch \<noteq> []" using gso(1) by (cases ?batch) (simp_all add: same_batch_def)
    then have "hd ?batch \<in> set pkts" by (meson hd_in_set in_set_takeD)
    then have "?n \<le> 1400" using assms(4) by (simp add: NETUDP_MAX_PACKET_ON_WIRE_def)
    then have n: "unat (of_nat ?n :: u16) = ?n" by (simp add: unsigned_of_nat take_bit_nat_eq_self)
    have "\<forall>x \<in> set (map pk_data ?batch). length x = ?n" using all(1) by (simp only: set_map ball_simps) blast
    then have "ds = map (Pair (address_to_sockaddr (pk_addr (hd ?batch)))) (map pk_data ?batch)"
      unfolding gso(3) n by (simp only: segments_concat [OF all(2)])
    also have "\<dots> = map (\<lambda>p. (address_to_sockaddr (pk_addr p), pk_data p)) ?batch"
      unfolding map_map by (rule map_cong [OF refl]) (use all(1) in \<open>metis comp_apply\<close>)
    finally show ?thesis using gso(2) by (simp add: min_def)
  qed
qed

theorem linux_batch_datagrams_witness:
  "let a = \<lparr>addr_data = [10, 0, 0, 7] @ replicate 12 0, addr_port = 7777, addr_type = NETUDP_ADDRESS_IPV4, addr_pad = 0\<rparr>;
       pkts = [\<lparr>pk_addr = a, pk_data = [1, 2]\<rparr>, \<lparr>pk_addr = a, pk_data = [3, 4]\<rparr>]
   in map_option snd (socket_send_batch_linux True 0 \<lparr>sk_handle = 3\<rparr> pkts) = Some [(address_to_sockaddr a, [1, 2]), (address_to_sockaddr a, [3, 4])]"
proof -
  define a where "a = \<lparr>addr_data = [10, 0, 0, 7] @ replicate 12 0, addr_port = 7777, addr_type = NETUDP_ADDRESS_IPV4, addr_pad = 0\<rparr>"
  define pkts where "pkts = [\<lparr>pk_addr = a, pk_data = [1, 2]\<rparr>, \<lparr>pk_addr = a, pk_data = [3, 4 :: byte]\<rparr>]"
  obtain ds where b: "socket_send_batch_linux True 0 \<lparr>sk_handle = 3\<rparr> pkts = Some (2, ds)"
    by (simp add: socket_send_batch_linux_def pkts_def same_batch_def NETUDP_INVALID_SOCKET_def kSocketBatchMax_def NETUDP_MAX_PACKET_ON_WIRE_def Let_def)
  have "ds = map (\<lambda>p. (address_to_sockaddr (pk_addr p), pk_data p)) (take 2 pkts)"
    using linux_batch_datagrams [OF b] by (simp add: pkts_def a_def kSocketBatchMax_def NETUDP_MAX_PACKET_ON_WIRE_def)
  then show ?thesis using b by (simp add: pkts_def a_def Let_def)
qed

text \<open>
  C. On Windows, two or more packets of the same size for one destination leave as a single datagram with all their data,
  and the result counts them as sent: no call has told the system where to cut the buffer.
\<close>

theorem windows_batch_merges:
  assumes "sk_handle sock \<noteq> NETUDP_INVALID_SOCKET" and "2 \<le> length pkts" and "length pkts \<le> kSocketBatchMax"
    and "\<forall>p \<in> set pkts. pk_addr p = dest \<and> length (pk_data p) = n" and "0 < n" and "n \<le> NETUDP_MAX_PACKET_ON_WIRE"
  shows "socket_send_batch_windows True accepts sock pkts = Some (int (length pkts), [(address_to_sockaddr dest, concat (map pk_data pkts))])"
proof -
  have ne: "pkts \<noteq> []" using assms(2) by auto
  have "length (concat (map pk_data pkts)) = length pkts * n"
    using assms(4) by (induction pkts) auto
  then have "length (concat (map pk_data pkts)) \<le> kSocketBatchMax * NETUDP_MAX_PACKET_ON_WIRE"
    using mult_le_mono [OF assms(3,6)] by simp
  moreover have "same_batch pkts" using assms(4,5) ne by (cases pkts) (auto simp: same_batch_def list_all_iff)
  moreover have "pk_addr (hd pkts) = dest" using assms(4) ne by simp
  ultimately show ?thesis using assms(1,2,3) ne by (simp add: socket_send_batch_windows_def Let_def)
qed

theorem windows_batch_merges_witness:
  "let a = \<lparr>addr_data = [10, 0, 0, 7] @ replicate 12 0, addr_port = 7777, addr_type = NETUDP_ADDRESS_IPV4, addr_pad = 0\<rparr>;
       pkts = [\<lparr>pk_addr = a, pk_data = [1, 2]\<rparr>, \<lparr>pk_addr = a, pk_data = [3, 4]\<rparr>]
   in socket_send_batch_windows True [] \<lparr>sk_handle = 3\<rparr> pkts = Some (2, [(address_to_sockaddr a, [1, 2, 3, 4])])"
proof -
  define a where "a = \<lparr>addr_data = [10, 0, 0, 7] @ replicate 12 0, addr_port = 7777, addr_type = NETUDP_ADDRESS_IPV4, addr_pad = 0\<rparr>"
  have "socket_send_batch_windows True [] \<lparr>sk_handle = 3\<rparr> [\<lparr>pk_addr = a, pk_data = [1, 2]\<rparr>, \<lparr>pk_addr = a, pk_data = [3, 4]\<rparr>]
    = Some (2, [(address_to_sockaddr a, [1, 2, 3, 4])])"
    using windows_batch_merges [of "\<lparr>sk_handle = 3\<rparr>" "[\<lparr>pk_addr = a, pk_data = [1, 2]\<rparr>, \<lparr>pk_addr = a, pk_data = [3, 4]\<rparr>]" a 2 "[]"]
    by (simp add: NETUDP_INVALID_SOCKET_def kSocketBatchMax_def NETUDP_MAX_PACKET_ON_WIRE_def)
  then show ?thesis by (simp add: a_def Let_def)
qed

text \<open>
  On the other platforms, and on Windows when the packets differ, a batch leaves packet by packet up to the first that is refused.
\<close>

lemma macos_batch_datagrams:
  assumes "socket_send_batch_macos accepts sock pkts = (r, ds)" and "0 \<le> r"
  shows "nat r \<le> min (length pkts) kSocketBatchMax \<and> ds = map (\<lambda>p. (address_to_sockaddr (pk_addr p), pk_data p)) (take (nat r) pkts)"
  using assms send_each_prefix [of accepts "take kSocketBatchMax pkts" r ds]
  by (auto simp: socket_send_batch_macos_def min_def split: if_splits)

text \<open>The datagrams that any platform can hand over: not empty and not longer than the buffer.\<close>

definition fits_buffer :: "nat \<Rightarrow> pending \<Rightarrow> bool" where
  "fits_buffer buf_len d \<longleftrightarrow> (case d of Datagram sa b \<Rightarrow> 0 < length b \<and> length b \<le> buf_len | Failure \<Rightarrow> False)"

fun packet_of :: "pending \<Rightarrow> SocketPacket list" where
  "packet_of (Datagram sa b) = [\<lparr>pk_addr = sockaddr_to_address sa, pk_data = b\<rparr>]"
| "packet_of Failure = []"

lemma recv_each_windows_take:
  "\<forall>d \<in> set q. fits_buffer buf_len d \<Longrightarrow> recv_each_windows buf_len n q = (False, concat (map packet_of (take n q)), drop n q)"
proof (induction n arbitrary: q)
  case (Suc n)
  then show ?case by (cases q) (auto simp: fits_buffer_def split: pending.splits)
qed simp

lemma recv_each_macos_take:
  assumes "sk_handle sock \<noteq> NETUDP_INVALID_SOCKET"
  shows "\<forall>d \<in> set q. fits_buffer buf_len d \<Longrightarrow> recv_each_macos sock buf_len n q = (concat (map packet_of (take n q)), drop n q)"
proof (induction n arbitrary: q)
  case (Suc n)
  then show ?case using assms by (cases q) (auto simp: fits_buffer_def socket_recv_def split: pending.splits)
qed simp

lemma os_recvmmsg_take:
  "\<forall>d \<in> set q. fits_buffer buf_len d \<Longrightarrow> os_recvmmsg buf_len n q = (mmsg, q1) \<Longrightarrow>
    map (\<lambda>(sa, d). \<lparr>pk_addr = sockaddr_to_address sa, pk_data = d\<rparr>) mmsg = concat (map packet_of (take n q)) \<and> q1 = drop n q \<and> length mmsg = min n (length q)"
proof (induction buf_len n q arbitrary: mmsg q1 rule: os_recvmmsg.induct)
  case (1 buf_len n sa d q)
  then show ?case by (auto simp: fits_buffer_def split: prod.splits)
qed (auto simp: fits_buffer_def)

lemma length_packets: "\<forall>d \<in> set q. fits_buffer buf_len d \<Longrightarrow> length (concat (map packet_of q)) = length q"
  by (induction q) (auto simp: fits_buffer_def split: pending.splits)

text \<open>
  C. Receiving a batch gives the same on every platform: of datagrams that are not empty and fit the buffer, the first ones up to the limit
  come out in order with their addresses, and the rest stays in the socket's queue.
\<close>

theorem recv_batch_platforms:
  assumes "sk_handle sock \<noteq> NETUDP_INVALID_SOCKET" and "0 < max_pkts" and "\<forall>d \<in> set q. fits_buffer buf_len d"
  defines "n \<equiv> min max_pkts kSocketBatchMax"
  shows "socket_recv_batch pl sock max_pkts buf_len q = (int (min n (length q)), concat (map packet_of (take n q)), drop n q)"
proof -
  have limit: "(if max_pkts > kSocketBatchMax then kSocketBatchMax else max_pkts) = n" by (simp add: n_def min_def)
  have n: "0 < n" using assms(2) by (simp add: n_def kSocketBatchMax_def)
  have len: "length (concat (map packet_of (take n q))) = min n (length q)"
    using length_packets [of "take n q" buf_len] assms(3) by (auto simp: min.commute dest: in_set_takeD)
  show ?thesis
  proof (cases pl)
    case Linux
    obtain mmsg q1 where m: "os_recvmmsg buf_len n q = (mmsg, q1)" by (cases "os_recvmmsg buf_len n q")
    have f: "\<not> (q = Failure # q2)" for q2 using assms(3) by (auto simp: fits_buffer_def)
    show ?thesis
    proof (cases q)
      case Nil
      then show ?thesis using Linux assms(1,2) m by (simp add: socket_recv_batch_def socket_recv_batch_linux_def limit Let_def)
    next
      case (Cons d ds)
      then show ?thesis
        using Linux assms os_recvmmsg_take [OF assms(3) m] m n f by (auto simp: socket_recv_batch_def socket_recv_batch_linux_def limit Let_def)
    qed
  next
    case Windows
    then show ?thesis
      using assms(1,2) recv_each_windows_take [OF assms(3), of n] len by (simp add: socket_recv_batch_def socket_recv_batch_windows_def limit Let_def)
  next
    case Macos
    then show ?thesis
      using assms(1,2) recv_each_macos_take [OF assms(1,3), of n] len by (simp add: socket_recv_batch_def socket_recv_batch_macos_def limit Let_def)
  qed
qed

theorem recv_batch_platforms_witness:
  "let q = [Datagram (Sockaddr_in [30, 97] [10, 0, 0, 7]) [1, 2], Datagram (Sockaddr_in [30, 97] [10, 0, 0, 8]) [3]]
   in socket_recv_batch Windows \<lparr>sk_handle = 3\<rparr> 1 1400 q = (1, packet_of (q ! 0), [q ! 1])"
  using recv_batch_platforms [of "\<lparr>sk_handle = 3\<rparr>" 1 "[Datagram (Sockaddr_in [30, 97] [10, 0, 0, 7]) [1, 2], Datagram (Sockaddr_in [30, 97] [10, 0, 0, 8]) [3]]" 1400 Windows]
  by (simp add: NETUDP_INVALID_SOCKET_def fits_buffer_def kSocketBatchMax_def Let_def)

text \<open>An empty datagram ends a batch on Windows and macOS, although more may wait behind it; Linux hands it over.\<close>

lemma empty_datagram_ends_batch:
  assumes "sk_handle sock \<noteq> NETUDP_INVALID_SOCKET" and "0 < max_pkts"
  shows "socket_recv_batch Windows sock max_pkts buf_len (Datagram sa [] # q) = (0, [], q)"
    and "socket_recv_batch Macos sock max_pkts buf_len (Datagram sa [] # q) = (0, [], q)"
    and "fst (socket_recv_batch Linux sock max_pkts buf_len (Datagram sa [] # q)) > 0"
proof -
  obtain m where m: "(if max_pkts > kSocketBatchMax then kSocketBatchMax else max_pkts) = Suc m"
    using assms(2) by (cases "if max_pkts > kSocketBatchMax then kSocketBatchMax else max_pkts") (auto simp: kSocketBatchMax_def split: if_splits)
  show "socket_recv_batch Windows sock max_pkts buf_len (Datagram sa [] # q) = (0, [], q)"
    "socket_recv_batch Macos sock max_pkts buf_len (Datagram sa [] # q) = (0, [], q)"
    "fst (socket_recv_batch Linux sock max_pkts buf_len (Datagram sa [] # q)) > 0"
    using assms by (simp_all add: socket_recv_batch_def socket_recv_batch_windows_def socket_recv_batch_macos_def socket_recv_batch_linux_def
        m socket_recv_def Let_def split_beta)
qed

text \<open>A socket whose creation fails is closed again, and one that is handed out is bound and non-blocking.\<close>

lemma socket_create_closes:
  assumes "socket_create pl os a snd_buf rcv_buf flags out = (code, out', calls)"
  shows "if code = SOCK_OK then sk_handle out' \<noteq> NETUDP_INVALID_SOCKET \<and> Sys_nonblocking \<in> set calls \<and> Sys_bind (address_to_sockaddr a) \<in> set calls
             \<and> (\<forall>h. Sys_close h \<notin> set calls)
         else out' = out \<and> (let h = os_socket os (addr_type a = NETUDP_ADDRESS_IPV6) in h \<noteq> NETUDP_INVALID_SOCKET \<longrightarrow> last calls = Sys_close h)"
  using assms by (auto simp: socket_create_def socket_options_def Let_def split: if_splits)

end
