(* ===== verification/Server.thy ===== *)
theory Server
  imports Message_Path Hash_Map Rate_Limiter Group Pipeline_Queue Network_Sim Replication Socket
begin

text \<open>
  The server (\<^verbatim>\<open>server.cpp\<close>): its slots, connection requests, dispatch of received packets, the update
  tick, and starting and stopping it. The packets the sockets hold, the ciphers and the outcomes of allocations are
  arguments; what the server does to its surroundings is a list of events. An access the code does not check
  and that falls outside its array or buffer, a null pointer that is followed, and a loop that does not end have no
  result (\<^const>\<open>None\<close>). Callbacks are events; a callback that calls the server again is not modelled.
\<close>

section \<open>State\<close>

record server_config =
  cfg_protocol_id :: u64
  cfg_private_key :: "byte list"
  cfg_on_connect :: bool
  cfg_on_disconnect :: bool
  cfg_channels :: "channel_config list"
  cfg_num_channels :: nat
  cfg_sim :: "NetSimConfig option"
  cfg_heartbeat_interval_ms :: int
  cfg_integrity_interval_ms :: int
  cfg_integrity_timeout_ms :: int
  cfg_max_groups :: int
  cfg_pacing_slices :: int
  cfg_num_io_threads :: int

record FingerprintValue =
  fv_address :: netudp_address
  fv_expire_time :: u64

record netudp_server =
  sv_running :: bool
  sv_max_clients :: nat
  sv_config :: server_config
  sv_protocol_id :: u64
  sv_rate_limiter :: RateLimiter
  sv_ddos :: DDoSMonitor
  sv_connections :: "Connection list"
  sv_fingerprints :: "FingerprintValue FixedHashMap"
  sv_current_time :: real
  sv_last_cleanup_time :: real
  sv_sim :: NetworkSimulator
  sv_sim_enabled :: bool
  sv_handlers :: "bool list"
  sv_num_io_threads :: nat
  sv_bind_address :: netudp_address
  sv_address_to_slot :: "nat FixedHashMap"
  sv_pipeline_mode :: bool
  sv_recv_queue :: "(netudp_address \<times> byte list) PipelineQueue option"
  sv_send_queue :: "(netudp_address \<times> byte list) PipelineQueue option"
  sv_active_slots :: "nat list"
  sv_slot_to_active :: "int list"
  sv_free_slots :: "nat list"
  sv_groups :: "Group list"
  sv_group_free :: "nat list"
  sv_heartbeat_interval :: real
  sv_integrity_interval :: real
  sv_integrity_timeout :: real
  sv_last_heartbeat_tick :: real
  sv_last_integrity_tick :: real
  sv_pacing_slices :: int
  sv_pacing_current_slice :: int
  sv_schemas :: "Schema list"
  sv_schema_count :: nat
  sv_entities :: "Entity list"
  sv_next_entity_id :: u16
  sv_num_workers :: nat

text \<open>
  What the server calls: the packet cipher with the derivation of the next key, the cipher of connect tokens, the
  keyed hash, whether the allocation of a connection's buffers succeeds, and bytes of uninitialised memory.
\<close>

record server_env =
  se_enc :: aead_fn
  se_dec :: aead_fn
  se_kdf :: kdf_fn
  se_token_dec :: aead_fn
  se_hash :: "byte list \<Rightarrow> byte list \<Rightarrow> byte list"
  se_alloc :: "Connection \<Rightarrow> bool"
  se_fill :: byte

datatype srv_event =
    Sent netudp_address "byte list"
  | On_connect nat u64 "byte list"
  | On_disconnect nat int
  | On_packet nat "byte list" nat

type_synonym srv_result = "(srv_event list \<times> netudp_server) option"

definition upd_conn :: "nat \<Rightarrow> (Connection \<Rightarrow> Connection) \<Rightarrow> netudp_server \<Rightarrow> netudp_server" where
  "upd_conn i f s = s\<lparr>sv_connections := (sv_connections s)[i := f (sv_connections s ! i)]\<rparr>"

abbreviation conn :: "netudp_server \<Rightarrow> nat \<Rightarrow> Connection" where
  "conn s i \<equiv> sv_connections s ! i"

definition server_bad_packet :: "netudp_server \<Rightarrow> netudp_server" where
  "server_bad_packet s = s\<lparr>sv_ddos := on_bad_packet (sv_ddos s)\<rparr>"

text \<open>In pipeline mode a packet goes to the send thread's queue and is dropped when that is full.\<close>

definition server_send_packet :: "netudp_address \<Rightarrow> byte list \<Rightarrow> netudp_server \<Rightarrow> srv_event list \<times> netudp_server" where
  "server_send_packet dest data s =
     (case sv_send_queue s of
        Some q \<Rightarrow> if sv_pipeline_mode s then ([], s\<lparr>sv_send_queue := Some (snd (pq_push (dest, data) q))\<rparr>) else ([Sent dest data], s)
      | None \<Rightarrow> ([Sent dest data], s))"

fun server_send_packets :: "netudp_address \<Rightarrow> byte list list \<Rightarrow> netudp_server \<Rightarrow> srv_event list \<times> netudp_server" where
  "server_send_packets dest [] s = ([], s)"
| "server_send_packets dest (p # ps) s =
     (let (ev1, s1) = server_send_packet dest p s; (ev2, s2) = server_send_packets dest ps s1 in (ev1 @ ev2, s2))"

section \<open>Pipeline threads\<close>

text \<open>
  One round of the receive thread: a batch of what the socket holds goes into the queue, as far as it has room. The
  threads run when both queues could be allocated. Packets on the additional sockets are not read in this mode.
\<close>

definition pipeline_running :: "netudp_server \<Rightarrow> bool" where
  "pipeline_running s \<longleftrightarrow> sv_pipeline_mode s \<and> sv_recv_queue s \<noteq> None \<and> sv_send_queue s \<noteq> None"

definition pipeline_recv_thread :: "(netudp_address \<times> byte list) list \<Rightarrow> netudp_server \<Rightarrow> netudp_server" where
  "pipeline_recv_thread packets s =
     (if pipeline_running s
      then s\<lparr>sv_recv_queue := map_option (fold (\<lambda>p q. snd (pq_push p q)) (take kSocketBatchMax packets)) (sv_recv_queue s)\<rparr>
      else s)"

text \<open>One round of the send thread.\<close>

fun drain_batch :: "nat \<Rightarrow> 'a PipelineQueue \<Rightarrow> 'a list \<times> 'a PipelineQueue" where
  "drain_batch 0 q = ([], q)"
| "drain_batch (Suc n) q =
     (case pq_pop q of (None, q1) \<Rightarrow> ([], q1) | (Some p, q1) \<Rightarrow> (let (ps, q2) = drain_batch n q1 in (p # ps, q2)))"

definition pipeline_send_thread :: "netudp_server \<Rightarrow> srv_event list \<times> netudp_server" where
  "pipeline_send_thread s =
     (case sv_send_queue s of
        Some q \<Rightarrow> if pipeline_running s
                  then let (ps, q1) = drain_batch kSocketBatchMax q in (map (\<lambda>(dest, data). Sent dest data) ps, s\<lparr>sv_send_queue := Some q1\<rparr>)
                  else ([], s)
      | None \<Rightarrow> ([], s))"

section \<open>Slots\<close>

definition remove_from_groups :: "nat \<Rightarrow> Group list \<Rightarrow> Group list option" where
  "remove_from_groups slot gs = those (map (\<lambda>g. if gr_active g then map_option snd (group_remove (int slot) g) else Some g) gs)"

definition server_deactivate_slot :: "nat \<Rightarrow> netudp_server \<Rightarrow> netudp_server option" where
  "server_deactivate_slot slot s =
     (if slot \<ge> length (sv_slot_to_active s) then None
      else if sv_slot_to_active s ! slot < 0 then Some s
      else let (act, idx) = index_remove slot (sv_active_slots s, sv_slot_to_active s)
           in map_option
                (\<lambda>gs. s\<lparr>sv_active_slots := act, sv_slot_to_active := idx, sv_free_slots := sv_free_slots s @ [slot], sv_groups := gs\<rparr>)
                (remove_from_groups slot (sv_groups s)))"

text \<open>The steps that a timeout and a disconnect frame have in common.\<close>

definition drop_client :: "nat \<Rightarrow> int \<Rightarrow> netudp_server \<Rightarrow> srv_result" where
  "drop_client slot reason s =
     (let ev = (if cfg_on_disconnect (sv_config s) then [On_disconnect slot reason] else []);
          s1 = s\<lparr>sv_address_to_slot := snd (hm_remove (address_bytes (cn_address (conn s slot))) (sv_address_to_slot s))\<rparr>
      in map_option (\<lambda>s2. (ev, upd_conn slot connection_reset s2)) (server_deactivate_slot slot s1))"

section \<open>Connection requests\<close>

definition PACKET_SIZE_REQUEST :: nat where
  "PACKET_SIZE_REQUEST = 1078"

text \<open>The checks of a request that do not depend on the slots: the private part of the token it carries.\<close>

definition open_request :: "server_env \<Rightarrow> byte list \<Rightarrow> netudp_server \<Rightarrow> PrivateConnectToken option" where
  "open_request env packet s =
     (if length packet \<noteq> PACKET_SIZE_REQUEST then None
      else if read_at 1 13 packet \<noteq> NETUDP_VERSION_INFO then None
      else if of_le (read_at 14 8 packet) \<noteq> sv_protocol_id s then None
      else if (of_nat (nat \<lfloor>sv_current_time s\<rfloor>) :: u64) \<ge> of_le (read_at 22 8 packet) then None
      else case se_token_dec env (cfg_private_key (sv_config s)) (read_at 30 24 packet)
                  (read_at 1 13 packet @ read_at 14 8 packet @ read_at 22 8 packet) (read_at 54 TOKEN_PRIVATE_ENCRYPTED_SIZE packet) of
             None \<Rightarrow> None
           | Some decrypted \<Rightarrow> deserialize_private_token decrypted)"

text \<open>The connection of a newly accepted client, before its subsystems are initialised.\<close>

definition accept_connection :: "nat \<Rightarrow> netudp_address \<Rightarrow> PrivateConnectToken \<Rightarrow> Connection \<Rightarrow> Connection" where
  "accept_connection slot src priv c =
     c\<lparr>cn_active := True, cn_address := src, cn_slot_id := of_nat slot, cn_client_id := tok_client_id priv,
       cn_user_data := tok_user_data priv,
       cn_key_epoch := (cn_key_epoch c)\<lparr>tx_key := tok_server_to_client_key priv, rx_key := tok_client_to_server_key priv,
                                        tx_nonce_counter := 0, replay := replay_reset\<rparr>,
       cn_timeout_seconds := tok_timeout_seconds priv\<rparr>"

text \<open>The first packet to a client: its slot, the number of slots, and the acknowledgement fields.\<close>

definition accept_keepalive :: "aead_fn \<Rightarrow> u64 \<Rightarrow> real \<Rightarrow> nat \<Rightarrow> nat \<Rightarrow> Connection \<Rightarrow> byte list option \<times> Connection" where
  "accept_keepalive enc protocol_id now slot max_clients c =
     (let payload = le_bytes 2 (of_nat slot :: u16) @ le_bytes 4 (of_nat max_clients :: u32) @ ack_bytes now c;
          c1 = c\<lparr>cn_tracker := snd (send_packet now (cn_tracker c))\<rparr>;
          (r, e) = packet_encrypt enc protocol_id 0x15 payload (cn_key_epoch c1);
          c2 = c1\<lparr>cn_key_epoch := e\<rparr>
      in case r of None \<Rightarrow> (None, c2)
         | Some ct \<Rightarrow>
             if length ct = 0 then (None, c2)
             else (Some (0x15 # ct), c2\<lparr>cn_last_send_time := now, cn_last_keepalive_time := now\<rparr>))"

definition fingerprint_key :: "server_env \<Rightarrow> byte list \<Rightarrow> netudp_server \<Rightarrow> key" where
  "fingerprint_key env packet s =
     compute_token_fingerprint (se_hash env) (cfg_private_key (sv_config s)) (read_at 54 TOKEN_PRIVATE_ENCRYPTED_SIZE packet)"

definition known_client :: "u64 \<Rightarrow> netudp_server \<Rightarrow> bool" where
  "known_client cid s \<longleftrightarrow> list_ex (\<lambda>c. cn_active c \<and> cn_client_id c = cid) (take (sv_max_clients s) (sv_connections s))"

definition claim_slot :: "nat \<Rightarrow> netudp_address \<Rightarrow> netudp_server \<Rightarrow> netudp_server" where
  "claim_slot slot src s =
     (let (act, idx) = index_add slot (sv_active_slots s, sv_slot_to_active s)
      in s\<lparr>sv_free_slots := butlast (sv_free_slots s), sv_active_slots := act, sv_slot_to_active := idx,
           sv_address_to_slot := snd (hm_insert (address_bytes src) slot (sv_address_to_slot s))\<rparr>)"

definition establish :: "server_env \<Rightarrow> nat \<Rightarrow> netudp_address \<Rightarrow> PrivateConnectToken \<Rightarrow> netudp_server \<Rightarrow> srv_event list \<times> netudp_server" where
  "establish env slot src priv s =
     (let now = sv_current_time s;
          c0 = accept_connection slot src priv (conn s slot);
          c1 = init_subsystems (se_alloc env c0) (se_fill env) (cfg_channels (sv_config s)) (cfg_num_channels (sv_config s)) now c0;
          (r, c2) = accept_keepalive (se_enc env) (sv_protocol_id s) now slot (sv_max_clients s) c1;
          s1 = upd_conn slot (\<lambda>_. c2) (claim_slot slot src s);
          (ev, s2) = (case r of None \<Rightarrow> ([], s1) | Some p \<Rightarrow> server_send_packet src p s1)
      in ((if cfg_on_connect (sv_config s) then [On_connect slot (tok_client_id priv) (tok_user_data priv)] else []) @ ev, s2))"

definition server_handle_connection_request :: "server_env \<Rightarrow> netudp_address \<Rightarrow> byte list \<Rightarrow> netudp_server \<Rightarrow> srv_event list \<times> netudp_server" where
  "server_handle_connection_request env src packet s =
     (case open_request env packet s of None \<Rightarrow> ([], s)
      | Some priv \<Rightarrow>
          if known_client (tok_client_id priv) s then ([], s)
          else let k = fingerprint_key env packet s
               in if (case hm_find k (sv_fingerprints s) of None \<Rightarrow> False | Some v \<Rightarrow> \<not> netudp_address_equal (fv_address v) src) then ([], s)
                  else let v = \<lparr>fv_address = src, fv_expire_time = of_le (read_at 22 8 packet)\<rparr>;
                           s1 = s\<lparr>sv_fingerprints := snd (hm_insert k v (sv_fingerprints s))\<rparr>
                       in if sv_free_slots s1 = [] then ([], s1)
                          else establish env (last (sv_free_slots s1)) src priv s1)"

section \<open>Dispatch\<close>

definition server_handle_data_packet :: "server_env \<Rightarrow> nat \<Rightarrow> byte list \<Rightarrow> netudp_server \<Rightarrow> srv_result" where
  "server_handle_data_packet env slot packet s =
     (case server_handle_packet (se_dec env) (se_kdf env) (sv_protocol_id s) (sv_current_time s) packet (conn s slot) of
        (Packet_ignored, c) \<Rightarrow> Some ([], s)
      | (Decrypt_failed, c) \<Rightarrow> Some ([], server_bad_packet (upd_conn slot (\<lambda>_. c) s))
      | (Packet_processed Frames_done, c) \<Rightarrow> Some ([], upd_conn slot (\<lambda>_. c) s)
      | (Packet_processed (Frames_disconnect reason), c) \<Rightarrow> drop_client slot (uint reason) (upd_conn slot (\<lambda>_. c) s)
      | (Packet_processed Overrun, c) \<Rightarrow> None)"

definition lookup_slot :: "netudp_address \<Rightarrow> byte list \<Rightarrow> netudp_server \<Rightarrow> nat option" where
  "lookup_slot src data s =
     (let wire_slot = of_le (read_at 1 2 data) :: u16; cand = conn s (unat wire_slot)
      in if length data \<ge> 4 \<and> wire_slot < of_nat (sv_max_clients s) \<and> cn_active cand \<and> netudp_address_equal (cn_address cand) src
         then Some (unat wire_slot)
         else hm_find (address_bytes src) (sv_address_to_slot s))"

text \<open>An empty datagram leaves the first byte of the receive buffer as it was.\<close>

definition packet_prefix :: "server_env \<Rightarrow> byte list \<Rightarrow> byte" where
  "packet_prefix env data = (if data = [] then se_fill env else hd data)"

definition server_dispatch_packet :: "server_env \<Rightarrow> netudp_address \<Rightarrow> byte list \<Rightarrow> netudp_server \<Rightarrow> srv_result" where
  "server_dispatch_packet env src data s =
     (let prefix = packet_prefix env data; packet_type = prefix AND 0x0F
      in if packet_type = 0 \<and> length data = PACKET_SIZE_REQUEST then
           (if \<not> should_process_new_connection (sv_ddos s) then Some ([], s)
            else Some (server_handle_connection_request env src data s))
         else if 4 \<le> packet_type \<and> packet_type \<le> 6 \<or> prefix = PACKET_PREFIX_DATA_REKEY then
           (case lookup_slot src data s of
              Some slot \<Rightarrow> server_handle_data_packet env slot data s
            | None \<Rightarrow> Some ([], server_bad_packet s))
         else Some ([], server_bad_packet s))"

definition srv_bind :: "srv_result \<Rightarrow> (netudp_server \<Rightarrow> srv_result) \<Rightarrow> srv_result" where
  "srv_bind r f = Option.bind r (\<lambda>(ev1, s1). map_option (\<lambda>(ev2, s2). (ev1 @ ev2, s2)) (f s1))"

fun srv_each :: "('a \<Rightarrow> netudp_server \<Rightarrow> srv_result) \<Rightarrow> 'a list \<Rightarrow> netudp_server \<Rightarrow> srv_result" where
  "srv_each f [] s = Some ([], s)"
| "srv_each f (x # xs) s = srv_bind (f x s) (srv_each f xs)"

section \<open>The update tick\<close>

text \<open>A received packet: addresses that are not known, or all of them on the extra sockets, pass the rate limiter.\<close>

definition receive_packet :: "server_env \<Rightarrow> real \<Rightarrow> bool \<Rightarrow> netudp_address \<times> byte list \<Rightarrow> netudp_server \<Rightarrow> srv_result" where
  "receive_packet env time known_pass p s =
     (let (src, data) = p;
          (pass, rl) = (if known_pass \<and> hm_find (address_bytes src) (sv_address_to_slot s) \<noteq> None then (True, sv_rate_limiter s)
                        else allow src time (sv_rate_limiter s));
          s1 = s\<lparr>sv_rate_limiter := rl\<rparr>
      in if \<not> pass then Some ([], server_bad_packet s1)
         else if sv_sim_enabled s1 then Some ([], s1\<lparr>sv_sim := snd (sim_submit data src time (sv_sim s1))\<rparr>)
         else server_dispatch_packet env src data s1)"

text \<open>The drain loop of the pipeline takes a packet from the queue before it looks at the limit.\<close>

definition PIPELINE_DRAIN_MAX :: nat where
  "PIPELINE_DRAIN_MAX = 4096"

fun drain_queue :: "server_env \<Rightarrow> real \<Rightarrow> nat \<Rightarrow> netudp_server \<Rightarrow> srv_result" where
  "drain_queue env time 0 s =
     (case sv_recv_queue s of None \<Rightarrow> Some ([], s) | Some q \<Rightarrow> Some ([], s\<lparr>sv_recv_queue := Some (snd (pq_pop q))\<rparr>))"
| "drain_queue env time (Suc left) s =
     (case sv_recv_queue s of None \<Rightarrow> Some ([], s)
      | Some q \<Rightarrow>
          (case pq_pop q of
             (None, q1) \<Rightarrow> Some ([], s\<lparr>sv_recv_queue := Some q1\<rparr>)
           | (Some p, q1) \<Rightarrow> srv_bind (receive_packet env time True p (s\<lparr>sv_recv_queue := Some q1\<rparr>)) (drain_queue env time left)))"

text \<open>The list of active slots changes while it is traversed: the position stays when its slot is removed.\<close>

partial_function (option) timeout_loop :: "real \<Rightarrow> nat \<Rightarrow> srv_event list \<Rightarrow> netudp_server \<Rightarrow> srv_result" where
  "timeout_loop time a evs s =
     (if a \<ge> length (sv_active_slots s) then Some (evs, s)
      else if time - cn_last_recv_time (conn s (sv_active_slots s ! a)) > real (unat (cn_timeout_seconds (conn s (sv_active_slots s ! a))))
      then Option.bind (drop_client (sv_active_slots s ! a) (-4) s) (\<lambda>r. timeout_loop time a (evs @ fst r) (snd r))
      else timeout_loop time (a + 1) evs s)"

definition refresh_stats :: "real \<Rightarrow> Connection \<Rightarrow> Connection" where
  "refresh_stats time c =
     upd_stats (\<lambda>st. (update_throughput time st)\<lparr>st_ping_ms := ping_ms (cn_rtt c), st_send_rate := send_rate (cn_congestion c),
                                               st_max_send_rate := max_send_rate (cn_congestion c)\<rparr>) c"

definition slow_tick :: "bool \<Rightarrow> real \<Rightarrow> Connection \<Rightarrow> Connection" where
  "slow_tick stats time c =
     (if time \<ge> cn_next_slow_tick c then
        let c1 = c\<lparr>cn_next_slow_tick := time + 1 / 10\<rparr>;
            c2 = (if stats then refresh_stats time c1 else c1);
            c3 = upd_data (\<lambda>d. d\<lparr>cd_fragments := snd (cleanup_timeout time (cd_fragments d))\<rparr>) c2
        in c3\<lparr>cn_congestion := cc_evaluate (cn_congestion c3)\<rparr>
      else c)"

text \<open>A worker thread does not refresh the statistics of a connection that has nothing to send.\<close>

definition process_connection :: "server_env \<Rightarrow> bool \<Rightarrow> real \<Rightarrow> real \<Rightarrow> nat \<Rightarrow> netudp_server \<Rightarrow> srv_event list \<times> netudp_server" where
  "process_connection env worker time dt i s =
     (let c = conn s i; needs_keepalive = (time - cn_last_send_time c > 1)
      in if cn_pending_mask c = 0 \<and> \<not> needs_keepalive then ([], upd_conn i (slow_tick (\<not> worker) time) s)
         else let c1 = c\<lparr>cn_bandwidth := bandwidth_refill time (cn_bandwidth c),
                         cn_budget := budget_refill dt (send_rate (cn_congestion c)) (cn_budget c)\<rparr>;
                  (out, c2) = send_pending Server_side (se_enc env) (se_kdf env) (sv_protocol_id s) (sv_current_time s) c1;
                  (ka, c3) = (if needs_keepalive then server_keepalive (se_enc env) (sv_protocol_id s) (sv_current_time s) c2 else (None, c2));
                  (ev, s1) = server_send_packets (cn_address c) (out @ (case ka of None \<Rightarrow> [] | Some p \<Rightarrow> [p])) s
              in (ev, upd_conn i (\<lambda>_. slow_tick True time c3) s1))"

fun process_slots :: "server_env \<Rightarrow> bool \<Rightarrow> real \<Rightarrow> real \<Rightarrow> nat list \<Rightarrow> netudp_server \<Rightarrow> srv_event list \<times> netudp_server" where
  "process_slots env worker time dt [] s = ([], s)"
| "process_slots env worker time dt (i # is) s =
     (let (ev1, s1) = process_connection env worker time dt i s; (ev2, s2) = process_slots env worker time dt is s1 in (ev1 @ ev2, s2))"

text \<open>The positions of the active list that one tick visits, and the slice of the next tick.\<close>

definition pacing_slice :: "int \<Rightarrow> int \<Rightarrow> nat \<Rightarrow> nat list \<times> int" where
  "pacing_slice slices current active_count =
     (if slices > 1 \<and> int active_count > slices then
        let per_slice = active_count div nat slices; remainder = active_count mod nat slices; s = nat (current mod slices);
            start = s * per_slice + min s remainder
        in ([start..<start + (per_slice + (if s < remainder then 1 else 0))], (int s + 1) mod slices)
      else ([0..<active_count], current))"

text \<open>The positions one of \<^verbatim>\<open>nw\<close> worker threads visits.\<close>

definition worker_slice :: "nat \<Rightarrow> nat \<Rightarrow> nat \<Rightarrow> nat list" where
  "worker_slice nw n w = (let slice = (n + nw - 1) div nw in [w * slice..<min (w * slice + slice) n])"

definition visit_positions :: "netudp_server \<Rightarrow> nat list \<times> int" where
  "visit_positions s =
     (if sv_num_workers s > 1 \<and> sv_active_slots s \<noteq> []
      then (concat (map (worker_slice (sv_num_workers s) (length (sv_active_slots s))) [0..<sv_num_workers s]), sv_pacing_current_slice s)
      else pacing_slice (sv_pacing_slices s) (sv_pacing_current_slice s) (length (sv_active_slots s)))"

text \<open>
  \<^verbatim>\<open>primary\<close> is what the server's socket holds, \<^verbatim>\<open>extra\<close> what the additional sockets hold. In pipeline mode the
  receive thread has put packets into the queue instead. Workers are taken one after the other.
\<close>

definition server_receive_packets :: "server_env \<Rightarrow> real \<Rightarrow> (netudp_address \<times> byte list) list \<Rightarrow> (netudp_address \<times> byte list) list list \<Rightarrow> netudp_server \<Rightarrow> srv_result" where
  "server_receive_packets env time primary extra s =
     (if sv_pipeline_mode s \<and> sv_recv_queue s \<noteq> None then drain_queue env time PIPELINE_DRAIN_MAX s
      else srv_bind (srv_each (receive_packet env time True) primary s)
             (srv_each (receive_packet env time False) (concat (take (sv_num_io_threads s - 1) extra))))"

definition server_poll_sim :: "server_env \<Rightarrow> real \<Rightarrow> netudp_server \<Rightarrow> srv_result" where
  "server_poll_sim env time s =
     (if sv_sim_enabled s
      then let (due, sim) = sim_poll time (sv_sim s)
           in srv_each (\<lambda>p. server_dispatch_packet env (spk_from p) (spk_data p)) due (s\<lparr>sv_sim := sim\<rparr>)
      else Some ([], s))"

definition server_cleanup :: "real \<Rightarrow> netudp_server \<Rightarrow> netudp_server" where
  "server_cleanup time s =
     (if time - sv_last_cleanup_time s > 1 then s\<lparr>sv_rate_limiter := cleanup time (sv_rate_limiter s), sv_last_cleanup_time := time\<rparr> else s)"

definition server_process :: "server_env \<Rightarrow> real \<Rightarrow> real \<Rightarrow> netudp_server \<Rightarrow> srv_event list \<times> netudp_server" where
  "server_process env time dt s =
     (let (positions, next_slice) = visit_positions s;
          (ev, s1) = process_slots env (sv_num_workers s > 1) time dt (map ((!) (sv_active_slots s)) positions) s
      in (ev, server_cleanup time (s1\<lparr>sv_pacing_current_slice := next_slice\<rparr>)))"

definition netudp_server_update ::
    "server_env \<Rightarrow> real \<Rightarrow> (netudp_address \<times> byte list) list \<Rightarrow> (netudp_address \<times> byte list) list list \<Rightarrow> netudp_server \<Rightarrow> srv_result" where
  "netudp_server_update env time primary extra s =
     (if \<not> sv_running s then Some ([], s)
      else let dt = time - sv_current_time s;
               s1 = s\<lparr>sv_current_time := time, sv_ddos := ddos_update dt (sv_ddos s)\<rparr>
           in srv_bind (srv_bind (srv_bind (server_receive_packets env time primary extra s1) (server_poll_sim env time)) (timeout_loop time 0 []))
                (\<lambda>s2. Some (server_process env time dt s2)))"

section \<open>Creating, starting and stopping\<close>

definition clamp_threads :: "int \<Rightarrow> nat" where
  "clamp_threads n = (if n \<le> 0 then 1 else if n > 16 then 16 else nat n)"

text \<open>
  \<^verbatim>\<open>sock\<close> says which of the sockets can be created; \<^verbatim>\<open>sim0\<close> is the memory of the simulator before its
  initialisation.
\<close>

definition netudp_server_create :: "(nat \<Rightarrow> bool) \<Rightarrow> NetworkSimulator \<Rightarrow> string \<Rightarrow> server_config \<Rightarrow> real \<Rightarrow> netudp_server option" where
  "netudp_server_create sock sim0 address config time =
     (case netudp_parse_address address of None \<Rightarrow> None
      | Some bind_addr \<Rightarrow>
          let n = clamp_threads (cfg_num_io_threads config)
          in if \<not> list_all sock [0..<n] then None
             else Some \<lparr>sv_running = False, sv_max_clients = 0, sv_config = config, sv_protocol_id = cfg_protocol_id config,
               sv_rate_limiter = limiter_new, sv_ddos = ddos_reset, sv_connections = [], sv_fingerprints = hm_new 2048,
               sv_current_time = time, sv_last_cleanup_time = 0,
               sv_sim = (case cfg_sim config of None \<Rightarrow> sim0 | Some c \<Rightarrow> sim_init c 12345 sim0), sv_sim_enabled = (cfg_sim config \<noteq> None),
               sv_handlers = replicate 256 False, sv_num_io_threads = n, sv_bind_address = bind_addr, sv_address_to_slot = hm_new 4096,
               sv_pipeline_mode = False, sv_recv_queue = None, sv_send_queue = None, sv_active_slots = [], sv_slot_to_active = [],
               sv_free_slots = [], sv_groups = [], sv_group_free = [], sv_heartbeat_interval = 5, sv_integrity_interval = 30,
               sv_integrity_timeout = 120, sv_last_heartbeat_tick = 0, sv_last_integrity_tick = 0, sv_pacing_slices = 0,
               sv_pacing_current_slice = 0, sv_schemas = replicate 64 schema_new, sv_schema_count = 0, sv_entities = [],
               sv_next_entity_id = 1, sv_num_workers = 1\<rparr>)"

definition kMaxEntities :: nat where
  "kMaxEntities = 16384"

definition kMaxSchemas :: nat where
  "kMaxSchemas = 64"

definition ms_or_default :: "int \<Rightarrow> real \<Rightarrow> real" where
  "ms_or_default ms dflt = (if ms > 0 then real_of_int ms / 1000 else dflt)"

text \<open>
  The arrays of the server are used without a check (\<^verbatim>\<open>mem_arrays\<close>); the entities and the queues may be
  missing. \<^verbatim>\<open>junk\<close> is what uninitialised queue slots hold.
\<close>

definition netudp_server_start ::
    "bool \<Rightarrow> bool \<Rightarrow> bool \<times> bool \<Rightarrow> netudp_address \<times> byte list \<Rightarrow> int \<Rightarrow> netudp_server \<Rightarrow> netudp_server option" where
  "netudp_server_start mem_arrays mem_entities mem_queues junk max_clients s =
     (if max_clients \<le> 0 then Some s
      else if \<not> mem_arrays then None
      else let n = nat max_clients; cfg = sv_config s;
               mg = (if cfg_max_groups cfg \<le> 0 then 256 else nat (cfg_max_groups cfg));
               queue = (\<lambda>mem. if sv_num_io_threads s \<ge> 2 \<and> mem then Some (pq_new junk) else None)
           in Some (s\<lparr>sv_max_clients := n, sv_running := True, sv_connections := replicate n connection_new,
                sv_active_slots := [], sv_free_slots := rev [0..<n], sv_slot_to_active := replicate n (-1),
                sv_groups := replicate mg group_new, sv_group_free := rev [0..<mg],
                sv_heartbeat_interval := ms_or_default (cfg_heartbeat_interval_ms cfg) 5,
                sv_integrity_interval := ms_or_default (cfg_integrity_interval_ms cfg) 30,
                sv_integrity_timeout := ms_or_default (cfg_integrity_timeout_ms cfg) 120,
                sv_last_heartbeat_tick := sv_current_time s, sv_last_integrity_tick := sv_current_time s,
                sv_pacing_slices := cfg_pacing_slices cfg, sv_pacing_current_slice := 0,
                sv_entities := (if mem_entities then replicate kMaxEntities entity_new else []),
                sv_num_workers := (if sv_num_io_threads s \<ge> 3 then min (sv_num_io_threads s - 1) 8 else sv_num_workers s),
                sv_pipeline_mode := (sv_num_io_threads s \<ge> 2 \<or> sv_pipeline_mode s), sv_recv_queue := queue (fst mem_queues), sv_send_queue := queue (snd mem_queues)\<rparr>))"

definition netudp_server_stop :: "netudp_server \<Rightarrow> netudp_server" where
  "netudp_server_stop s =
     s\<lparr>sv_running := False, sv_num_workers := 1, sv_pipeline_mode := False, sv_recv_queue := None, sv_send_queue := None,
       sv_address_to_slot := hm_clear (sv_address_to_slot s), sv_connections := [], sv_active_slots := [], sv_free_slots := [],
       sv_slot_to_active := [], sv_entities := [], sv_schema_count := 0, sv_next_entity_id := 1, sv_groups := [], sv_group_free := []\<rparr>"

record server_stats =
  ss_connected_clients :: nat
  ss_max_clients :: nat
  ss_bytes_recv :: nat
  ss_bytes_sent :: nat
  ss_recv_pps :: rat
  ss_send_pps :: rat
  ss_ddos_severity :: DDoSSeverity

definition netudp_server_get_stats :: "netudp_server \<Rightarrow> server_stats option" where
  "netudp_server_get_stats s =
     (if length (sv_connections s) < sv_max_clients s then None
      else let act = map cn_stats (filter cn_active (take (sv_max_clients s) (sv_connections s)))
           in Some \<lparr>ss_connected_clients = length act, ss_max_clients = sv_max_clients s,
                ss_bytes_recv = sum_list (map (\<lambda>st. nat \<lfloor>st_in_bytes_per_sec st\<rfloor>) act),
                ss_bytes_sent = sum_list (map (\<lambda>st. nat \<lfloor>st_out_bytes_per_sec st\<rfloor>) act),
                ss_recv_pps = sum_list (map st_in_packets_per_sec act), ss_send_pps = sum_list (map st_out_packets_per_sec act),
                ss_ddos_severity = severity (sv_ddos s)\<rparr>)"

end
