(* ===== verification/Server_Inv.thy ===== *)
theory Server_Inv
  imports Server
begin

text \<open>
  The invariant of the server's slots: active and free slots partition the array of connections, the
  reverse index agrees with the list of active slots, the address map leads only to active connections of that
  address, and groups hold active clients only. Every operation of the server keeps it.
\<close>

section \<open>What the packet paths leave alone\<close>

definition peer :: "Connection \<Rightarrow> bool \<times> netudp_address \<times> u64 \<times> nat \<times> bool" where
  "peer c = (cn_active c, cn_address c, cn_client_id c, cn_num_channels c, cn_data c = None)"

lemma peer_simps [simp]:
  "peer (c\<lparr>cn_tracker := t\<rparr>) = peer c" "peer (c\<lparr>cn_key_epoch := e\<rparr>) = peer c" "peer (c\<lparr>cn_stats := st\<rparr>) = peer c"
  "peer (c\<lparr>cn_congestion := cc\<rparr>) = peer c" "peer (c\<lparr>cn_rtt := r\<rparr>) = peer c" "peer (c\<lparr>cn_last_recv_time := x\<rparr>) = peer c"
  "peer (c\<lparr>cn_last_send_time := x\<rparr>) = peer c" "peer (c\<lparr>cn_last_keepalive_time := x\<rparr>) = peer c" "peer (c\<lparr>cn_next_slow_tick := x\<rparr>) = peer c"
  "peer (c\<lparr>cn_pending_mask := p\<rparr>) = peer c" "peer (c\<lparr>cn_budget := b\<rparr>) = peer c" "peer (c\<lparr>cn_bandwidth := w\<rparr>) = peer c"
  "peer (upd_stats f c) = peer c" "peer (upd_data g c) = peer c" "peer (upd_channel i h c) = peer c" "peer (upd_reliable i k c) = peer c"
  by (simp_all add: peer_def upd_stats_def upd_data_def upd_channel_def upd_reliable_def)

lemma peer_deliver [simp]: "peer (deliver ch m c) = peer c" "peer (deliver_counted ch m c) = peer c" "peer (count_fragment c) = peer c"
  by (simp_all add: deliver_def deliver_counted_def count_message_def count_fragment_def)

lemma peer_fold_deliver [simp]: "peer (fold (deliver_counted ch) ms c) = peer c"
  by (induction ms arbitrary: c) simp_all

lemma peer_recv [simp]: "peer (recv_reliable ch msq d c) = peer c" "peer (recv_fragment now ch mid fi fc d c) = peer c"
  by (simp_all add: recv_reliable_def recv_fragment_def split_beta Let_def split: channel_type.split option.split)

lemma peer_parse_frames: "peer (snd (parse_frames rl now bs c)) = peer c"
proof (induction rl now bs c rule: parse_frames.induct)
  case (2 rl now frame_type rest c)
  show ?case using 2 by (subst parse_frames.simps) (auto simp: Let_def)
qed (simp add: parse_frames.simps)

lemma peer_process_ack [simp]: "peer (process_ack_fields f now c) = peer c"
  by (simp add: process_ack_fields_def split_beta Let_def)

lemma peer_process_plaintext [simp]: "peer (snd (process_plaintext rl now n pt c)) = peer c"
  by (simp add: process_plaintext_def Let_def peer_parse_frames)

lemma peer_server_handle [simp]: "peer (snd (server_handle_packet dec kdf pid now packet c)) = peer c"
  by (simp add: server_handle_packet_def split_beta Let_def count_decrypt_failure_def split: option.split)

lemma peer_pick_channel: "pick_channel rl now c = (i, c1) \<Longrightarrow> peer c1 = peer c"
  by (auto simp: pick_channel_def split_beta split: role.splits)

lemma peer_flush_packet [simp]: "peer (snd (flush_packet rl enc kdf pid now payload frames c)) = peer c"
  by (simp add: flush_packet_def split_beta Let_def split: option.split)

lemma peer_make_room: "make_room rl enc kdf pid now needed payload frames out c = (r, payload', frames', out', c') \<Longrightarrow> peer c' = peer c"
  using peer_flush_packet [of rl enc kdf pid now payload frames c]
  by (auto simp: make_room_def split_beta split: if_splits option.splits)

lemma peer_write_message: "write_message i now q room c = (r, c') \<Longrightarrow> peer c' = peer c"
  by (auto simp: write_message_def split: if_splits)

lemma peer_send_loop:
  "send_loop rl enc kdf pid now payload frames out c = (r, payload', frames', out', c') \<Longrightarrow> peer c' = peer c"
proof (induction rl enc kdf pid now payload frames out c rule: send_loop.induct)
  case (1 rl enc kdf pid now payload frames out c)
  obtain i c1 where p: "pick_channel rl now c = (i, c1)" by fastforce
  note p1 = peer_pick_channel [OF p]
  show ?case
  proof (cases "i = None \<or> cn_data c1 = None \<or> the i \<ge> length (cd_channels (cdata c1))")
    case True
    then show ?thesis using 1(3) p p1 by (subst (asm) send_loop.simps) (auto split: option.splits)
  next
    case False
    then obtain j where j: "i = Some j" and ok: "\<not> (cn_data c1 = None \<or> j \<ge> length (cd_channels (cdata c1)))" by auto
    obtain q ch where q: "dequeue_send (cd_channels (cdata c1) ! j) = (q, ch)" by fastforce
    show ?thesis
    proof (cases q)
      case None
      have "send_loop rl enc kdf pid now payload frames out (upd_channel j (\<lambda>_. ch) c1) = (r, payload', frames', out', c')"
        using 1(3) p q ok by (subst (asm) send_loop.simps) (simp add: j None)
      from 1(1) [OF p [symmetric] j ok q [symmetric] None this] show ?thesis using p1 by simp
    next
      case (Some m)
      obtain ret payload1 frames1 out1 c2 where m: "make_room rl enc kdf pid now (frame_overhead (cc_type (ch_config ch)) + length (qm_data m))
          payload frames out (upd_channel j (\<lambda>_. ch) c1) = (ret, payload1, frames1, out1, c2)" by (metis prod_cases5)
      have c2: "peer c2 = peer c" using peer_make_room [OF m] p1 by simp
      obtain fr c3 where w: "write_message j now m (NETUDP_MTU - length payload1) c2 = (fr, c3)" by fastforce
      have c3: "peer c3 = peer c" using peer_write_message [OF w] c2 by simp
      show ?thesis
      proof (cases "ret \<noteq> None \<or> fr = None")
        case True
        then show ?thesis using 1(3) p q ok m w c2 c3
          by (subst (asm) send_loop.simps) (auto simp: j Some split: option.splits)
      next
        case False
        then obtain f where f: "ret = None" "fr = Some f" by auto
        have "send_loop rl enc kdf pid now (payload1 @ f) (frames1 + 1) out1 c3 = (r, payload', frames', out', c')"
          using 1(3) p q ok m w by (subst (asm) send_loop.simps) (simp add: j Some f)
        from 1(2) [OF p [symmetric] j ok q [symmetric] Some m [symmetric] f(1) refl refl refl w [symmetric] f(2) this]
        show ?thesis using c3 by simp
      qed
    qed
  qed
qed

lemma peer_send_pending [simp]: "peer (snd (send_pending rl enc kdf pid now c)) = peer c"
proof -
  obtain r payload frames out c1 where l: "send_loop rl enc kdf pid now (ack_bytes now c) 0 [] c = (r, payload, frames, out, c1)"
    by (metis prod_cases5)
  obtain fp c2 where f: "flush_packet rl enc kdf pid now payload frames c1 = (fp, c2)" by fastforce
  have "peer c1 = peer c" "peer c2 = peer c"
    using peer_send_loop [OF l] peer_flush_packet [of rl enc kdf pid now payload frames c1] f by simp_all
  then show ?thesis by (cases fp) (simp_all add: send_pending_def l f)
qed

lemma peer_keepalive [simp]: "peer (snd (server_keepalive enc pid now c)) = peer c" "peer (snd (accept_keepalive enc pid now slot n c)) = peer c"
  by (simp_all add: server_keepalive_def accept_keepalive_def split_beta Let_def split: option.split)

lemma peer_slow_tick [simp]: "peer (slow_tick st time c) = peer c"
  by (simp add: slow_tick_def refresh_stats_def Let_def)

section \<open>The invariant\<close>

definition slots_ok :: "netudp_server \<Rightarrow> bool" where
  "slots_ok s \<longleftrightarrow>
     length (sv_connections s) = sv_max_clients s \<and> length (sv_slot_to_active s) = sv_max_clients s
     \<and> indexed (sv_active_slots s) (sv_slot_to_active s) \<and> distinct (sv_active_slots s @ sv_free_slots s)
     \<and> set (sv_active_slots s @ sv_free_slots s) = {..<sv_max_clients s}
     \<and> (\<forall>i < sv_max_clients s. cn_active (conn s i) \<longleftrightarrow> i \<in> set (sv_active_slots s))"

definition addresses_ok :: "netudp_server \<Rightarrow> bool" where
  "addresses_ok s \<longleftrightarrow>
     hm_ok (sv_address_to_slot s)
     \<and> (\<forall>k i. hm_find k (sv_address_to_slot s) = Some i \<longrightarrow> i \<in> set (sv_active_slots s) \<and> address_bytes (cn_address (conn s i)) = k)"

definition groups_ok :: "netudp_server \<Rightarrow> bool" where
  "groups_ok s \<longleftrightarrow>
     (\<forall>g \<in> set (sv_groups s). gr_active g \<longrightarrow> group_ok (sv_max_clients s) g \<and> set (gr_members g) \<subseteq> set (sv_active_slots s))
     \<and> distinct (sv_group_free s) \<and> set (sv_group_free s) = {i. i < length (sv_groups s) \<and> \<not> gr_active (sv_groups s ! i)}"

text \<open>A connection whose buffers could not be allocated has no channels; client identifiers are not shared.\<close>

definition conns_ok :: "netudp_server \<Rightarrow> bool" where
  "conns_ok s \<longleftrightarrow>
     (\<forall>i < sv_max_clients s. (cn_data (conn s i) = None \<longrightarrow> cn_num_channels (conn s i) = 0) \<and> (\<not> cn_active (conn s i) \<longrightarrow> cn_data (conn s i) = None))
     \<and> inj_on (\<lambda>i. cn_client_id (conn s i)) (set (sv_active_slots s))"

definition server_ok :: "netudp_server \<Rightarrow> bool" where
  "server_ok s \<longleftrightarrow>
     (if sv_running s then slots_ok s \<and> addresses_ok s \<and> groups_ok s \<and> conns_ok s
      else sv_active_slots s = [] \<and> sv_groups s = [] \<and> hm_ok (sv_address_to_slot s) \<and> (\<forall>k. hm_find k (sv_address_to_slot s) = None))"

lemma server_ok_cong:
  assumes "sv_running s' = sv_running s" "sv_max_clients s' = sv_max_clients s" "sv_active_slots s' = sv_active_slots s"
    "sv_slot_to_active s' = sv_slot_to_active s" "sv_free_slots s' = sv_free_slots s" "sv_groups s' = sv_groups s"
    "sv_group_free s' = sv_group_free s" "sv_address_to_slot s' = sv_address_to_slot s"
    "map peer (sv_connections s') = map peer (sv_connections s)"
  shows "server_ok s' = server_ok s"
proof -
  have len: "length (sv_connections s') = length (sv_connections s)" using arg_cong [OF assms(9), of length] by simp
  have p: "peer (conn s' i) = peer (conn s i)" if "i < length (sv_connections s)" for i
    using arg_cong [OF assms(9), of "\<lambda>xs. xs ! i"] that len by simp
  have f: "cn_active (conn s' i) = cn_active (conn s i)" "cn_address (conn s' i) = cn_address (conn s i)"
    "cn_client_id (conn s' i) = cn_client_id (conn s i)" "cn_num_channels (conn s' i) = cn_num_channels (conn s i)"
    "(cn_data (conn s' i) = None) = (cn_data (conn s i) = None)" if "i < length (sv_connections s)" for i
    using p [OF that] by (simp_all add: peer_def)
  have act: "slots_ok s' = slots_ok s" "groups_ok s' = groups_ok s" unfolding slots_ok_def groups_ok_def using f by (auto simp: assms len)
  have sub: "i < length (sv_connections s)" if "slots_ok s" "i \<in> set (sv_active_slots s)" for i
    using that unfolding slots_ok_def by (metis UnCI lessThan_iff set_append)
  have adr: "addresses_ok s' = addresses_ok s" if "slots_ok s"
    unfolding addresses_ok_def assms(3,8) using f(2) sub [OF that] by metis
  have cns: "conns_ok s' = conns_ok s" if "slots_ok s"
    using f sub [OF that] that by (auto simp: conns_ok_def slots_ok_def assms inj_on_def)
  show ?thesis unfolding server_ok_def using act adr cns by (auto simp: assms)
qed

lemma upd_conn_ok:
  assumes "peer (f (conn s i)) = peer (conn s i)"
  shows "server_ok (upd_conn i f s) = server_ok s"
proof (rule server_ok_cong)
  show "map peer (sv_connections (upd_conn i f s)) = map peer (sv_connections s)"
    using assms by (cases "i < length (sv_connections s)") (simp_all add: upd_conn_def map_update list_update_same_conv list_update_beyond)
qed (simp_all add: upd_conn_def)

text \<open>State that the invariant does not read.\<close>

lemma server_ok_simps [simp]:
  "server_ok (s\<lparr>sv_rate_limiter := rl\<rparr>) = server_ok s" "server_ok (s\<lparr>sv_sim := sim\<rparr>) = server_ok s"
  "server_ok (s\<lparr>sv_fingerprints := fp\<rparr>) = server_ok s" "server_ok (s\<lparr>sv_recv_queue := q\<rparr>) = server_ok s"
  "server_ok (s\<lparr>sv_send_queue := q\<rparr>) = server_ok s" "server_ok (s\<lparr>sv_ddos := d\<rparr>) = server_ok s"
  "server_ok (s\<lparr>sv_current_time := t\<rparr>) = server_ok s" "server_ok (s\<lparr>sv_pacing_current_slice := p\<rparr>) = server_ok s"
  "server_ok (s\<lparr>sv_last_cleanup_time := t\<rparr>) = server_ok s" "server_ok (server_bad_packet s) = server_ok s"
  "server_ok (s\<lparr>sv_entities := es\<rparr>) = server_ok s" "server_ok (s\<lparr>sv_schemas := ss\<rparr>) = server_ok s"
  "server_ok (s\<lparr>sv_schema_count := n\<rparr>) = server_ok s" "server_ok (s\<lparr>sv_next_entity_id := eid\<rparr>) = server_ok s"
  "server_ok (s\<lparr>sv_handlers := hs\<rparr>) = server_ok s"
  by (rule server_ok_cong; simp add: server_bad_packet_def)+

section \<open>Every operation keeps the invariant\<close>

lemma remove_from_groups_ok:
  assumes "\<forall>g \<in> set gs. gr_active g \<longrightarrow> group_ok n g" and "i < n"
  shows "\<exists>gs'. remove_from_groups i gs = Some gs' \<and> map gr_active gs' = map gr_active gs \<and>
    (\<forall>g \<in> set gs'. gr_active g \<longrightarrow> group_ok n g \<and> (\<exists>g0 \<in> set gs. gr_active g0 \<and> set (gr_members g) = set (gr_members g0) - {i}))"
  using assms(1)
proof (induction gs)
  case Nil
  then show ?case by (simp add: remove_from_groups_def)
next
  case (Cons g gs)
  then obtain gs' where gs': "remove_from_groups i gs = Some gs'" "map gr_active gs' = map gr_active gs"
    "\<forall>g \<in> set gs'. gr_active g \<longrightarrow> group_ok n g \<and> (\<exists>g0 \<in> set gs. gr_active g0 \<and> set (gr_members g) = set (gr_members g0) - {i})" by auto
  show ?case
  proof (cases "gr_active g")
    case True
    then have "group_ok n g" using Cons.prems by simp
    from group_step_refines [OF this, of "Group_remove i"] assms(2) obtain b g' where
      g': "group_remove (int i) g = Some (b, g')" "group_ok n g'" "set (gr_members g') = set (gr_members g) - {i}" by auto
    have "gr_active g' = gr_active g"
      using g'(1) by (auto simp: group_remove_def split_beta Let_def split: option.splits if_splits)
    then have "remove_from_groups i (g # gs) = Some (g' # gs')" using gs'(1) g'(1) True by (simp add: remove_from_groups_def)
    then show ?thesis using gs'(2,3) g'(2,3) \<open>gr_active g' = gr_active g\<close> True by auto
  next
    case False
    then have "remove_from_groups i (g # gs) = Some (g # gs')" using gs'(1) by (simp add: remove_from_groups_def)
    then show ?thesis using gs'(2,3) False by auto
  qed
qed

lemma deactivate_ok:
  assumes "slots_ok s" and "groups_ok s" and "i \<in> set (sv_active_slots s)"
  obtains act idx gs where "server_deactivate_slot i s = Some (s\<lparr>sv_active_slots := act, sv_slot_to_active := idx, sv_free_slots := sv_free_slots s @ [i], sv_groups := gs\<rparr>)"
    and "indexed act idx" and "set act = set (sv_active_slots s) - {i}" and "length idx = sv_max_clients s"
    and "map gr_active gs = map gr_active (sv_groups s)"
    and "\<forall>g \<in> set gs. gr_active g \<longrightarrow> group_ok (sv_max_clients s) g \<and> set (gr_members g) \<subseteq> set act"
proof -
  have ix: "indexed (sv_active_slots s) (sv_slot_to_active s)" and len: "length (sv_slot_to_active s) = sv_max_clients s"
    using assms(1) by (auto simp: slots_ok_def)
  have i: "i < sv_max_clients s" "0 \<le> sv_slot_to_active s ! i"
    using indexed_position(1) [OF ix assms(3)] indexed_mem [OF ix] assms(3) len by auto
  obtain act idx where r: "index_remove i (sv_active_slots s, sv_slot_to_active s) = (act, idx)" by fastforce
  note rm = indexed_remove [OF ix assms(3), unfolded r fst_conv snd_conv]
  have "\<forall>g \<in> set (sv_groups s). gr_active g \<longrightarrow> group_ok (sv_max_clients s) g" using assms(2) by (auto simp: groups_ok_def)
  from remove_from_groups_ok [OF this i(1)] obtain gs where gs: "remove_from_groups i (sv_groups s) = Some gs"
    "map gr_active gs = map gr_active (sv_groups s)"
    "\<forall>g \<in> set gs. gr_active g \<longrightarrow> group_ok (sv_max_clients s) g \<and> (\<exists>g0 \<in> set (sv_groups s). gr_active g0 \<and> set (gr_members g) = set (gr_members g0) - {i})" by blast
  have "server_deactivate_slot i s = Some (s\<lparr>sv_active_slots := act, sv_slot_to_active := idx, sv_free_slots := sv_free_slots s @ [i], sv_groups := gs\<rparr>)"
    using i len gs(1) by (simp add: server_deactivate_slot_def r)
  moreover have "\<forall>g \<in> set gs. gr_active g \<longrightarrow> group_ok (sv_max_clients s) g \<and> set (gr_members g) \<subseteq> set act"
    using gs(3) assms(2) unfolding groups_ok_def rm(2) by fastforce
  ultimately show thesis using that rm len gs(2) by simp
qed

lemma drop_client_ok:
  assumes "server_ok s" and "sv_running s" and "i \<in> set (sv_active_slots s)"
  shows "\<exists>ev s'. drop_client i r s = Some (ev, s') \<and> server_ok s' \<and> sv_running s' \<and> set (sv_active_slots s') = set (sv_active_slots s) - {i}
    \<and> length (sv_active_slots s') < length (sv_active_slots s)"
proof -
  let ?k = "address_bytes (cn_address (conn s i))"
  let ?s1 = "s\<lparr>sv_address_to_slot := snd (hm_remove ?k (sv_address_to_slot s))\<rparr>"
  have so: "slots_ok s" and ad: "addresses_ok s" and gr: "groups_ok s" and cn: "conns_ok s" using assms(1,2) by (auto simp: server_ok_def)
  have s1: "slots_ok ?s1" "groups_ok ?s1" using so gr by (auto simp: slots_ok_def groups_ok_def)
  obtain act idx gs where
    d: "server_deactivate_slot i ?s1 = Some (?s1\<lparr>sv_active_slots := act, sv_slot_to_active := idx, sv_free_slots := sv_free_slots s @ [i], sv_groups := gs\<rparr>)"
    and act: "indexed act idx" "set act = set (sv_active_slots s) - {i}" "length idx = sv_max_clients s"
    and gs: "map gr_active gs = map gr_active (sv_groups s)"
      "\<forall>g \<in> set gs. gr_active g \<longrightarrow> group_ok (sv_max_clients s) g \<and> set (gr_members g) \<subseteq> set act"
    by (rule deactivate_ok [OF s1, of i]) (use assms(3) in auto)
  define s' where "s' = upd_conn i connection_reset (?s1\<lparr>sv_active_slots := act, sv_slot_to_active := idx, sv_free_slots := sv_free_slots s @ [i], sv_groups := gs\<rparr>)"
  have i: "i < sv_max_clients s" using so assms(3) unfolding slots_ok_def by (metis UnCI lessThan_iff set_append)
  have c: "conn s' j = (if j = i then connection_reset (conn s i) else conn s j)" if "j < sv_max_clients s" for j
    using that so by (auto simp: s'_def upd_conn_def slots_ok_def)
  have sub: "j < sv_max_clients s \<and> j \<noteq> i" if "j \<in> set act" for j
    using that act(2) so unfolding slots_ok_def by (metis DiffE UnCI insertI1 lessThan_iff set_append)
  have f: "sv_max_clients s' = sv_max_clients s" "sv_active_slots s' = act" "sv_slot_to_active s' = idx" "sv_free_slots s' = sv_free_slots s @ [i]"
    "sv_groups s' = gs" "sv_group_free s' = sv_group_free s" "length (sv_connections s') = length (sv_connections s)"
    "sv_address_to_slot s' = snd (hm_remove ?k (sv_address_to_slot s))" "sv_running s' = sv_running s"
    by (simp_all add: s'_def upd_conn_def)
  have "distinct act" using indexed_distinct [OF act(1)] .
  then have "distinct (act @ sv_free_slots s @ [i])" "set (act @ sv_free_slots s @ [i]) = {..<sv_max_clients s}"
    using so assms(3) i by (auto simp: slots_ok_def act(2))
  then have "slots_ok s'" using so act by (auto simp: slots_ok_def f c connection_reset_def)
  moreover have "addresses_ok s'"
  proof -
    have "j \<in> set act \<and> address_bytes (cn_address (conn s' j)) = k" if "hm_find k (sv_address_to_slot s') = Some j" for k j
    proof -
      have "hm_find k (sv_address_to_slot s) = Some j" "k \<noteq> ?k"
        using that ad by (auto simp: f addresses_ok_def hm.remove_find_at split: if_splits)
      then have j: "j \<in> set (sv_active_slots s)" "address_bytes (cn_address (conn s j)) = k" "j \<noteq> i" using ad by (auto simp: addresses_ok_def)
      then show ?thesis using act(2) sub [of j] c [of j] by simp
    qed
    then show ?thesis using ad by (simp add: addresses_ok_def f hm.remove_ok)
  qed
  moreover have "groups_ok s'"
  proof -
    have "length gs = length (sv_groups s)" using arg_cong [OF gs(1), of length] by simp
    moreover have "gr_active (gs ! j) = gr_active (sv_groups s ! j)" if "j < length (sv_groups s)" for j
      using arg_cong [OF gs(1), of "\<lambda>xs. xs ! j"] that calculation by simp
    ultimately show ?thesis using gr gs(2) by (auto simp: groups_ok_def f)
  qed
  moreover have "conns_ok s'"
    using cn sub c act(2) by (auto simp: conns_ok_def f connection_reset_def inj_on_def)
  moreover have "length act < length (sv_active_slots s)"
    using indexed_distinct [OF act(1)] act(2) assms(3) so by (metis card_Diff1_less distinct_append distinct_card finite_set slots_ok_def)
  ultimately have "server_ok s' \<and> sv_running s' \<and> set (sv_active_slots s') = set (sv_active_slots s) - {i} \<and> length (sv_active_slots s') < length (sv_active_slots s)"
    using assms(2) act(2) by (simp add: server_ok_def f)
  then show ?thesis using d by (simp add: drop_client_def Let_def s'_def)
qed

lemma hm_insert_cases:
  assumes "hm_ok m"
  shows "(\<forall>j. hm_find j (snd (hm_insert k v m)) = (if j = k then Some v else hm_find j m)) \<or> snd (hm_insert k v m) = m"
  using hm.insert_find [OF assms, of k] hm.insert_rejects [OF assms, of k v] by (cases "hm_find k m = None \<and> length (slots m) \<le> map_size m") auto

lemma send_packet_ok [simp]: "server_ok (snd (server_send_packet dest p s)) = server_ok s"
  by (simp add: server_send_packet_def split: option.split)

lemma send_packet_same [simp]: "sv_running (snd (server_send_packet dest p s)) = sv_running s"
  "sv_connections (snd (server_send_packet dest p s)) = sv_connections s"
  by (simp_all add: server_send_packet_def split: option.split)

lemma send_packets_ok [simp]: "server_ok (snd (server_send_packets dest ps s)) = server_ok s"
  "sv_running (snd (server_send_packets dest ps s)) = sv_running s"
  "sv_connections (snd (server_send_packets dest ps s)) = sv_connections s"
  by (induction ps arbitrary: s) (simp_all add: split_beta Let_def)

lemma claim_slot_ok:
  assumes "server_ok s" and "sv_running s" and "sv_free_slots s \<noteq> []" and slot: "slot = last (sv_free_slots s)"
    and "\<not> known_client (cn_client_id c) s" and "cn_active c" and "cn_address c = src" and "cn_data c = None \<longrightarrow> cn_num_channels c = 0"
  shows "server_ok (upd_conn slot (\<lambda>_. c) (claim_slot slot src s))"
proof -
  have so: "slots_ok s" and ad: "addresses_ok s" and gr: "groups_ok s" and cn: "conns_ok s" using assms(1,2) by (auto simp: server_ok_def)
  define s' where "s' = upd_conn slot (\<lambda>_. c) (claim_slot slot src s)"
  have free: "sv_free_slots s = butlast (sv_free_slots s) @ [slot]" using assms(3) slot by simp
  have sl: "slot < sv_max_clients s" "slot \<notin> set (sv_active_slots s)" "slot \<notin> set (butlast (sv_free_slots s))"
    using so free unfolding slots_ok_def by (metis UnCI lessThan_iff last_in_set assms(3) set_append slot, 
      metis disjoint_iff distinct_append last_in_set assms(3) slot, metis distinct_append not_distinct_conv_prefix)
  have f: "sv_max_clients s' = sv_max_clients s" "sv_active_slots s' = sv_active_slots s @ [slot]"
    "sv_slot_to_active s' = (sv_slot_to_active s)[slot := int (length (sv_active_slots s))]" "sv_free_slots s' = butlast (sv_free_slots s)"
    "sv_groups s' = sv_groups s" "sv_group_free s' = sv_group_free s" "length (sv_connections s') = length (sv_connections s)"
    "sv_address_to_slot s' = snd (hm_insert (address_bytes src) slot (sv_address_to_slot s))" "sv_running s' = sv_running s"
    by (simp_all add: s'_def upd_conn_def claim_slot_def index_add_def)
  have cc: "conn s' j = (if j = slot then c else conn s j)" if "j < sv_max_clients s" for j
    using that so by (auto simp: s'_def upd_conn_def claim_slot_def index_add_def slots_ok_def)
  have sub: "j < sv_max_clients s" if "j \<in> set (sv_active_slots s)" for j
    using that so unfolding slots_ok_def by (metis UnCI lessThan_iff set_append)
  have "slots_ok s'"
  proof -
    have "distinct (sv_active_slots s @ butlast (sv_free_slots s) @ [slot])" "set (sv_active_slots s @ butlast (sv_free_slots s) @ [slot]) = {..<sv_max_clients s}"
      using so free unfolding slots_ok_def by metis+
    then show ?thesis using so indexed_add [of "sv_active_slots s" "sv_slot_to_active s" slot] sl assms(6)
      by (auto simp: slots_ok_def f cc)
  qed
  moreover have "addresses_ok s'"
  proof -
    have ok: "hm_ok (sv_address_to_slot s)" using ad by (simp add: addresses_ok_def)
    have "j \<in> set (sv_active_slots s') \<and> address_bytes (cn_address (conn s' j)) = k" if "hm_find k (sv_address_to_slot s') = Some j" for k j
    proof -
      have "k = address_bytes src \<and> j = slot \<or> hm_find k (sv_address_to_slot s) = Some j"
        using hm_insert_cases [OF ok, of "address_bytes src" slot] that unfolding f by (metis option.inject)
      then show ?thesis using ad sl sub [of j] assms(7) cc [of j] by (auto simp: addresses_ok_def f)
    qed
    then show ?thesis using hm.insert_ok [OF ok] by (simp add: addresses_ok_def f)
  qed
  moreover have "groups_ok s'" using gr by (auto simp: groups_ok_def f)
  moreover have "conns_ok s'"
  proof -
    have new: "cn_client_id (conn s j) \<noteq> cn_client_id c" if "j \<in> set (sv_active_slots s)" for j
    proof -
      have "conn s j \<in> set (take (sv_max_clients s) (sv_connections s))" "cn_active (conn s j)"
        using that sub [OF that] so by (auto simp: slots_ok_def)
      then show ?thesis using assms(5) by (auto simp: known_client_def list_ex_iff)
    qed
    show ?thesis using cn sub sl assms(6,8) new new [THEN not_sym] by (auto simp: conns_ok_def f cc inj_on_def)
  qed
  ultimately have "server_ok s'" using assms(2) by (simp add: server_ok_def f)
  then show ?thesis by (simp add: s'_def)
qed

lemma peer_init_subsystems:
  "cn_active (init_subsystems al fill cfgs n t c) = cn_active c" "cn_address (init_subsystems al fill cfgs n t c) = cn_address c"
  "cn_client_id (init_subsystems al fill cfgs n t c) = cn_client_id c"
  "cn_data (init_subsystems al fill cfgs n t c) = None \<Longrightarrow> cn_num_channels (init_subsystems al fill cfgs n t c) = cn_num_channels c"
  by (auto simp: init_subsystems_def Let_def)

lemma establish_ok:
  assumes "server_ok s" and "sv_running s" and "sv_free_slots s \<noteq> []" and "\<not> known_client (tok_client_id priv) s"
  shows "server_ok (snd (establish env (last (sv_free_slots s)) src priv s)) \<and> sv_running (snd (establish env (last (sv_free_slots s)) src priv s))"
proof -
  define slot where "slot = last (sv_free_slots s)"
  define c0 where "c0 = accept_connection slot src priv (conn s slot)"
  define c1 where "c1 = init_subsystems (se_alloc env c0) (se_fill env) (cfg_channels (sv_config s)) (cfg_num_channels (sv_config s)) (sv_current_time s) c0"
  obtain r c2 where k: "accept_keepalive (se_enc env) (sv_protocol_id s) (sv_current_time s) slot (sv_max_clients s) c1 = (r, c2)" by fastforce
  have so: "slots_ok s" and cn: "conns_ok s" using assms(1,2) by (auto simp: server_ok_def)
  have "slot < sv_max_clients s" "slot \<notin> set (sv_active_slots s)"
    using so assms(3) last_in_set [OF assms(3)] unfolding slots_ok_def slot_def by auto
  then have "cn_num_channels (conn s slot) = 0" using so cn by (simp add: slots_ok_def conns_ok_def)
  then have c1: "cn_active c1" "cn_address c1 = src" "cn_client_id c1 = tok_client_id priv" "cn_data c1 = None \<longrightarrow> cn_num_channels c1 = 0"
    by (auto simp: c1_def peer_init_subsystems c0_def accept_connection_def)
  have "peer c2 = peer c1" using peer_keepalive(2) k by (metis snd_conv)
  then have "server_ok (upd_conn slot (\<lambda>_. c2) (claim_slot slot src s))"
    using c1 assms by (intro claim_slot_ok) (auto simp: peer_def slot_def)
  moreover have "sv_running (upd_conn slot (\<lambda>_. c2) (claim_slot slot src s))" using assms(2) by (simp add: upd_conn_def claim_slot_def split_beta Let_def)
  ultimately show ?thesis
    by (cases r) (simp_all add: establish_def Let_def k split_beta flip: slot_def c0_def c1_def)
qed

lemma connection_request_ok:
  assumes "server_ok s" and "sv_running s"
  shows "server_ok (snd (server_handle_connection_request env src packet s)) \<and> sv_running (snd (server_handle_connection_request env src packet s))"
proof (cases "open_request env packet s")
  case None
  then show ?thesis using assms by (simp add: server_handle_connection_request_def)
next
  case (Some priv)
  let ?s1 = "s\<lparr>sv_fingerprints := snd (hm_insert (fingerprint_key env packet s) \<lparr>fv_address = src, fv_expire_time = of_le (read_at 22 8 packet)\<rparr> (sv_fingerprints s))\<rparr>"
  have "known_client cid ?s1 = known_client cid s" for cid by (simp add: known_client_def)
  then show ?thesis using Some assms establish_ok [of ?s1 priv env src]
    by (simp add: server_handle_connection_request_def Let_def)
qed

lemma data_packet_ok:
  assumes "server_ok s" and "sv_running s" and "slot \<in> set (sv_active_slots s)"
    and "server_handle_data_packet env slot packet s = Some (ev, s')"
  shows "server_ok s' \<and> sv_running s'"
proof -
  obtain res c where h: "server_handle_packet (se_dec env) (se_kdf env) (sv_protocol_id s) (sv_current_time s) packet (conn s slot) = (res, c)" by fastforce
  have "peer c = peer (conn s slot)" using peer_server_handle h by (metis snd_conv)
  then have u: "server_ok (upd_conn slot (\<lambda>_. c) s)" "sv_running (upd_conn slot (\<lambda>_. c) s)" "sv_active_slots (upd_conn slot (\<lambda>_. c) s) = sv_active_slots s"
    using assms(1,2) upd_conn_ok [of "\<lambda>_. c" s slot] by (simp_all add: upd_conn_def)
  have d: "server_ok s' \<and> sv_running s'" if "drop_client slot r (upd_conn slot (\<lambda>_. c) s) = Some (ev, s')" for r
    using drop_client_ok [OF u(1,2), of slot r] u(3) assms(3) that by auto
  show ?thesis using assms h u(1,2) d
    by (auto simp: server_handle_data_packet_def server_bad_packet_def split: packet_result.splits recv_outcome.splits)
qed

lemma lookup_slot_active:
  assumes "server_ok s" and "sv_running s" and "lookup_slot src data s = Some i"
  shows "i \<in> set (sv_active_slots s)"
proof -
  have so: "slots_ok s" and ad: "addresses_ok s" using assms(1,2) by (auto simp: server_ok_def)
  have "unat w < sv_max_clients s" if "w < (of_nat (sv_max_clients s) :: u16)" for w :: u16
  proof -
    have "unat w < unat (of_nat (sv_max_clients s) :: u16)" using that by (simp add: word_less_nat_alt)
    also have "\<dots> \<le> sv_max_clients s" by (simp add: unsigned_of_nat take_bit_nat_less_eq_self)
    finally show ?thesis .
  qed
  then show ?thesis using assms(3) so ad
    by (auto simp: lookup_slot_def Let_def slots_ok_def addresses_ok_def split: if_splits)
qed

lemma dispatch_ok:
  assumes "server_ok s" and "sv_running s" and "server_dispatch_packet env src data s = Some (ev, s')"
  shows "server_ok s' \<and> sv_running s'"
proof -
  have d: "server_ok s' \<and> sv_running s'" if "lookup_slot src data s = Some i" "server_handle_data_packet env i data s = Some (ev, s')" for i
    using data_packet_ok [OF assms(1,2)] lookup_slot_active [OF assms(1,2)] that by blast
  have r: "server_ok s' \<and> sv_running s'" if "server_handle_connection_request env src data s = (ev, s')"
    using connection_request_ok [OF assms(1,2), of env src data] that by simp
  show ?thesis using assms d r
    by (auto simp: server_dispatch_packet_def Let_def server_bad_packet_def split: if_splits option.splits)
qed

text \<open>Sequences of steps keep what every step keeps.\<close>

lemma srv_bind_keeps:
  assumes "srv_bind r f = Some (ev, s')" and "\<And>ev1 s1. r = Some (ev1, s1) \<Longrightarrow> P s1" and "\<And>s1 ev2 s2. P s1 \<Longrightarrow> f s1 = Some (ev2, s2) \<Longrightarrow> P s2"
  shows "P s'"
  using assms by (auto simp: srv_bind_def split: bind_splits)

lemma srv_each_keeps:
  assumes "srv_each f xs s = Some (ev, s')" and "P s" and "\<And>x s1 ev2 s2. P s1 \<Longrightarrow> f x s1 = Some (ev2, s2) \<Longrightarrow> P s2"
  shows "P s'"
  using assms(1,2)
proof (induction xs arbitrary: s ev s')
  case (Cons x xs)
  from Cons.prems(1) show ?case unfolding srv_each.simps
    by (rule srv_bind_keeps) (use Cons.IH Cons.prems(2) assms(3) in blast)+
qed simp

definition live :: "netudp_server \<Rightarrow> bool" where
  "live s \<longleftrightarrow> server_ok s \<and> sv_running s"

lemma receive_packet_ok: "live s \<Longrightarrow> receive_packet env time known p s = Some (ev, s') \<Longrightarrow> live s'"
  by (auto simp: receive_packet_def live_def Let_def split_beta server_bad_packet_def split: if_splits dest: dispatch_ok [rotated 2])

lemma drain_queue_ok: "live s \<Longrightarrow> drain_queue env time n s = Some (ev, s') \<Longrightarrow> live s'"
proof (induction n arbitrary: s ev s')
  case 0
  then show ?case by (auto simp: live_def split: option.splits)
next
  case (Suc n)
  show ?case
  proof (cases "sv_recv_queue s")
    case None
    then show ?thesis using Suc.prems by simp
  next
    case (Some q)
    obtain r q1 where q: "pq_pop q = (r, q1)" by fastforce
    have l: "live (s\<lparr>sv_recv_queue := Some q1\<rparr>)" using Suc.prems(1) by (simp add: live_def)
    show ?thesis
    proof (cases r)
      case None
      then show ?thesis using Suc.prems(2) l Some q by simp
    next
      case (Some p)
      then have "srv_bind (receive_packet env time True p (s\<lparr>sv_recv_queue := Some q1\<rparr>)) (drain_queue env time n) = Some (ev, s')"
        using Suc.prems(2) \<open>sv_recv_queue s = Some q\<close> q by simp
      then show ?thesis by (rule srv_bind_keeps) (use receive_packet_ok [OF l] Suc.IH in blast)+
    qed
  qed
qed

lemma timeout_loop_returns:
  assumes "live s"
  shows "\<exists>ev s'. timeout_loop time a evs s = Some (ev, s') \<and> live s'"
  using assms
proof (induction "length (sv_active_slots s) - a + length (sv_active_slots s)" arbitrary: s a evs rule: less_induct)
  case less
  show ?case
  proof (cases "a \<ge> length (sv_active_slots s)")
    case True
    then show ?thesis using less.prems by (subst timeout_loop.simps) auto
  next
    case False
    let ?i = "sv_active_slots s ! a"
    show ?thesis
    proof (cases "time - cn_last_recv_time (conn s ?i) > real (unat (cn_timeout_seconds (conn s ?i)))")
      case True
      have "?i \<in> set (sv_active_slots s)" using False by simp
      then obtain ev s' where d: "drop_client ?i (-4) s = Some (ev, s')" "live s'" "length (sv_active_slots s') < length (sv_active_slots s)"
        using drop_client_ok [of s ?i "-4"] less.prems by (auto simp: live_def)
      then have "\<exists>ev2 s2. timeout_loop time a (evs @ ev) s' = Some (ev2, s2) \<and> live s2" using False by (intro less.hyps) auto
      then show ?thesis using False True d(1) by (subst timeout_loop.simps) simp
    next
      case nt: False
      have "\<exists>ev2 s2. timeout_loop time (a + 1) evs s = Some (ev2, s2) \<and> live s2" using False less.prems by (intro less.hyps) auto
      then show ?thesis using False nt by (subst timeout_loop.simps) simp
    qed
  qed
qed

lemma process_connection_ok: "live s \<Longrightarrow> live (snd (process_connection env worker time dt i s))"
proof -
  assume l: "live s"
  define c where "c = conn s i"
  define c1 where "c1 = c\<lparr>cn_bandwidth := bandwidth_refill time (cn_bandwidth c), cn_budget := budget_refill dt (send_rate (cn_congestion c)) (cn_budget c)\<rparr>"
  obtain out c2 where p: "send_pending Server_side (se_enc env) (se_kdf env) (sv_protocol_id s) (sv_current_time s) c1 = (out, c2)" by fastforce
  obtain ka c3 where k: "(if time - cn_last_send_time c > 1 then server_keepalive (se_enc env) (sv_protocol_id s) (sv_current_time s) c2 else (None, c2)) = (ka, c3)" by fastforce
  obtain ev s1 where sp: "server_send_packets (cn_address c) (out @ (case ka of None \<Rightarrow> [] | Some p \<Rightarrow> [p])) s = (ev, s1)" by fastforce
  have "peer c2 = peer c1" using peer_send_pending p by (metis snd_conv)
  moreover have "peer c3 = peer c2" using k peer_keepalive(1) by (metis snd_conv)
  ultimately have p3: "peer (slow_tick st time c3) = peer (conn s i)" for st by (simp add: c1_def c_def)
  have s1: "server_ok s1" "sv_running s1" "sv_connections s1 = sv_connections s"
    using l send_packets_ok [of "cn_address c" "out @ (case ka of None \<Rightarrow> [] | Some p \<Rightarrow> [p])" s] sp by (simp_all add: live_def)
  have "live (upd_conn i (\<lambda>_. slow_tick True time c3) s1)"
    using s1 p3 upd_conn_ok [of "\<lambda>_. slow_tick True time c3" s1 i] by (simp add: live_def upd_conn_def)
  moreover have "live (upd_conn i (slow_tick (\<not> worker) time) s)" using l upd_conn_ok [of _ s i] by (simp add: live_def upd_conn_def)
  ultimately show ?thesis
    by (simp add: process_connection_def Let_def p [unfolded c1_def] k sp flip: c_def)
qed

lemma process_slots_ok: "live s \<Longrightarrow> live (snd (process_slots env worker time dt is s))"
  by (induction "is" arbitrary: s) (simp_all add: split_beta Let_def process_connection_ok)

lemma server_process_ok: "live s \<Longrightarrow> live (snd (server_process env time dt s))"
  using process_slots_ok by (simp add: server_process_def server_cleanup_def split_beta Let_def live_def)

lemma receive_packets_ok: "live s \<Longrightarrow> server_receive_packets env time primary extra s = Some (ev, s') \<Longrightarrow> live s'"
proof -
  assume l: "live s" and r: "server_receive_packets env time primary extra s = Some (ev, s')"
  show "live s'"
  proof (cases "sv_pipeline_mode s \<and> sv_recv_queue s \<noteq> None")
    case True
    then show ?thesis using r drain_queue_ok [OF l] by (simp add: server_receive_packets_def)
  next
    case False
    then have "srv_bind (srv_each (receive_packet env time True) primary s)
        (srv_each (receive_packet env time False) (concat (take (sv_num_io_threads s - 1) extra))) = Some (ev, s')"
      using r by (auto simp: server_receive_packets_def)
    then show ?thesis
      by (rule srv_bind_keeps) (use l receive_packet_ok in \<open>blast intro: srv_each_keeps [where P = live]\<close>)+
  qed
qed

lemma poll_sim_ok: "live s \<Longrightarrow> server_poll_sim env time s = Some (ev, s') \<Longrightarrow> live s'"
proof -
  assume l: "live s" and r: "server_poll_sim env time s = Some (ev, s')"
  obtain due sim where p: "sim_poll time (sv_sim s) = (due, sim)" by fastforce
  have l1: "live (s\<lparr>sv_sim := sim\<rparr>)" using l by (simp add: live_def)
  have d: "live s2" if "live s1" "server_dispatch_packet env src data s1 = Some (ev2, s2)" for src data s1 ev2 s2
    using dispatch_ok [of s1 env src data ev2 s2] that by (simp add: live_def)
  show "live s'"
  proof (cases "sv_sim_enabled s")
    case True
    then have "srv_each (\<lambda>p. server_dispatch_packet env (spk_from p) (spk_data p)) due (s\<lparr>sv_sim := sim\<rparr>) = Some (ev, s')"
      using r p by (simp add: server_poll_sim_def)
    then show ?thesis by (rule srv_each_keeps) (use l1 d in blast)+
  qed (use r l in \<open>simp add: server_poll_sim_def\<close>)
qed

lemma update_ok: "server_ok s \<Longrightarrow> netudp_server_update env time primary extra s = Some (ev, s') \<Longrightarrow> server_ok s'"
proof (cases "sv_running s")
  case False
  then show "server_ok s \<Longrightarrow> netudp_server_update env time primary extra s = Some (ev, s') \<Longrightarrow> server_ok s'"
    by (simp add: netudp_server_update_def)
next
  case True
  assume ok: "server_ok s" and r: "netudp_server_update env time primary extra s = Some (ev, s')"
  let ?dt = "time - sv_current_time s"
  let ?s1 = "s\<lparr>sv_current_time := time, sv_ddos := ddos_update ?dt (sv_ddos s)\<rparr>"
  have l: "live ?s1" using ok True by (simp add: live_def)
  have tl: "live s2" if "live s1" "timeout_loop time 0 [] s1 = Some (ev2, s2)" for s1 ev2 s2
    using timeout_loop_returns [OF that(1), of time 0 "[]"] that(2) by auto
  have rs: "live s3" if "srv_bind (srv_bind (server_receive_packets env time primary extra ?s1) (server_poll_sim env time)) (timeout_loop time 0 []) = Some (ev3, s3)" for ev3 s3
    using that
  proof (rule srv_bind_keeps)
    show "live s4" if "srv_bind (server_receive_packets env time primary extra ?s1) (server_poll_sim env time) = Some (ev4, s4)" for ev4 s4
      using that by (rule srv_bind_keeps) (use receive_packets_ok [OF l] poll_sim_ok in blast)+
  qed (use tl in blast)
  from r True have "srv_bind (srv_bind (srv_bind (server_receive_packets env time primary extra ?s1) (server_poll_sim env time)) (timeout_loop time 0 []))
      (\<lambda>s2. Some (server_process env time ?dt s2)) = Some (ev, s')"
    by (simp add: netudp_server_update_def Let_def)
  then have "live s'" by (rule srv_bind_keeps) (use rs server_process_ok in \<open>auto, metis snd_conv\<close>)
  then show "server_ok s'" by (simp add: live_def)
qed

lemma start_ok:
  assumes "server_ok s" and "\<not> sv_running s" and "netudp_server_start ma me mq junk n s = Some s'"
  shows "server_ok s'"
proof (cases "n \<le> 0")
  case True
  then show ?thesis using assms by (simp add: netudp_server_start_def)
next
  case False
  then have r: "sv_running s'" "sv_max_clients s' = nat n" "sv_connections s' = replicate (nat n) connection_new" "sv_active_slots s' = []"
    "sv_free_slots s' = rev [0..<nat n]" "sv_slot_to_active s' = replicate (nat n) (-1)" "sv_address_to_slot s' = sv_address_to_slot s"
    "\<exists>mg. sv_groups s' = replicate mg group_new \<and> sv_group_free s' = rev [0..<mg]"
    using assms(3) by (auto simp: netudp_server_start_def Let_def split: if_splits)
  then have "slots_ok s'" "groups_ok s'" "conns_ok s'"
    by (auto simp: slots_ok_def groups_ok_def conns_ok_def indexed_def connection_new_def group_new_def)
  moreover have "addresses_ok s'" using assms(1,2) by (simp add: addresses_ok_def r server_ok_def)
  ultimately show ?thesis using r(1) by (simp add: server_ok_def)
qed

lemma stop_ok: "server_ok s \<Longrightarrow> server_ok (netudp_server_stop s)"
proof -
  assume "server_ok s"
  then have "pow2_capacity (length (slots (sv_address_to_slot s)))" by (auto simp: server_ok_def addresses_ok_def split: if_splits)
  then show ?thesis by (simp add: server_ok_def netudp_server_stop_def hm_clear_def hm_new_ok)
qed

lemma create_ok: "netudp_server_create sock sim0 address config time = Some s \<Longrightarrow> server_ok s \<and> \<not> sv_running s"
proof -
  have "pow2_capacity 4096" using pow2_capacity_power [of 12] by simp
  then show "netudp_server_create sock sim0 address config time = Some s \<Longrightarrow> server_ok s \<and> \<not> sv_running s"
    by (auto simp: netudp_server_create_def Let_def server_ok_def hm_new_ok split: option.splits if_splits)
qed

end
