(* ===== verification/Server_Api.thy ===== *)
theory Server_Api
  imports Server_Inv
begin

text \<open>
  The server's interface to the application: sending, receiving, broadcasting, groups, and the replication of
  entities (\<^verbatim>\<open>server.cpp\<close>). The results of the C functions are values of \<^verbatim>\<open>api_code\<close>.
\<close>

section \<open>Sending and receiving\<close>

datatype api_code = Api_ok | Api_not_initialized | Api_invalid_param | Api_not_connected | Api_no_buffers

definition server_send_pending :: "server_env \<Rightarrow> nat \<Rightarrow> netudp_server \<Rightarrow> srv_event list \<times> netudp_server" where
  "server_send_pending env i s =
     (let (out, c) = send_pending Server_side (se_enc env) (se_kdf env) (sv_protocol_id s) (sv_current_time s) (conn s i);
          (ev, s1) = server_send_packets (cn_address (conn s i)) out s
      in (ev, upd_conn i (\<lambda>_. c) s1))"

definition channel_of :: "netudp_server \<Rightarrow> nat \<Rightarrow> nat \<Rightarrow> Channel" where
  "channel_of s i ch = cd_channels (cdata (conn s i)) ! ch"

text \<open>A queued message marks its channel as pending and starts the channel's timer.\<close>

definition queued :: "nat \<Rightarrow> nat \<Rightarrow> Channel \<Rightarrow> netudp_server \<Rightarrow> netudp_server" where
  "queued i ch c s =
     upd_conn i (\<lambda>k. upd_channel ch (\<lambda>_. start_nagle (sv_current_time s) c) (k\<lparr>cn_pending_mask := cn_pending_mask k OR push_bit ch 1\<rparr>)) s"

definition netudp_server_send ::
    "server_env \<Rightarrow> int \<Rightarrow> int \<Rightarrow> byte list \<Rightarrow> u32 \<Rightarrow> netudp_server \<Rightarrow> api_code \<times> srv_event list \<times> netudp_server" where
  "netudp_server_send env client_index channel data flags s =
     (let i = nat client_index; ch = nat channel
      in if \<not> sv_running s then (Api_not_initialized, [], s)
         else if client_index < 0 \<or> client_index \<ge> int (sv_max_clients s) then (Api_invalid_param, [], s)
         else if \<not> cn_active (conn s i) then (Api_not_connected, [], s)
         else if channel < 0 \<or> channel \<ge> int (cn_num_channels (conn s i)) then (Api_invalid_param, [], s)
         else case queue_send data flags (channel_of s i ch) of
                (False, c) \<Rightarrow> (Api_no_buffers, [], upd_conn i (upd_channel ch (\<lambda>_. c)) s)
              | (True, c) \<Rightarrow>
                  let s1 = queued i ch c s
                  in if flags AND NETUDP_SEND_NO_DELAY \<noteq> 0 then
                       (Api_ok, server_send_pending env i (upd_conn i (upd_channel ch channel_flush) s1))
                     else (Api_ok, [], s1))"

definition netudp_server_send_state :: "int \<Rightarrow> int \<Rightarrow> u16 \<Rightarrow> byte list \<Rightarrow> netudp_server \<Rightarrow> api_code \<times> netudp_server" where
  "netudp_server_send_state client_index channel entity_id data s =
     (let i = nat client_index; ch = nat channel
      in if \<not> sv_running s then (Api_not_initialized, s)
         else if client_index < 0 \<or> client_index \<ge> int (sv_max_clients s) then (Api_invalid_param, s)
         else if \<not> cn_active (conn s i) then (Api_not_connected, s)
         else if channel < 0 \<or> channel \<ge> int (cn_num_channels (conn s i)) then (Api_invalid_param, s)
         else if is_reliable (cc_type (ch_config (channel_of s i ch))) then (Api_invalid_param, s)
         else case queue_send_state data 0 entity_id (channel_of s i ch) of
                (False, c) \<Rightarrow> (Api_no_buffers, upd_conn i (upd_channel ch (\<lambda>_. c)) s)
              | (True, c) \<Rightarrow> (Api_ok, queued i ch c s))"

fun srv_fold :: "('a \<Rightarrow> netudp_server \<Rightarrow> srv_event list \<times> netudp_server) \<Rightarrow> 'a list \<Rightarrow> netudp_server \<Rightarrow> srv_event list \<times> netudp_server" where
  "srv_fold f [] s = ([], s)"
| "srv_fold f (x # xs) s = (let (ev1, s1) = f x s; (ev2, s2) = srv_fold f xs s1 in (ev1 @ ev2, s2))"

text \<open>The number of channels of the message that the application receives, with the client it came from.\<close>

record netudp_message =
  msg_data :: "byte list"
  msg_channel :: nat
  msg_client_index :: nat
  msg_number :: u16

text \<open>
  Messages whose first byte has a handler go to it. \<^verbatim>\<open>mem\<close> says whether the message object can be allocated; if not,
  the message is lost and the loop ends. The loop ends because every round takes a message from the queue.
\<close>

function receive_loop ::
    "(nat \<Rightarrow> bool) \<Rightarrow> bool list \<Rightarrow> nat \<Rightarrow> nat \<Rightarrow> nat \<Rightarrow> DeliveredMessage FixedRingBuffer \<Rightarrow>
     netudp_message list \<times> srv_event list \<times> DeliveredMessage FixedRingBuffer" where
  "receive_loop mem handlers i n max_messages q =
     (if n \<ge> max_messages \<or> rb_size q = 0 then ([], [], q)
      else case pop_front no_delivered q of
             (None, q1) \<Rightarrow> ([], [], q1)
           | (Some m, q1) \<Rightarrow>
               if \<not> dm_valid m then receive_loop mem handlers i n max_messages q1
               else if dm_data m \<noteq> [] \<and> handlers ! unat (hd (dm_data m)) then
                 let (ms, ev, q2) = receive_loop mem handlers i n max_messages q1
                 in (ms, On_packet i (dm_data m) (dm_channel m) # ev, q2)
               else if \<not> mem n then ([], [], q1)
               else let (ms, ev, q2) = receive_loop mem handlers i (n + 1) max_messages q1
                    in (\<lparr>msg_data = dm_data m, msg_channel = dm_channel m, msg_client_index = i, msg_number = dm_sequence m\<rparr> # ms, ev, q2))"
  by pat_completeness auto
termination
  by (relation "measure (\<lambda>(mem, handlers, i, n, max_messages, q). rb_size q)") (auto simp: pop_front_def split: if_splits)

declare receive_loop.simps [simp del]

definition netudp_server_receive ::
    "(nat \<Rightarrow> bool) \<Rightarrow> int \<Rightarrow> nat \<Rightarrow> netudp_server \<Rightarrow> (netudp_message list \<times> srv_event list \<times> netudp_server) option" where
  "netudp_server_receive mem client_index max_messages s =
     (let i = nat client_index
      in if \<not> sv_running s \<or> client_index < 0 \<or> client_index \<ge> int (sv_max_clients s) \<or> \<not> cn_active (conn s i) then Some ([], [], s)
         else case cn_data (conn s i) of
                None \<Rightarrow> if max_messages = 0 then Some ([], [], s) else None
              | Some d \<Rightarrow>
                  let (ms, ev, q) = receive_loop mem (sv_handlers s) i 0 max_messages (cd_delivered d)
                  in Some (ms, ev, upd_conn i (upd_data (\<lambda>d. d\<lparr>cd_delivered := q\<rparr>)) s))"

fun receive_slots ::
    "(nat \<Rightarrow> bool) \<Rightarrow> nat list \<Rightarrow> nat \<Rightarrow> netudp_server \<Rightarrow> (netudp_message list \<times> srv_event list \<times> netudp_server) option" where
  "receive_slots mem [] room s = Some ([], [], s)"
| "receive_slots mem (i # is) room s =
     (if room = 0 then Some ([], [], s)
      else case netudp_server_receive mem (int i) room s of None \<Rightarrow> None
           | Some (ms, ev, s1) \<Rightarrow>
               (case receive_slots mem is (room - length ms) s1 of None \<Rightarrow> None
                | Some (ms2, ev2, s2) \<Rightarrow> Some (ms @ ms2, ev @ ev2, s2)))"

definition netudp_server_receive_batch ::
    "(nat \<Rightarrow> bool) \<Rightarrow> int \<Rightarrow> netudp_server \<Rightarrow> (netudp_message list \<times> srv_event list \<times> netudp_server) option" where
  "netudp_server_receive_batch mem max_messages s =
     (if max_messages \<le> 0 then Some ([], [], s) else receive_slots mem (sv_active_slots s) (nat max_messages) s)"

definition netudp_server_broadcast :: "server_env \<Rightarrow> int \<Rightarrow> byte list \<Rightarrow> u32 \<Rightarrow> netudp_server \<Rightarrow> srv_event list \<times> netudp_server" where
  "netudp_server_broadcast env channel data flags s =
     (if \<not> sv_running s then ([], s)
      else srv_fold (\<lambda>i s. snd (netudp_server_send env (int i) channel data flags s)) (sv_active_slots s) s)"

definition netudp_server_broadcast_except ::
    "server_env \<Rightarrow> int \<Rightarrow> int \<Rightarrow> byte list \<Rightarrow> u32 \<Rightarrow> netudp_server \<Rightarrow> srv_event list \<times> netudp_server" where
  "netudp_server_broadcast_except env except_client channel data flags s =
     (if \<not> sv_running s then ([], s)
      else srv_fold (\<lambda>i s. if int i = except_client then ([], s) else snd (netudp_server_send env (int i) channel data flags s))
             (sv_active_slots s) s)"

definition netudp_server_flush :: "server_env \<Rightarrow> int \<Rightarrow> netudp_server \<Rightarrow> srv_event list \<times> netudp_server" where
  "netudp_server_flush env client_index s =
     (let i = nat client_index
      in if \<not> sv_running s \<or> client_index < 0 \<or> client_index \<ge> int (sv_max_clients s) \<or> \<not> cn_active (conn s i) then ([], s)
         else server_send_pending env i (upd_conn i (\<lambda>c. fold (\<lambda>ch. upd_channel ch channel_flush) [0..<cn_num_channels c] c) s))"

definition netudp_server_set_packet_handler :: "nat \<Rightarrow> bool \<Rightarrow> netudp_server \<Rightarrow> netudp_server" where
  "netudp_server_set_packet_handler packet_type handler s =
     (if packet_type > 255 then s else s\<lparr>sv_handlers := (sv_handlers s)[packet_type := handler]\<rparr>)"

section \<open>Groups\<close>

definition netudp_group_create :: "netudp_server \<Rightarrow> int \<times> netudp_server" where
  "netudp_group_create s =
     (if \<not> sv_running s \<or> sv_group_free s = [] then (-1, s)
      else let idx = last (sv_group_free s)
           in (int idx, s\<lparr>sv_group_free := butlast (sv_group_free s),
                 sv_groups := (sv_groups s)[idx := group_init (int idx) (sv_max_clients s) (min (sv_max_clients s) kMaxGroupMembers)]\<rparr>))"

definition group_index :: "int \<Rightarrow> netudp_server \<Rightarrow> nat option" where
  "group_index gid s = (if gid < 0 \<or> gid \<ge> int (length (sv_groups s)) then None else Some (nat gid))"

definition active_group :: "int \<Rightarrow> netudp_server \<Rightarrow> nat option" where
  "active_group gid s = (case group_index gid s of None \<Rightarrow> None | Some g \<Rightarrow> if gr_active (sv_groups s ! g) then Some g else None)"

definition netudp_group_destroy :: "int \<Rightarrow> netudp_server \<Rightarrow> netudp_server" where
  "netudp_group_destroy gid s =
     (case active_group gid s of None \<Rightarrow> s
      | Some g \<Rightarrow> s\<lparr>sv_groups := (sv_groups s)[g := group_reset (sv_groups s ! g)], sv_group_free := sv_group_free s @ [g]\<rparr>)"

definition netudp_group_add :: "int \<Rightarrow> int \<Rightarrow> netudp_server \<Rightarrow> (api_code \<times> netudp_server) option" where
  "netudp_group_add gid client_index s =
     (case active_group gid s of None \<Rightarrow> Some (Api_invalid_param, s)
      | Some g \<Rightarrow>
          if client_index < 0 \<or> client_index \<ge> int (sv_max_clients s) then Some (Api_invalid_param, s)
          else if \<not> cn_active (conn s (nat client_index)) then Some (Api_not_connected, s)
          else map_option (\<lambda>(b, gr). (if b then Api_ok else Api_no_buffers, s\<lparr>sv_groups := (sv_groups s)[g := gr]\<rparr>))
                 (group_add client_index (sv_groups s ! g)))"

definition netudp_group_remove :: "int \<Rightarrow> int \<Rightarrow> netudp_server \<Rightarrow> (api_code \<times> netudp_server) option" where
  "netudp_group_remove gid client_index s =
     (case active_group gid s of None \<Rightarrow> Some (Api_invalid_param, s)
      | Some g \<Rightarrow>
          map_option (\<lambda>(b, gr). (if b then Api_ok else Api_invalid_param, s\<lparr>sv_groups := (sv_groups s)[g := gr]\<rparr>))
            (group_remove client_index (sv_groups s ! g)))"

definition netudp_group_count :: "int \<Rightarrow> netudp_server \<Rightarrow> nat" where
  "netudp_group_count gid s = (case active_group gid s of None \<Rightarrow> 0 | Some g \<Rightarrow> length (gr_members (sv_groups s ! g)))"

definition netudp_group_has :: "int \<Rightarrow> int \<Rightarrow> netudp_server \<Rightarrow> bool option" where
  "netudp_group_has gid client_index s =
     (case group_index gid s of None \<Rightarrow> Some False | Some g \<Rightarrow> group_has client_index (sv_groups s ! g))"

definition netudp_group_send :: "server_env \<Rightarrow> int \<Rightarrow> int \<Rightarrow> byte list \<Rightarrow> u32 \<Rightarrow> netudp_server \<Rightarrow> srv_event list \<times> netudp_server" where
  "netudp_group_send env gid channel data flags s =
     (case (sv_running s, active_group gid s) of
        (True, Some g) \<Rightarrow> srv_fold (\<lambda>i s. snd (netudp_server_send env (int i) channel data flags s)) (gr_members (sv_groups s ! g)) s
      | _ \<Rightarrow> ([], s))"

definition netudp_group_send_except ::
    "server_env \<Rightarrow> int \<Rightarrow> int \<Rightarrow> int \<Rightarrow> byte list \<Rightarrow> u32 \<Rightarrow> netudp_server \<Rightarrow> srv_event list \<times> netudp_server" where
  "netudp_group_send_except env gid except_client channel data flags s =
     (case (sv_running s, active_group gid s) of
        (True, Some g) \<Rightarrow>
          srv_fold (\<lambda>i s. if int i = except_client then ([], s) else snd (netudp_server_send env (int i) channel data flags s))
            (gr_members (sv_groups s ! g)) s
      | _ \<Rightarrow> ([], s))"

definition netudp_group_send_state :: "int \<Rightarrow> int \<Rightarrow> u16 \<Rightarrow> byte list \<Rightarrow> netudp_server \<Rightarrow> netudp_server" where
  "netudp_group_send_state gid channel entity_id data s =
     (case (sv_running s, active_group gid s) of
        (True, Some g) \<Rightarrow> fold (\<lambda>i s. snd (netudp_server_send_state (int i) channel entity_id data s)) (gr_members (sv_groups s ! g)) s
      | _ \<Rightarrow> s)"

section \<open>Entities and their replication\<close>

definition find_entity :: "u16 \<Rightarrow> netudp_server \<Rightarrow> nat option" where
  "find_entity eid s =
     (if eid = 0 then None else List.find (\<lambda>i. en_active (sv_entities s ! i) \<and> en_entity_id (sv_entities s ! i) = eid) [0..<length (sv_entities s)])"

definition netudp_schema_create :: "netudp_server \<Rightarrow> int \<times> netudp_server" where
  "netudp_schema_create s =
     (if sv_schema_count s \<ge> kMaxSchemas then (-1, s)
      else (int (sv_schema_count s),
            s\<lparr>sv_schemas := (sv_schemas s)[sv_schema_count s := schema_new\<lparr>sc_id := int (sv_schema_count s)\<rparr>],
              sv_schema_count := sv_schema_count s + 1\<rparr>))"

definition netudp_schema_destroy :: "int \<Rightarrow> netudp_server \<Rightarrow> netudp_server" where
  "netudp_schema_destroy sid s =
     (if sid < 0 \<or> sid \<ge> int (sv_schema_count s) then s else s\<lparr>sv_schemas := (sv_schemas s)[nat sid := schema_new]\<rparr>)"

text \<open>One function per type of property in the interface; the capacity matters for byte arrays only.\<close>

definition netudp_schema_add :: "PropType \<Rightarrow> int \<Rightarrow> string \<Rightarrow> int \<Rightarrow> u16 \<Rightarrow> netudp_server \<Rightarrow> int \<times> netudp_server" where
  "netudp_schema_add ty sid name max_bytes flags s =
     (if sid < 0 \<or> sid \<ge> int (sv_schema_count s) \<or> ty = BLOB \<and> max_bytes \<le> 0 then (-1, s)
      else let cap = (if ty = BLOB then nat max_bytes else 0);
               (idx, sch) = add_prop name ty flags (type_size ty cap) (quantized_size ty cap) cap (sv_schemas s ! nat sid)
           in (idx, s\<lparr>sv_schemas := (sv_schemas s)[nat sid := sch]\<rparr>))"

definition netudp_entity_create :: "int \<Rightarrow> netudp_server \<Rightarrow> u16 \<times> netudp_server" where
  "netudp_entity_create schema_id s =
     (if schema_id < 0 \<or> schema_id \<ge> int (sv_schema_count s) then (0, s)
      else if sc_id (sv_schemas s ! nat schema_id) < 0 then (0, s)
      else case List.find (\<lambda>i. \<not> en_active (sv_entities s ! i)) [0..<length (sv_entities s)] of
             None \<Rightarrow> (0, s)
           | Some i \<Rightarrow>
               let eid = sv_next_entity_id s;
                   e = (entity_reset (sv_entities s ! i))\<lparr>en_active := True, en_entity_id := eid, en_schema_id := schema_id, en_schema := Some (nat schema_id)\<rparr>
               in (eid, s\<lparr>sv_entities := (sv_entities s)[i := e], sv_next_entity_id := (if eid + 1 = 0 then 1 else eid + 1)\<rparr>))"

definition upd_entity :: "(Entity \<Rightarrow> Entity) \<Rightarrow> u16 \<Rightarrow> netudp_server \<Rightarrow> netudp_server" where
  "upd_entity f eid s =
     (case find_entity eid s of None \<Rightarrow> s | Some i \<Rightarrow> s\<lparr>sv_entities := (sv_entities s)[i := f (sv_entities s ! i)]\<rparr>)"

definition netudp_entity_destroy :: "u16 \<Rightarrow> netudp_server \<Rightarrow> netudp_server" where
  "netudp_entity_destroy = upd_entity entity_reset"

definition netudp_entity_set_group :: "int \<Rightarrow> u16 \<Rightarrow> netudp_server \<Rightarrow> netudp_server" where
  "netudp_entity_set_group gid = upd_entity (\<lambda>e. e\<lparr>en_group_id := gid\<rparr>)"

definition netudp_entity_set_owner :: "int \<Rightarrow> u16 \<Rightarrow> netudp_server \<Rightarrow> netudp_server" where
  "netudp_entity_set_owner client = upd_entity (\<lambda>e. e\<lparr>en_owner_client := client\<rparr>)"

definition netudp_entity_set_priority :: "byte \<Rightarrow> u16 \<Rightarrow> netudp_server \<Rightarrow> netudp_server" where
  "netudp_entity_set_priority p = upd_entity (\<lambda>e. e\<lparr>en_priority := p\<rparr>)"

definition netudp_entity_set_max_rate :: "real \<Rightarrow> u16 \<Rightarrow> netudp_server \<Rightarrow> netudp_server" where
  "netudp_entity_set_max_rate hz = upd_entity (\<lambda>e. e\<lparr>en_max_rate_hz := hz\<rparr>)"

definition schema_of :: "netudp_server \<Rightarrow> Entity \<Rightarrow> Schema option" where
  "schema_of s e = map_option ((!) (sv_schemas s)) (en_schema e)"

text \<open>The typed setters: \<^verbatim>\<open>f\<close> is the setter of the entity.\<close>

definition netudp_entity_set :: "(Schema option \<Rightarrow> Entity \<Rightarrow> (bool \<times> Entity) option) \<Rightarrow> u16 \<Rightarrow> netudp_server \<Rightarrow> (api_code \<times> netudp_server) option" where
  "netudp_entity_set f eid s =
     (case find_entity eid s of None \<Rightarrow> Some (Api_invalid_param, s)
      | Some i \<Rightarrow>
          map_option (\<lambda>(b, e). (if b then Api_ok else Api_invalid_param, s\<lparr>sv_entities := (sv_entities s)[i := e]\<rparr>))
            (f (schema_of s (sv_entities s ! i)) (sv_entities s ! i)))"

definition netudp_entity_set_u8 :: "u16 \<Rightarrow> int \<Rightarrow> byte \<Rightarrow> netudp_server \<Rightarrow> (api_code \<times> netudp_server) option" where
  "netudp_entity_set_u8 eid px val = netudp_entity_set (\<lambda>sch. set_u8 sch px val) eid"

definition netudp_entity_set_u16 :: "u16 \<Rightarrow> int \<Rightarrow> u16 \<Rightarrow> netudp_server \<Rightarrow> (api_code \<times> netudp_server) option" where
  "netudp_entity_set_u16 eid px val = netudp_entity_set (\<lambda>sch. set_u16 sch px val) eid"

definition netudp_entity_set_i32 :: "u16 \<Rightarrow> int \<Rightarrow> u32 \<Rightarrow> netudp_server \<Rightarrow> (api_code \<times> netudp_server) option" where
  "netudp_entity_set_i32 eid px val = netudp_entity_set (\<lambda>sch. set_i32 sch px val) eid"

definition netudp_entity_set_f32 :: "u16 \<Rightarrow> int \<Rightarrow> u32 \<Rightarrow> netudp_server \<Rightarrow> (api_code \<times> netudp_server) option" where
  "netudp_entity_set_f32 eid px val = netudp_entity_set (\<lambda>sch. set_f32 sch px val) eid"

definition netudp_entity_set_vec3 :: "u16 \<Rightarrow> int \<Rightarrow> u32 list \<Rightarrow> netudp_server \<Rightarrow> (api_code \<times> netudp_server) option" where
  "netudp_entity_set_vec3 eid px v = netudp_entity_set (\<lambda>sch. set_vec3 sch px v) eid"

definition netudp_entity_set_quat :: "u16 \<Rightarrow> int \<Rightarrow> u32 list \<Rightarrow> netudp_server \<Rightarrow> (api_code \<times> netudp_server) option" where
  "netudp_entity_set_quat eid px q = netudp_entity_set (\<lambda>sch. set_quat sch px q) eid"

definition netudp_entity_set_blob :: "u16 \<Rightarrow> int \<Rightarrow> byte list \<Rightarrow> netudp_server \<Rightarrow> (api_code \<times> netudp_server) option" where
  "netudp_entity_set_blob eid px data = netudp_entity_set (\<lambda>sch. set_blob sch px data) eid"

text \<open>Whether an entity is held back in this tick.\<close>

definition rate_limited :: "real \<Rightarrow> Entity \<Rightarrow> bool" where
  "rate_limited now e \<longleftrightarrow>
     \<not> en_needs_initial e \<and> en_max_rate_hz e > 0
     \<and> now - en_last_replicate_time e < 1 / en_max_rate_hz e \<and> now - en_last_replicate_time e < en_min_update_interval e"

definition any_reliable :: "Schema \<Rightarrow> Entity \<Rightarrow> bool" where
  "any_reliable sch e \<longleftrightarrow>
     list_ex (\<lambda>i. in_mask (en_dirty_mask e) i \<and> rep_has_flag (pd_rep_flags (sc_props sch ! i)) REP_RELIABLE) [0..<length (sc_props sch)]"

definition reliable_channel :: "nat \<Rightarrow> netudp_server \<Rightarrow> nat" where
  "reliable_channel client s =
     (case List.find (\<lambda>ci. is_reliable (cc_type (ch_config (channel_of s client ci)))) [0..<cn_num_channels (conn s client)] of
        None \<Rightarrow> 0 | Some ci \<Rightarrow> ci)"

definition replicate_to :: "server_env \<Rightarrow> Schema \<Rightarrow> Entity \<Rightarrow> bool \<Rightarrow> nat \<Rightarrow> nat \<Rightarrow> netudp_server \<Rightarrow> srv_result" where
  "replicate_to env sch e reliable channel client s =
     (case replicate_serialize (Some sch) e (int kEntityMaxValueSize + 32) (int client) (en_needs_initial e) of
        Ser_undefined \<Rightarrow> None
      | Ser_error \<Rightarrow> Some ([], s)
      | Ser_bytes w \<Rightarrow>
          if w = [] then Some ([], s)
          else if reliable then Some (snd (netudp_server_send env (int client) (int channel) w 0 s))
          else Some ([], snd (netudp_server_send_state (int client) (int channel) (en_entity_id e) w s)))"

definition replicate_entity :: "server_env \<Rightarrow> nat \<Rightarrow> netudp_server \<Rightarrow> srv_result" where
  "replicate_entity env ei s =
     (let e = sv_entities s ! ei; set_e = (\<lambda>e' s. s\<lparr>sv_entities := (sv_entities s)[ei := e']\<rparr>)
      in case schema_of s e of None \<Rightarrow> Some ([], s)
         | Some sch \<Rightarrow>
             if \<not> en_active e \<or> en_dirty_mask e = 0 \<and> \<not> en_needs_initial e then Some ([], s)
             else case group_index (en_group_id e) s of None \<Rightarrow> Some ([], s)
               | Some g \<Rightarrow>
                   if rate_limited (sv_current_time s) e then Some ([], s)
                   else let grp = sv_groups s ! g
                        in if \<not> gr_active grp \<or> gr_members grp = [] then Some ([], set_e (e\<lparr>en_dirty_mask := 0, en_needs_initial := False\<rparr>) s)
                           else let reliable = any_reliable sch e;
                                    channel = (if reliable then reliable_channel (hd (gr_members grp)) s else 0)
                                in map_option (\<lambda>(ev, s1). (ev, set_e (e\<lparr>en_dirty_mask := 0, en_needs_initial := False, en_last_replicate_time := sv_current_time s\<rparr>) s1))
                                     (srv_each (replicate_to env sch e reliable channel) (gr_members grp) s))"

definition netudp_server_replicate :: "server_env \<Rightarrow> netudp_server \<Rightarrow> srv_result" where
  "netudp_server_replicate env s =
     (if \<not> sv_running s then Some ([], s) else srv_each (replicate_entity env) [0..<length (sv_entities s)] s)"

section \<open>The interface keeps the invariant\<close>

lemma upd_conn_peer_ok: "(\<And>c. peer (f c) = peer c) \<Longrightarrow> server_ok (upd_conn i f s) = server_ok s"
  by (rule upd_conn_ok) blast

lemma server_send_pending_ok [simp]: "server_ok (snd (server_send_pending env i s)) = server_ok s"
proof -
  obtain out c where p: "send_pending Server_side (se_enc env) (se_kdf env) (sv_protocol_id s) (sv_current_time s) (conn s i) = (out, c)" by fastforce
  obtain ev s1 where q: "server_send_packets (cn_address (conn s i)) out s = (ev, s1)" by fastforce
  have "server_ok s1 = server_ok s" "sv_connections s1 = sv_connections s"
    using send_packets_ok(1,3) [of "cn_address (conn s i)" out s] q by simp_all
  moreover have "peer c = peer (conn s i)" using peer_send_pending p by (metis snd_conv)
  ultimately show ?thesis using upd_conn_ok [of "\<lambda>_. c" s1 i] by (simp add: server_send_pending_def p q)
qed

lemma peer_fold_flush [simp]: "peer (fold (\<lambda>ch. upd_channel ch channel_flush) chs c) = peer c"
  by (induction chs arbitrary: c) simp_all

lemma queued_ok [simp]: "server_ok (queued i ch c s) = server_ok s"
  by (simp add: queued_def upd_conn_peer_ok)

lemma send_ok [simp]: "server_ok (snd (snd (netudp_server_send env ci channel data flags s))) = server_ok s"
  by (simp add: netudp_server_send_def Let_def upd_conn_peer_ok split: prod.split bool.split)

lemma send_state_ok [simp]: "server_ok (snd (netudp_server_send_state ci channel eid data s)) = server_ok s"
  by (simp add: netudp_server_send_state_def Let_def upd_conn_peer_ok split: prod.split bool.split)

lemma srv_fold_ok: "(\<And>x s. server_ok (snd (f x s)) = server_ok s) \<Longrightarrow> server_ok (snd (srv_fold f xs s)) = server_ok s"
  by (induction xs arbitrary: s) (simp_all add: split_beta Let_def)

lemma broadcast_ok [simp]:
  "server_ok (snd (netudp_server_broadcast env channel data flags s)) = server_ok s"
  "server_ok (snd (netudp_server_broadcast_except env ex channel data flags s)) = server_ok s"
  "server_ok (snd (netudp_group_send env gid channel data flags s)) = server_ok s"
  "server_ok (snd (netudp_group_send_except env gid ex channel data flags s)) = server_ok s"
  by (auto simp: netudp_server_broadcast_def netudp_server_broadcast_except_def netudp_group_send_def netudp_group_send_except_def srv_fold_ok
      split: option.split bool.split)

lemma flush_ok [simp]: "server_ok (snd (netudp_server_flush env ci s)) = server_ok s"
  by (simp add: netudp_server_flush_def Let_def upd_conn_peer_ok)

lemma receive_ok: "netudp_server_receive mem ci n s = Some (ms, ev, s') \<Longrightarrow> server_ok s' = server_ok s"
  by (auto simp: netudp_server_receive_def Let_def upd_conn_peer_ok split_beta split: if_splits option.splits)

lemma receive_slots_ok: "receive_slots mem is n s = Some (ms, ev, s') \<Longrightarrow> server_ok s' = server_ok s"
  by (induction "is" arbitrary: n s ms ev) (auto dest!: receive_ok split: if_splits option.splits)

lemma group_send_state_ok [simp]: "server_ok (netudp_group_send_state gid channel eid data s) = server_ok s"
proof -
  have "server_ok (fold (\<lambda>i s. snd (netudp_server_send_state (int i) channel eid data s)) is s) = server_ok s" for "is"
    by (induction "is" arbitrary: s) simp_all
  then show ?thesis by (simp add: netudp_group_send_state_def split: option.split bool.split)
qed

lemma replicate_to_ok: "replicate_to env sch e reliable channel client s = Some (ev, s') \<Longrightarrow> server_ok s' = server_ok s"
proof -
  have "server_ok s' = server_ok s" if "snd (netudp_server_send env ci channel data flags s) = (ev, s')" for ci channel data flags
    using send_ok [of env ci channel data flags s] that by simp
  then show "replicate_to env sch e reliable channel client s = Some (ev, s') \<Longrightarrow> server_ok s' = server_ok s"
    by (auto simp: replicate_to_def split: ser_result.splits if_splits)
qed

lemma replicate_entity_ok: "server_ok s \<Longrightarrow> replicate_entity env ei s = Some (ev, s') \<Longrightarrow> server_ok s'"
proof -
  assume ok: "server_ok s" and r: "replicate_entity env ei s = Some (ev, s')"
  have "server_ok s1" if "srv_each (replicate_to env sch e reliable channel) ms s = Some (ev1, s1)" for sch e reliable channel ms ev1 s1
    using that ok by (rule srv_each_keeps) (use replicate_to_ok in blast)
  then show ?thesis using ok r by (auto simp: replicate_entity_def Let_def split: option.splits if_splits)
qed

lemma replicate_ok: "server_ok s \<Longrightarrow> netudp_server_replicate env s = Some (ev, s') \<Longrightarrow> server_ok s'"
  by (auto simp: netudp_server_replicate_def split: if_splits elim!: srv_each_keeps intro: replicate_entity_ok)

lemma active_group_Some: "active_group gid s = Some g \<Longrightarrow> g < length (sv_groups s) \<and> gr_active (sv_groups s ! g)"
  by (auto simp: active_group_def group_index_def split: option.splits if_splits)

text \<open>Replacing a group that stays as active as it was.\<close>

lemma replace_group_ok:
  assumes "server_ok s" and "g < length (sv_groups s)" and "gr_active gr = gr_active (sv_groups s ! g)"
    and "gr_active gr \<longrightarrow> group_ok (sv_max_clients s) gr \<and> set (gr_members gr) \<subseteq> set (sv_active_slots s)"
  shows "server_ok (s\<lparr>sv_groups := (sv_groups s)[g := gr]\<rparr>)"
proof -
  have r: "sv_running s" using assms(1,2) by (auto simp: server_ok_def split: if_splits)
  let ?s' = "s\<lparr>sv_groups := (sv_groups s)[g := gr]\<rparr>"
  have "slots_ok ?s' = slots_ok s" "addresses_ok ?s' = addresses_ok s" "conns_ok ?s' = conns_ok s"
    by (simp_all add: slots_ok_def addresses_ok_def conns_ok_def)
  moreover have "groups_ok ?s'" if "groups_ok s"
  proof -
    have "{i. i < length (sv_groups s) \<and> \<not> gr_active ((sv_groups s)[g := gr] ! i)} = {i. i < length (sv_groups s) \<and> \<not> gr_active (sv_groups s ! i)}"
      using assms(2,3) by (auto simp: nth_list_update)
    moreover have "group_ok (sv_max_clients s) x \<and> set (gr_members x) \<subseteq> set (sv_active_slots s)" if "x \<in> set ((sv_groups s)[g := gr])" "gr_active x" for x
      using that \<open>groups_ok s\<close> assms(4) set_update_subset_insert [of "sv_groups s" g gr] by (auto simp: groups_ok_def)
    ultimately show ?thesis using that by (simp add: groups_ok_def)
  qed
  ultimately show ?thesis using assms(1) r by (simp add: server_ok_def)
qed

lemma group_add_ok: "server_ok s \<Longrightarrow> netudp_group_add gid ci s = Some (r, s') \<Longrightarrow> server_ok s'"
proof -
  assume ok: "server_ok s" and a: "netudp_group_add gid ci s = Some (r, s')"
  show ?thesis
  proof (cases "s' = s")
    case False
    then obtain g b gr where g: "active_group gid s = Some g" "0 \<le> ci" "ci < int (sv_max_clients s)" "cn_active (conn s (nat ci))"
      "group_add ci (sv_groups s ! g) = Some (b, gr)" "s' = s\<lparr>sv_groups := (sv_groups s)[g := gr]\<rparr>"
      using a by (auto simp: netudp_group_add_def split: option.splits if_splits)
    note gl = active_group_Some [OF g(1)]
    have run: "sv_running s" using ok gl by (auto simp: server_ok_def split: if_splits)
    then have gok: "group_ok (sv_max_clients s) (sv_groups s ! g)" "set (gr_members (sv_groups s ! g)) \<subseteq> set (sv_active_slots s)"
      and act: "nat ci \<in> set (sv_active_slots s)"
      using ok gl g(2-4) by (auto simp: server_ok_def groups_ok_def slots_ok_def)
    have "nat ci < sv_max_clients s" using g(2,3) by linarith
    with group_step_refines [OF gok(1), of "Group_add (nat ci)"] g(2,5) have "group_ok (sv_max_clients s) gr"
      "set (gr_members gr) \<subseteq> insert (nat ci) (set (gr_members (sv_groups s ! g)))" by (auto split: if_splits)
    moreover have "gr_active gr = gr_active (sv_groups s ! g)" using g(5) by (auto simp: group_add_def split_beta Let_def split: option.splits if_splits)
    ultimately show ?thesis unfolding g(6) using gl gok act by (intro replace_group_ok [OF ok]) auto
  qed (use ok in simp)
qed

lemma group_remove_ok: "server_ok s \<Longrightarrow> netudp_group_remove gid ci s = Some (r, s') \<Longrightarrow> server_ok s'"
proof -
  assume ok: "server_ok s" and a: "netudp_group_remove gid ci s = Some (r, s')"
  show ?thesis
  proof (cases "s' = s")
    case False
    then obtain g b gr where g: "active_group gid s = Some g"
      "group_remove ci (sv_groups s ! g) = Some (b, gr)" "s' = s\<lparr>sv_groups := (sv_groups s)[g := gr]\<rparr>"
      using a by (auto simp: netudp_group_remove_def split: option.splits if_splits)
    note gl = active_group_Some [OF g(1)]
    have run: "sv_running s" using ok gl by (auto simp: server_ok_def split: if_splits)
    then have gok: "group_ok (sv_max_clients s) (sv_groups s ! g)" "set (gr_members (sv_groups s ! g)) \<subseteq> set (sv_active_slots s)"
      using ok gl by (auto simp: server_ok_def groups_ok_def)
    have "group_ok (sv_max_clients s) gr \<and> set (gr_members gr) \<subseteq> set (gr_members (sv_groups s ! g))"
    proof (cases "ci < 0")
      case True
      then show ?thesis using g(2) gok(1) by (auto simp: group_remove_def group_ok_def)
    next
      case False
      then have "nat ci < sv_max_clients s" using g(2) gok(1) by (auto simp: group_remove_def group_ok_def split: if_splits)
      then show ?thesis using group_step_refines [OF gok(1), of "Group_remove (nat ci)"] g(2) False by auto
    qed
    moreover have "gr_active gr = gr_active (sv_groups s ! g)" using g(2) by (auto simp: group_remove_def split_beta Let_def split: option.splits if_splits)
    ultimately show ?thesis unfolding g(3) using gl gok by (intro replace_group_ok [OF ok]) auto
  qed (use ok in simp)
qed

lemma group_create_ok: "server_ok s \<Longrightarrow> server_ok (snd (netudp_group_create s))"
proof (cases "sv_running s \<and> sv_group_free s \<noteq> []")
  case True
  assume ok: "server_ok s"
  define g where "g = last (sv_group_free s)"
  define gr where "gr = group_init (int g) (sv_max_clients s) (min (sv_max_clients s) kMaxGroupMembers)"
  let ?s' = "s\<lparr>sv_group_free := butlast (sv_group_free s), sv_groups := (sv_groups s)[g := gr]\<rparr>"
  have so: "slots_ok ?s'" "addresses_ok ?s'" "conns_ok ?s'" and gs: "groups_ok s"
    using ok True by (simp_all add: server_ok_def slots_ok_def addresses_ok_def conns_ok_def)
  have free: "sv_group_free s = butlast (sv_group_free s) @ [g]" using True by (simp add: g_def)
  then have d: "distinct (butlast (sv_group_free s))" "g \<notin> set (butlast (sv_group_free s))" "set (sv_group_free s) = insert g (set (butlast (sv_group_free s)))"
    using gs unfolding groups_ok_def by (metis distinct_butlast, metis distinct_append not_distinct_conv_prefix, metis Un_insert_right append_Nil2 list.simps(15) set_append)
  have gl: "g < length (sv_groups s)" using gs d(3) by (auto simp: groups_ok_def)
  have "groups_ok ?s'"
  proof -
    have "set (butlast (sv_group_free s)) = {i. i < length (sv_groups s) \<and> \<not> gr_active ((sv_groups s)[g := gr] ! i)}"
      using gs d gl by (auto simp: groups_ok_def nth_list_update gr_def group_init_def)
    moreover have "group_ok (sv_max_clients s) x \<and> set (gr_members x) \<subseteq> set (sv_active_slots s)" if "x \<in> set ((sv_groups s)[g := gr])" "gr_active x" for x
    proof -
      have "x = gr \<or> x \<in> set (sv_groups s)" using that(1) set_update_subset_insert [of "sv_groups s" g gr] by auto
      moreover have "group_ok (sv_max_clients s) gr" "gr_members gr = []" unfolding gr_def by (rule group_init_ok, simp add: group_init_def)
      ultimately show ?thesis using that(2) gs by (auto simp: groups_ok_def)
    qed
    ultimately show ?thesis using d(1) by (simp add: groups_ok_def)
  qed
  then show ?thesis using so True by (simp add: netudp_group_create_def Let_def server_ok_def flip: g_def gr_def)
qed (auto simp: netudp_group_create_def)

lemma group_destroy_ok: "server_ok s \<Longrightarrow> server_ok (netudp_group_destroy gid s)"
proof (cases "active_group gid s")
  case (Some g)
  assume ok: "server_ok s"
  define gr where "gr = group_reset (sv_groups s ! g)"
  let ?s' = "s\<lparr>sv_groups := (sv_groups s)[g := gr], sv_group_free := sv_group_free s @ [g]\<rparr>"
  note gl = active_group_Some [OF Some]
  have run: "sv_running s" using ok gl by (auto simp: server_ok_def split: if_splits)
  have so: "slots_ok ?s'" "addresses_ok ?s'" "conns_ok ?s'" and gs: "groups_ok s"
    using ok run by (simp_all add: server_ok_def slots_ok_def addresses_ok_def conns_ok_def)
  have ina: "\<not> gr_active gr" by (simp add: gr_def group_reset_def)
  have "groups_ok ?s'"
  proof -
    have "insert g (set (sv_group_free s)) = {i. i < length (sv_groups s) \<and> \<not> gr_active ((sv_groups s)[g := gr] ! i)}"
      using gs gl ina by (auto simp: groups_ok_def nth_list_update)
    moreover have "g \<notin> set (sv_group_free s)" using gs gl by (auto simp: groups_ok_def)
    moreover have "group_ok (sv_max_clients s) x \<and> set (gr_members x) \<subseteq> set (sv_active_slots s)" if "x \<in> set ((sv_groups s)[g := gr])" "gr_active x" for x
      using that gs ina set_update_subset_insert [of "sv_groups s" g gr] by (auto simp: groups_ok_def)
    ultimately show ?thesis using gs by (simp add: groups_ok_def)
  qed
  then show ?thesis using so run Some by (simp add: netudp_group_destroy_def server_ok_def flip: gr_def)
qed (simp add: netudp_group_destroy_def)

end
