(* ===== verification/Server_Run.thy ===== *)
theory Server_Run
  imports Server_Api
begin

text \<open>
  Runs of the server: any sequence of updates, interface calls, starts and stops. The invariant of the slots
  and the shape of the server's tables hold in every state that is reached.
\<close>

section \<open>Operations\<close>

text \<open>One step of the server: any call of its interface that has a result. A server that runs is not started again.\<close>

inductive srv_step :: "server_env \<Rightarrow> netudp_server \<Rightarrow> netudp_server \<Rightarrow> bool" for env :: server_env where
  start: "\<not> sv_running s \<Longrightarrow> netudp_server_start ma me mq junk n s = Some s' \<Longrightarrow> srv_step env s s'"
| stop: "srv_step env s (netudp_server_stop s)"
| update: "netudp_server_update env time primary extra s = Some (r, s') \<Longrightarrow> srv_step env s s'"
| recv_thread: "srv_step env s (pipeline_recv_thread packets s)"
| send_thread: "srv_step env s (snd (pipeline_send_thread s))"
| send: "srv_step env s (snd (snd (netudp_server_send env ci ch data flags s)))"
| send_state: "srv_step env s (snd (netudp_server_send_state ci ch eid data s))"
| receive: "netudp_server_receive mem ci n s = Some (ms, ev, s') \<Longrightarrow> srv_step env s s'"
| receive_batch: "netudp_server_receive_batch mem n s = Some (ms, ev, s') \<Longrightarrow> srv_step env s s'"
| broadcast: "srv_step env s (snd (netudp_server_broadcast env ch data flags s))"
| broadcast_except: "srv_step env s (snd (netudp_server_broadcast_except env ex ch data flags s))"
| flush: "srv_step env s (snd (netudp_server_flush env ci s))"
| set_handler: "srv_step env s (netudp_server_set_packet_handler ty h s)"
| group_create: "srv_step env s (snd (netudp_group_create s))"
| group_destroy: "srv_step env s (netudp_group_destroy g s)"
| group_add: "netudp_group_add g ci s = Some (r, s') \<Longrightarrow> srv_step env s s'"
| group_remove: "netudp_group_remove g ci s = Some (r, s') \<Longrightarrow> srv_step env s s'"
| group_send: "srv_step env s (snd (netudp_group_send env g ch data flags s))"
| group_send_except: "srv_step env s (snd (netudp_group_send_except env g ex ch data flags s))"
| group_send_state: "srv_step env s (netudp_group_send_state g ch eid data s)"
| schema_create: "srv_step env s (snd (netudp_schema_create s))"
| schema_destroy: "srv_step env s (netudp_schema_destroy sid s)"
| schema_add: "srv_step env s (snd (netudp_schema_add ty sid name n flags s))"
| entity_create: "srv_step env s (snd (netudp_entity_create sid s))"
| entity_destroy: "srv_step env s (netudp_entity_destroy eid s)"
| entity_set_group: "srv_step env s (netudp_entity_set_group g eid s)"
| entity_set_owner: "srv_step env s (netudp_entity_set_owner ci eid s)"
| entity_set_priority: "srv_step env s (netudp_entity_set_priority p eid s)"
| entity_set_max_rate: "srv_step env s (netudp_entity_set_max_rate hz eid s)"
| entity_set_u8: "netudp_entity_set_u8 eid px v s = Some (r, s') \<Longrightarrow> srv_step env s s'"
| entity_set_u16: "netudp_entity_set_u16 eid px v s = Some (r, s') \<Longrightarrow> srv_step env s s'"
| entity_set_i32: "netudp_entity_set_i32 eid px v s = Some (r, s') \<Longrightarrow> srv_step env s s'"
| entity_set_f32: "netudp_entity_set_f32 eid px v s = Some (r, s') \<Longrightarrow> srv_step env s s'"
| entity_set_vec3: "netudp_entity_set_vec3 eid px v s = Some (r, s') \<Longrightarrow> srv_step env s s'"
| entity_set_quat: "netudp_entity_set_quat eid px v s = Some (r, s') \<Longrightarrow> srv_step env s s'"
| entity_set_blob: "netudp_entity_set_blob eid px v s = Some (r, s') \<Longrightarrow> srv_step env s s'"
| replicate: "netudp_server_replicate env s = Some (r, s') \<Longrightarrow> srv_step env s s'"

lemmas entity_defs = upd_entity_def netudp_entity_destroy_def netudp_entity_set_group_def netudp_entity_set_owner_def
  netudp_entity_set_priority_def netudp_entity_set_max_rate_def netudp_entity_set_def netudp_entity_set_u8_def
  netudp_entity_set_u16_def netudp_entity_set_i32_def netudp_entity_set_f32_def netudp_entity_set_vec3_def
  netudp_entity_set_quat_def netudp_entity_set_blob_def

lemma schema_ops_ok [simp]: "server_ok (snd (netudp_schema_create s)) = server_ok s" "server_ok (netudp_schema_destroy sid s) = server_ok s"
  "server_ok (snd (netudp_schema_add ty sid name n flags s)) = server_ok s" "server_ok (snd (netudp_entity_create sid s)) = server_ok s"
  "server_ok (upd_entity f eid s) = server_ok s" "server_ok (netudp_server_set_packet_handler k h s) = server_ok s"
  by (simp_all add: netudp_schema_create_def netudp_schema_destroy_def netudp_schema_add_def netudp_entity_create_def
      netudp_server_set_packet_handler_def upd_entity_def Let_def split_beta split: option.split)

text \<open>The send thread takes the packets of its queue in the order they were pushed.\<close>

lemma drain_batch_fifo:
  assumes "pq_ok q"
  shows "drain_batch n q = (ps, q') \<Longrightarrow> pq_ok q' \<and> ps = take n (pq_items q) \<and> pq_items q' = drop n (pq_items q)"
  using assms
proof (induction n arbitrary: q ps)
  case (Suc n)
  show ?case
  proof (cases rule: pipeline.pop_cases [OF Suc.prems(2)])
    case 1
    then show ?thesis using Suc.prems by auto
  next
    case (2 y ys q1)
    obtain rest q2 where "drain_batch n q1 = (rest, q2)" by (cases "drain_batch n q1")
    then show ?thesis using Suc.IH [of q1 rest] Suc.prems 2 by auto
  qed
qed simp

lemma pipeline_ok [simp]: "server_ok (pipeline_recv_thread ps s) = server_ok s" "server_ok (snd (pipeline_send_thread s)) = server_ok s"
  by (simp_all add: pipeline_recv_thread_def pipeline_send_thread_def split_beta split: option.split)

lemma entity_set_ok: "netudp_entity_set f eid s = Some (r, s') \<Longrightarrow> server_ok s' = server_ok s"
  by (auto simp: netudp_entity_set_def split: option.splits)

lemma srv_step_ok: "srv_step env s s' \<Longrightarrow> server_ok s \<Longrightarrow> server_ok s'"
proof (induction rule: srv_step.induct)
  case (receive_batch mem n s ms ev s')
  then show ?case by (auto simp: netudp_server_receive_batch_def dest: receive_slots_ok split: if_splits)
qed (simp_all add: entity_defs(2-6) entity_defs(8-14),
     (blast intro: start_ok stop_ok update_ok group_create_ok group_destroy_ok group_add_ok group_remove_ok replicate_ok
       receive_ok [THEN iffD2] entity_set_ok [THEN iffD2])+)

section \<open>The shape of the tables\<close>

text \<open>
  The tables of handlers, schemas and entities have the sizes their declarations give them; an entity's values fill
  its buffer; an active entity has an identifier and points to a schema the server has handed out.
\<close>

definition entity_typed :: "nat \<Rightarrow> Entity \<Rightarrow> bool" where
  "entity_typed n e \<longleftrightarrow>
     length (en_values e) = kEntityMaxValueSize \<and> (case en_schema e of None \<Rightarrow> \<not> en_active e | Some k \<Rightarrow> k < n)
     \<and> (en_active e \<longrightarrow> en_entity_id e \<noteq> 0 \<and> en_schema_id e = int (the (en_schema e)))"

definition tables_typed :: "netudp_server \<Rightarrow> bool" where
  "tables_typed s \<longleftrightarrow>
     length (sv_handlers s) = 256 \<and> length (sv_schemas s) = kMaxSchemas \<and> sv_schema_count s \<le> kMaxSchemas
     \<and> (\<forall>sch \<in> set (sv_schemas s). length (sc_props sch) \<le> kMaxProperties)
     \<and> length (sv_entities s) \<in> {0, kMaxEntities} \<and> (\<forall>e \<in> set (sv_entities s). entity_typed (sv_schema_count s) e)
     \<and> sv_next_entity_id s \<noteq> 0"

definition tables :: "netudp_server \<Rightarrow> bool list \<times> Schema list \<times> nat \<times> Entity list \<times> u16" where
  "tables s = (sv_handlers s, sv_schemas s, sv_schema_count s, sv_entities s, sv_next_entity_id s)"

lemma tables_typed_cong: "tables s' = tables s \<Longrightarrow> tables_typed s' = tables_typed s"
  by (simp add: tables_def tables_typed_def)

lemma tables_simps [simp]:
  "tables (upd_conn i f s) = tables s" "tables (server_bad_packet s) = tables s" "tables (snd (server_send_packet d p s)) = tables s"
  "tables (s\<lparr>sv_rate_limiter := rl\<rparr>) = tables s" "tables (s\<lparr>sv_sim := sim\<rparr>) = tables s" "tables (s\<lparr>sv_fingerprints := fp\<rparr>) = tables s"
  "tables (s\<lparr>sv_recv_queue := q\<rparr>) = tables s" "tables (s\<lparr>sv_pacing_current_slice := x\<rparr>) = tables s" "tables (s\<lparr>sv_groups := gs\<rparr>) = tables s"
  "tables (s\<lparr>sv_address_to_slot := m\<rparr>) = tables s" "tables (s\<lparr>sv_last_cleanup_time := t\<rparr>) = tables s" "tables (s\<lparr>sv_current_time := t\<rparr>) = tables s"
  "tables (s\<lparr>sv_ddos := d'\<rparr>) = tables s" "tables (s\<lparr>sv_group_free := fr\<rparr>) = tables s" "tables (claim_slot slot src s) = tables s"
  by (simp_all add: tables_def upd_conn_def server_bad_packet_def server_send_packet_def claim_slot_def split_beta Let_def split: option.split)

lemma tables_send_packets [simp]: "tables (snd (server_send_packets d ps s)) = tables s"
  by (induction ps arbitrary: s) (simp_all add: split_beta Let_def)

lemma tables_pipeline: "tables (pipeline_recv_thread ps s) = tables s" "tables (snd (pipeline_send_thread s)) = tables s"
  by (simp_all add: pipeline_recv_thread_def pipeline_send_thread_def tables_def split_beta split: option.split)

lemma tables_deactivate: "server_deactivate_slot i s = Some s' \<Longrightarrow> tables s' = tables s"
  by (auto simp: server_deactivate_slot_def split_beta Let_def tables_def split: if_splits)

lemma tables_drop: "drop_client i r s = Some (ev, s') \<Longrightarrow> tables s' = tables s"
  by (auto simp: drop_client_def Let_def dest: tables_deactivate)

lemma tables_request [simp]: "tables (snd (server_handle_connection_request env src packet s)) = tables s"
  by (simp add: server_handle_connection_request_def establish_def split_beta Let_def split: option.split)

lemma tables_dispatch: "server_dispatch_packet env src data s = Some (ev, s') \<Longrightarrow> tables s' = tables s"
proof -
  have "tables s' = tables s" if "server_handle_data_packet env i data s = Some (ev, s')" for i
    using that by (auto simp: server_handle_data_packet_def split: prod.splits packet_result.splits recv_outcome.splits dest: tables_drop)
  moreover have "tables s' = tables s" if "server_handle_connection_request env src data s = (ev, s')"
    using tables_request [of env src data s] that by simp
  ultimately show "server_dispatch_packet env src data s = Some (ev, s') \<Longrightarrow> tables s' = tables s"
    by (auto simp: server_dispatch_packet_def Let_def split: if_splits option.splits)
qed

lemma tables_receive_packet: "receive_packet env time known p s = Some (ev, s') \<Longrightarrow> tables s' = tables s"
  by (auto simp: receive_packet_def split_beta Let_def split: if_splits dest: tables_dispatch)

lemma srv_each_tables:
  assumes "srv_each f xs s = Some (ev, s')" and "\<And>x s1 ev2 s2. f x s1 = Some (ev2, s2) \<Longrightarrow> tables s2 = tables s1"
  shows "tables s' = tables s"
  using assms(1) by (rule srv_each_keeps) (use assms(2) in auto)

lemma srv_bind_tables:
  assumes "srv_bind r f = Some (ev, s')" and "\<And>ev1 s1. r = Some (ev1, s1) \<Longrightarrow> tables s1 = tables s" and "\<And>s1 ev2 s2. f s1 = Some (ev2, s2) \<Longrightarrow> tables s2 = tables s1"
  shows "tables s' = tables s"
  using assms(1) by (rule srv_bind_keeps) (use assms(2,3) in auto)

lemma tables_drain: "drain_queue env time n s = Some (ev, s') \<Longrightarrow> tables s' = tables s"
proof (induction n arbitrary: s ev s')
  case (Suc n)
  show ?case
  proof (cases "sv_recv_queue s")
    case (Some q)
    obtain r q1 where q: "pq_pop q = (r, q1)" by fastforce
    show ?thesis
    proof (cases r)
      case (Some p)
      then have "srv_bind (receive_packet env time True p (s\<lparr>sv_recv_queue := Some q1\<rparr>)) (drain_queue env time n) = Some (ev, s')"
        using Suc.prems \<open>sv_recv_queue s = Some q\<close> q by simp
      then show ?thesis by (rule srv_bind_tables) (auto dest: tables_receive_packet Suc.IH)
    qed (use Suc.prems Some q in auto)
  qed (use Suc.prems in simp)
qed (auto split: option.splits)

lemma tables_timeout: "timeout_loop time a evs s = Some r \<Longrightarrow> tables (snd r) = tables s"
proof (induction rule: timeout_loop.raw_induct [rotated, consumes 1, case_names step])
  case (step loop time a evs s r)
  then show ?case by (auto split: if_splits bind_splits dest!: tables_drop)
qed

lemma tables_process [simp]: "tables (snd (process_connection env worker time dt i s)) = tables s"
  by (simp add: process_connection_def split_beta Let_def)

lemma tables_process_slots [simp]: "tables (snd (process_slots env worker time dt is s)) = tables s"
  by (induction "is" arbitrary: s) (simp_all add: split_beta Let_def)

lemma tables_server_process [simp]: "tables (snd (server_process env time dt s)) = tables s"
  by (simp add: server_process_def server_cleanup_def split_beta Let_def)

lemma tables_receive_packets: "server_receive_packets env time primary extra s = Some (ev, s') \<Longrightarrow> tables s' = tables s"
proof (cases "sv_pipeline_mode s \<and> sv_recv_queue s \<noteq> None")
  case True
  then show "server_receive_packets env time primary extra s = Some (ev, s') \<Longrightarrow> tables s' = tables s"
    by (auto simp: server_receive_packets_def dest: tables_drain)
next
  case False
  assume "server_receive_packets env time primary extra s = Some (ev, s')"
  with False have "srv_bind (srv_each (receive_packet env time True) primary s)
      (srv_each (receive_packet env time False) (concat (take (sv_num_io_threads s - 1) extra))) = Some (ev, s')"
    by (auto simp: server_receive_packets_def)
  then show ?thesis by (rule srv_bind_tables) (auto dest: srv_each_tables intro: tables_receive_packet)
qed

lemma tables_poll: "server_poll_sim env time s = Some (ev, s') \<Longrightarrow> tables s' = tables s"
  by (auto simp: server_poll_sim_def split_beta Let_def split: if_splits dest!: srv_each_tables intro: tables_dispatch)

lemma tables_update: "netudp_server_update env time primary extra s = Some (ev, s') \<Longrightarrow> tables s' = tables s"
proof (cases "sv_running s")
  case True
  let ?dt = "time - sv_current_time s"
  let ?s1 = "s\<lparr>sv_current_time := time, sv_ddos := ddos_update ?dt (sv_ddos s)\<rparr>"
  have rs: "tables s2 = tables ?s1" if "srv_bind (server_receive_packets env time primary extra ?s1) (server_poll_sim env time) = Some (ev2, s2)" for ev2 s2
    using that by (rule srv_bind_tables) (auto dest: tables_receive_packets tables_poll)
  have rt: "tables s2 = tables ?s1" if "srv_bind (srv_bind (server_receive_packets env time primary extra ?s1) (server_poll_sim env time)) (timeout_loop time 0 []) = Some (ev2, s2)" for ev2 s2
    using that by (rule srv_bind_tables) (auto dest: rs tables_timeout)
  assume "netudp_server_update env time primary extra s = Some (ev, s')"
  with True have "srv_bind (srv_bind (srv_bind (server_receive_packets env time primary extra ?s1) (server_poll_sim env time)) (timeout_loop time 0 []))
      (\<lambda>s2. Some (server_process env time ?dt s2)) = Some (ev, s')"
    by (simp add: netudp_server_update_def Let_def)
  then have "tables s' = tables ?s1" by (rule srv_bind_tables) (use rt tables_server_process in \<open>auto, metis snd_conv\<close>)
  then show ?thesis by simp
qed (simp add: netudp_server_update_def)

lemma tables_api [simp]:
  "tables (snd (server_send_pending env i s)) = tables s" "tables (queued i ch c s) = tables s"
  "tables (snd (snd (netudp_server_send env ci channel data flags s))) = tables s"
  "tables (snd (netudp_server_send_state ci channel eid data s)) = tables s" "tables (snd (netudp_server_flush env ci s)) = tables s"
proof -
  show p: "tables (snd (server_send_pending env i s)) = tables s" for env i s
    by (simp add: server_send_pending_def split_beta Let_def)
  show q: "tables (queued i ch c s) = tables s" for i ch c s by (simp add: queued_def)
  show "tables (snd (snd (netudp_server_send env ci channel data flags s))) = tables s"
    "tables (snd (netudp_server_send_state ci channel eid data s)) = tables s" "tables (snd (netudp_server_flush env ci s)) = tables s"
    by (simp_all add: netudp_server_send_def netudp_server_send_state_def netudp_server_flush_def p q Let_def split: prod.split bool.split)
qed

lemma srv_fold_tables: "(\<And>x s. tables (snd (f x s)) = tables s) \<Longrightarrow> tables (snd (srv_fold f xs s)) = tables s"
  by (induction xs arbitrary: s) (simp_all add: split_beta Let_def)

lemma tables_broadcast [simp]:
  "tables (snd (netudp_server_broadcast env channel data flags s)) = tables s"
  "tables (snd (netudp_server_broadcast_except env ex channel data flags s)) = tables s"
  "tables (snd (netudp_group_send env gid channel data flags s)) = tables s"
  "tables (snd (netudp_group_send_except env gid ex channel data flags s)) = tables s"
  by (auto simp: netudp_server_broadcast_def netudp_server_broadcast_except_def netudp_group_send_def netudp_group_send_except_def srv_fold_tables
      split: option.split bool.split)

lemma tables_fold: "(\<And>x s. tables (f x s) = tables s) \<Longrightarrow> tables (fold f xs s) = tables s"
  by (induction xs arbitrary: s) simp_all

lemma tables_groups [simp]:
  "tables (netudp_group_send_state gid channel eid data s) = tables s" "tables (snd (netudp_group_create s)) = tables s"
  "tables (netudp_group_destroy gid s) = tables s"
  by (simp_all add: netudp_group_send_state_def netudp_group_create_def netudp_group_destroy_def tables_fold Let_def split: option.split bool.split)

lemma tables_group_members: "netudp_group_add gid ci s = Some (r, s') \<Longrightarrow> tables s' = tables s" "netudp_group_remove gid ci s = Some (r, s') \<Longrightarrow> tables s' = tables s"
  by (auto simp: netudp_group_add_def netudp_group_remove_def split: option.splits if_splits)

lemma tables_receive: "netudp_server_receive mem ci n s = Some (ms, ev, s') \<Longrightarrow> tables s' = tables s"
  by (auto simp: netudp_server_receive_def Let_def split_beta split: if_splits option.splits)

lemma tables_receive_slots: "receive_slots mem is n s = Some (ms, ev, s') \<Longrightarrow> tables s' = tables s"
  by (induction "is" arbitrary: n s ms ev) (auto dest!: tables_receive split: if_splits option.splits)

lemma tables_receive_batch: "netudp_server_receive_batch mem n s = Some (ms, ev, s') \<Longrightarrow> tables s' = tables s"
  by (auto simp: netudp_server_receive_batch_def dest!: tables_receive_slots split: if_splits)

text \<open>What the type of an entity depends on.\<close>

definition entity_frame :: "Entity \<Rightarrow> nat \<times> bool \<times> u16 \<times> nat option \<times> int" where
  "entity_frame e = (length (en_values e), en_active e, en_entity_id e, en_schema e, en_schema_id e)"

lemma entity_typed_cong: "entity_frame e' = entity_frame e \<Longrightarrow> entity_typed n e' = entity_typed n e"
  by (auto simp: entity_frame_def entity_typed_def split: option.split)

lemma entity_typed_mono: "entity_typed n e \<Longrightarrow> n \<le> m \<Longrightarrow> entity_typed m e"
  by (auto simp: entity_typed_def split: option.splits)

lemma entity_new_typed [simp]: "entity_typed n entity_new"
  by (simp add: entity_typed_def entity_new_def)

lemma setters_frame:
  "set_scalar ty same sch px new e = Some (b, e') \<Longrightarrow> entity_frame e' = entity_frame e"
  "set_blob sch px data e = Some (b, e') \<Longrightarrow> entity_frame e' = entity_frame e"
  by (auto simp: set_scalar_def set_blob_def store_changed_def mark_dirty_def entity_frame_def split: if_splits)

lemma replace_entity_typed:
  assumes "tables_typed s" and "i < length (sv_entities s) \<longrightarrow> entity_typed (sv_schema_count s) e"
  shows "tables_typed (s\<lparr>sv_entities := (sv_entities s)[i := e]\<rparr>)"
  using assms set_update_subset_insert [of "sv_entities s" i e]
  by (cases "i < length (sv_entities s)") (auto simp: tables_typed_def list_update_beyond)

lemma find_entity_less: "find_entity eid s = Some i \<Longrightarrow> i < length (sv_entities s)"
  by (auto simp: find_entity_def find_Some_iff split: if_splits)

lemma entity_of_typed: "tables_typed s \<Longrightarrow> i < length (sv_entities s) \<Longrightarrow> entity_typed (sv_schema_count s) (sv_entities s ! i)"
  by (simp add: tables_typed_def)

lemma upd_entity_typed:
  assumes "tables_typed s" and "\<And>e n. entity_typed n e \<Longrightarrow> entity_typed n (f e)"
  shows "tables_typed (upd_entity f eid s)"
  using assms by (auto simp: upd_entity_def split: option.split intro!: replace_entity_typed entity_of_typed)

lemma entity_set_typed:
  assumes "netudp_entity_set f eid s = Some (r, s')" and "tables_typed s" and "\<And>sch e b e'. f sch e = Some (b, e') \<Longrightarrow> entity_frame e' = entity_frame e"
  shows "tables_typed s'"
proof (cases "find_entity eid s")
  case None
  then show ?thesis using assms(1,2) by (simp add: netudp_entity_set_def)
next
  case (Some i)
  then obtain b e where e: "f (schema_of s (sv_entities s ! i)) (sv_entities s ! i) = Some (b, e)" "s' = s\<lparr>sv_entities := (sv_entities s)[i := e]\<rparr>"
    using assms(1) by (auto simp: netudp_entity_set_def)
  then show ?thesis using replace_entity_typed [OF assms(2)] entity_of_typed [OF assms(2)] entity_typed_cong [OF assms(3) [OF e(1)]] by simp
qed

lemma replicate_entity_typed:
  assumes "replicate_entity env ei s = Some (ev, s')" and "tables_typed s"
  shows "tables_typed s'"
proof -
  have each: "tables s1 = tables s" if "srv_each (replicate_to env sch e reliable channel) ms s = Some (ev1, s1)" for sch e reliable channel ms ev1 s1
  proof (rule srv_each_tables [OF that])
    show "tables s3 = tables s2" if "replicate_to env sch e reliable channel x s2 = Some (ev2, s3)" for x s2 ev2 s3
    proof -
      have "tables s3 = tables s2" if "snd (netudp_server_send env ci ch w fl s2) = (ev2, s3)" for ci ch w fl
        using tables_api(3) [of env ci ch w fl s2] that by simp
      then show ?thesis using that by (auto simp: replicate_to_def split: ser_result.splits if_splits)
    qed
  qed
  have put: "tables_typed (s1\<lparr>sv_entities := (sv_entities s1)[ei := e]\<rparr>)" if "tables s1 = tables s" "entity_frame e = entity_frame (sv_entities s ! ei)" for s1 e
    using that replace_entity_typed [of s1 ei e] assms(2) tables_typed_cong [OF that(1)] entity_typed_cong [OF that(2)] entity_of_typed [OF assms(2), of ei]
    by (auto simp: tables_def)
  show ?thesis using assms each
    by (auto simp: replicate_entity_def Let_def split: option.splits if_splits intro!: put simp: entity_frame_def)
qed

lemma replicate_typed: "netudp_server_replicate env s = Some (ev, s') \<Longrightarrow> tables_typed s \<Longrightarrow> tables_typed s'"
  by (auto simp: netudp_server_replicate_def split: if_splits elim!: srv_each_keeps intro: replicate_entity_typed)

lemma replace_schema_typed:
  assumes "tables_typed s" and "length (sc_props sch) \<le> kMaxProperties"
  shows "tables_typed (s\<lparr>sv_schemas := (sv_schemas s)[i := sch]\<rparr>)"
  using assms set_update_subset_insert [of "sv_schemas s" i sch] by (auto simp: tables_typed_def)

lemma schema_create_typed: "tables_typed s \<Longrightarrow> tables_typed (snd (netudp_schema_create s))"
proof -
  let ?sch = "schema_new\<lparr>sc_id := int (sv_schema_count s)\<rparr>"
  assume t: "tables_typed s"
  then have "tables_typed (s\<lparr>sv_schemas := (sv_schemas s)[sv_schema_count s := ?sch]\<rparr>)" by (rule replace_schema_typed) (simp add: schema_new_def)
  then show ?thesis using t
    by (cases "sv_schema_count s \<ge> kMaxSchemas") (simp add: netudp_schema_create_def, auto simp: netudp_schema_create_def tables_typed_def intro: entity_typed_mono)
qed

lemma schema_add_typed: "tables_typed s \<Longrightarrow> tables_typed (snd (netudp_schema_add ty sid name n flags s))"
proof -
  assume t: "tables_typed s"
  have "length (sc_props (snd (add_prop nm ty' fl rs ws cap sch))) \<le> kMaxProperties" if "length (sc_props sch) \<le> kMaxProperties" for nm ty' fl rs ws cap sch
    using that by (simp add: add_prop_def Let_def)
  moreover have "length (sc_props (sv_schemas s ! nat sid)) \<le> kMaxProperties" if "0 \<le> sid" "sid < int (sv_schema_count s)"
  proof -
    have "nat sid < length (sv_schemas s)" using t that unfolding tables_typed_def by linarith
    then show ?thesis using t nth_mem by (fastforce simp: tables_typed_def)
  qed
  ultimately show ?thesis using t replace_schema_typed [OF t]
    by (simp add: netudp_schema_add_def Let_def split_beta)
qed

lemma entity_create_typed: "tables_typed s \<Longrightarrow> tables_typed (snd (netudp_entity_create sid s))"
proof -
  assume t: "tables_typed s"
  let ?e = "entity_new\<lparr>en_active := True, en_entity_id := sv_next_entity_id s, en_schema_id := sid, en_schema := Some (nat sid)\<rparr>"
  have "entity_typed (sv_schema_count s) ?e" if "0 \<le> sid" "sid < int (sv_schema_count s)"
    using t that by (simp add: entity_typed_def entity_new_def tables_typed_def nat_less_iff)
  then have "tables_typed (s\<lparr>sv_entities := (sv_entities s)[i := ?e]\<rparr>)" if "0 \<le> sid" "sid < int (sv_schema_count s)" for i
    using that by (intro replace_entity_typed [OF t]) auto
  then show ?thesis using t
    by (auto simp: netudp_entity_create_def entity_reset_def Let_def tables_typed_def split: option.split)
qed

lemma entity_fields_typed:
  assumes "tables_typed s"
  shows "tables_typed (netudp_entity_destroy eid s)" "tables_typed (netudp_entity_set_group g eid s)" "tables_typed (netudp_entity_set_owner ci eid s)"
    "tables_typed (netudp_entity_set_priority p eid s)" "tables_typed (netudp_entity_set_max_rate hz eid s)"
  unfolding entity_defs(2-6) using assms by (rule upd_entity_typed; simp add: entity_typed_def entity_reset_def entity_new_def split: option.splits)+

lemma entity_setters_typed:
  assumes "tables_typed s"
  shows "netudp_entity_set_u8 eid px v1 s = Some (r, s') \<Longrightarrow> tables_typed s'" "netudp_entity_set_u16 eid px v2 s = Some (r, s') \<Longrightarrow> tables_typed s'"
    "netudp_entity_set_i32 eid px v3 s = Some (r, s') \<Longrightarrow> tables_typed s'" "netudp_entity_set_f32 eid px v3 s = Some (r, s') \<Longrightarrow> tables_typed s'"
    "netudp_entity_set_vec3 eid px v4 s = Some (r, s') \<Longrightarrow> tables_typed s'" "netudp_entity_set_quat eid px v4 s = Some (r, s') \<Longrightarrow> tables_typed s'"
    "netudp_entity_set_blob eid px v5 s = Some (r, s') \<Longrightarrow> tables_typed s'"
  unfolding entity_defs(8-14) set_u8_def set_u16_def set_i32_def set_f32_def set_vec3_def set_quat_def
  by (erule entity_set_typed [OF _ assms]; erule setters_frame)+

lemma tables_kept: "tables s' = tables s \<Longrightarrow> tables_typed s \<Longrightarrow> tables_typed s'"
  by (simp add: tables_def tables_typed_def)

lemmas tables_steps = tables_update tables_pipeline tables_receive tables_receive_batch tables_group_members tables_api tables_broadcast tables_groups

lemma start_typed: "netudp_server_start ma me mq junk n s = Some s' \<Longrightarrow> tables_typed s \<Longrightarrow> tables_typed s'"
  by (cases "n \<le> 0"; cases ma; cases me) (clarsimp simp: netudp_server_start_def tables_typed_def Let_def)+

lemma srv_step_typed: "srv_step env s s' \<Longrightarrow> tables_typed s \<Longrightarrow> tables_typed s'"
proof (induction rule: srv_step.induct)
  case (stop s)
  then show ?case by (simp add: netudp_server_stop_def tables_typed_def)
next
  case (set_handler k h s)
  then show ?case by (simp add: netudp_server_set_packet_handler_def tables_typed_def)
next
  case (schema_destroy sid s)
  then show ?case by (simp add: netudp_schema_destroy_def replace_schema_typed schema_new_def)
qed (blast intro: start_typed schema_create_typed schema_add_typed entity_create_typed entity_fields_typed entity_setters_typed replicate_typed
       tables_kept tables_steps)+

section \<open>Which connections a tick serves\<close>

text \<open>Together the worker threads serve every active position once.\<close>

lemma concat_slices:
  assumes "\<And>w. f w \<le> f (Suc w)" and "f 0 = 0"
  shows "concat (map (\<lambda>w. [f w..<f (Suc w)]) [0..<m]) = [0..<f m]"
proof (induction m)
  case (Suc m)
  obtain d where "f (Suc m) = f m + d" using assms(1) [of m] le_iff_add by auto
  then show ?case using Suc upt_add_eq_append [of 0 "f m" d] by simp
qed (simp add: assms(2))

lemma worker_slices_cover: "0 < nw \<Longrightarrow> concat (map (worker_slice nw n) [0..<nw]) = [0..<n]"
proof -
  assume nw: "0 < nw"
  let ?k = "(n + nw - 1) div nw"
  have "n \<le> nw * ?k"
  proof -
    have "n + nw - 1 = nw * ?k + (n + nw - 1) mod nw" by simp
    moreover have "(n + nw - 1) mod nw \<le> nw - 1" using mod_less_divisor [OF nw, of "n + nw - 1"] by linarith
    ultimately show ?thesis using nw by linarith
  qed
  moreover have "worker_slice nw n = (\<lambda>w. [min (w * ?k) n..<min (Suc w * ?k) n])"
    by (rule ext) (auto simp: worker_slice_def Let_def min_def add.commute)
  moreover have "concat (map (\<lambda>w. [min (w * ?k) n..<min (Suc w * ?k) n]) [0..<nw]) = [0..<min (nw * ?k) n]"
    by (rule concat_slices) (auto simp: min_def)
  ultimately show ?thesis by (simp add: min_absorb2)
qed

text \<open>With pacing, as many ticks as there are slices serve every position once, as long as the active list does not change.\<close>

lemma pacing_slice_eq:
  assumes "1 < N" "N < n" "w < N"
  shows "pacing_slice (int N) (int w) n = ([w * (n div N) + min w (n mod N)..<Suc w * (n div N) + min (Suc w) (n mod N)], (int w + 1) mod int N)"
proof -
  have w: "nat (int w mod int N) = w" "int w mod int N = int w" using assms(3) by simp_all
  have e: "w * q + min w r + (q + (if w < r then 1 else 0)) = Suc w * q + min (Suc w) r" for q r by (simp add: min_def)
  show ?thesis unfolding e [symmetric] using assms(1,2) by (simp add: pacing_slice_def Let_def w)
qed

lemma pacing_slices_cover:
  assumes "1 < N" "N < n"
  shows "concat (map (\<lambda>w. fst (pacing_slice (int N) (int w) n)) [0..<N]) = [0..<n]"
proof -
  let ?f = "\<lambda>w. w * (n div N) + min w (n mod N)"
  have e: "map (\<lambda>w. fst (pacing_slice (int N) (int w) n)) [0..<N] = map (\<lambda>w. [?f w..<?f (Suc w)]) [0..<N]"
    using assms by (intro map_cong) (simp_all add: pacing_slice_eq)
  have "?f w \<le> ?f (Suc w)" for w by (rule add_mono) auto
  then have c: "concat (map (\<lambda>w. [?f w..<?f (Suc w)]) [0..<N]) = [0..<?f N]" by (rule concat_slices) simp
  have f: "?f N = n" using assms(1) by (simp add: min_absorb2 less_imp_le)
  show ?thesis unfolding e c f ..
qed
lemma visit_all: "sv_num_workers s > 1 \<or> sv_pacing_slices s \<le> 1 \<Longrightarrow> fst (visit_positions s) = [0..<length (sv_active_slots s)]"
  by (auto simp: visit_positions_def worker_slices_cover pacing_slice_def)

section \<open>Reachable states\<close>

text \<open>
  C7. In every state the server reaches from its creation, whatever packets arrive and whatever calls are made
  (a running server is not started a second time):
  active and free slots partition the connection array and agree with the active flags and the reverse index; an
  entry of the address map leads to an active connection with that very address; no two active clients
  share an identifier; groups hold active clients only, and the free list of groups names exactly the inactive ones; a
  connection without buffers has no channels. When the server is stopped, no slot, group or address entry is left.
\<close>

theorem server_slots_invariant:
  assumes "netudp_server_create sock sim0 address config time = Some s0" and "(srv_step env)\<^sup>*\<^sup>* s0 s"
  shows "server_ok s"
  using assms(2) by (induction rule: rtranclp_induct) (use create_ok [OF assms(1)] srv_step_ok in blast)+

definition example_env :: server_env where
  "example_env = \<lparr>se_enc = example_encrypt, se_dec = example_decrypt, se_kdf = (\<lambda>_ _. replicate 32 0), se_token_dec = example_decrypt,
     se_hash = (\<lambda>_ d. take 16 d), se_alloc = (\<lambda>_. True), se_fill = 0\<rparr>"

definition example_channels :: "channel_config list" where
  "example_channels = [\<lparr>cc_type = UNRELIABLE, cc_priority = 0, cc_weight = 0, cc_nagle_ms = 0\<rparr>, \<lparr>cc_type = RELIABLE_ORDERED, cc_priority = 0, cc_weight = 0, cc_nagle_ms = 0\<rparr>]"

definition example_config :: server_config where
  "example_config = \<lparr>cfg_protocol_id = 7, cfg_private_key = replicate 32 9, cfg_on_connect = True, cfg_on_disconnect = True,
     cfg_channels = example_channels, cfg_num_channels = 2, cfg_sim = None, cfg_heartbeat_interval_ms = 0, cfg_integrity_interval_ms = 0,
     cfg_integrity_timeout_ms = 0, cfg_max_groups = 4, cfg_pacing_slices = 0, cfg_num_io_threads = 1\<rparr>"

lemma example_create:
  obtains s0 where "netudp_server_create (\<lambda>_. True) sim0 (netudp_address_to_string example_address 64) example_config time = Some s0"
    "\<not> sv_running s0" "sv_config s0 = example_config" "sv_current_time s0 = time" "sv_num_io_threads s0 = 1" "sv_protocol_id s0 = 7" "sv_ddos s0 = ddos_reset"
    "sv_address_to_slot s0 = hm_new 4096" "sv_fingerprints s0 = hm_new 2048" "sv_rate_limiter s0 = limiter_new" "\<not> sv_sim_enabled s0" "\<not> sv_pipeline_mode s0"
proof -
  have "netudp_parse_address (netudp_address_to_string example_address 64) = Some example_address"
    by (simp add: parse_to_string [OF example_address_valid])
  then show thesis using that by (simp add: netudp_server_create_def example_config_def clamp_threads_def)
qed

lemma example_start:
  obtains s0 s1 where "netudp_server_create (\<lambda>_. True) sim0 (netudp_address_to_string example_address 64) example_config time = Some s0"
    "srv_step env s0 s1" "sv_running s1" "sv_max_clients s1 = 2" "length (sv_groups s1) = 4" "length (sv_entities s1) = kMaxEntities"
proof -
  obtain s0 where s0: "netudp_server_create (\<lambda>_. True) sim0 (netudp_address_to_string example_address 64) example_config time = Some s0"
    "\<not> sv_running s0" "sv_config s0 = example_config" by (rule example_create)
  obtain s1 where "netudp_server_start True True (True, True) (example_address, []) 2 s0 = Some s1" "sv_running s1" "sv_max_clients s1 = 2"
    "length (sv_groups s1) = 4" "length (sv_entities s1) = kMaxEntities"
    by (simp add: netudp_server_start_def Let_def s0(3) example_config_def)
  then show thesis using that s0 srv_step.start by blast
qed

theorem server_slots_invariant_witness:
  "\<exists>s0 s1. netudp_server_create (\<lambda>_. True) example_sim (netudp_address_to_string example_address 64) example_config 0 = Some s0
     \<and> srv_step example_env s0 s1 \<and> sv_running s1 \<and> sv_max_clients s1 = 2 \<and> server_ok s1"
proof -
  obtain s0 s1 where s: "netudp_server_create (\<lambda>_. True) example_sim (netudp_address_to_string example_address 64) example_config 0 = Some s0"
    "srv_step example_env s0 s1" "sv_running s1" "sv_max_clients s1 = 2" by (rule example_start)
  from server_slots_invariant [OF s(1), of example_env s1] show ?thesis using s by blast
qed



end
