(* ===== verification/Client.thy ===== *)
theory Client
  imports Server_Api
begin

text \<open>
  The client (\<^verbatim>\<open>client.cpp\<close>, \<^verbatim>\<open>connection/client_state.h\<close>): connecting with a token, the request, the server's
  acceptance, the tick of a connected client, and its interface. What the socket holds is an argument of an update;
  what the client sends is a list of packets, all to the address its socket is connected to. An overrun of a
  buffer has no result (\<^const>\<open>None\<close>), and neither has a connect whose buffers cannot be allocated: a client in
  that state follows a null pointer at its next call.
\<close>

section \<open>State\<close>

datatype ClientState =
    TOKEN_EXPIRED
  | INVALID_TOKEN
  | CONNECTION_TIMED_OUT
  | RESPONSE_TIMED_OUT
  | REQUEST_TIMED_OUT
  | CONNECTION_DENIED
  | DISCONNECTED
  | SENDING_REQUEST
  | SENDING_RESPONSE
  | CONNECTED

fun client_state_code :: "ClientState \<Rightarrow> int" where
  "client_state_code TOKEN_EXPIRED = -6"
| "client_state_code INVALID_TOKEN = -5"
| "client_state_code CONNECTION_TIMED_OUT = -4"
| "client_state_code RESPONSE_TIMED_OUT = -3"
| "client_state_code REQUEST_TIMED_OUT = -2"
| "client_state_code CONNECTION_DENIED = -1"
| "client_state_code DISCONNECTED = 0"
| "client_state_code SENDING_REQUEST = 1"
| "client_state_code SENDING_RESPONSE = 2"
| "client_state_code CONNECTED = 3"

definition is_error_state :: "ClientState \<Rightarrow> bool" where
  "is_error_state s \<longleftrightarrow> client_state_code s < 0"

record client_config =
  ccfg_protocol_id :: u64
  ccfg_channels :: "channel_config list"
  ccfg_num_channels :: nat

record netudp_client =
  cl_state :: ClientState
  cl_config :: client_config
  cl_protocol_id :: u64
  cl_connect_token :: "byte list"
  cl_timeout_seconds :: u32
  cl_num_server_addresses :: u32
  cl_server_addresses :: "netudp_address list"
  cl_current_server_index :: nat
  cl_client_to_server_key :: "byte list"
  cl_server_to_client_key :: "byte list"
  cl_conn :: Connection
  cl_client_index :: int
  cl_max_clients :: int
  cl_server_slot_id :: u16
  cl_connect_start_time :: real
  cl_last_send_time :: real
  cl_current_time :: real
  cl_peer :: "netudp_address option"

text \<open>\<^verbatim>\<open>sock\<close> says whether the socket can be created; an address that does not parse is not reported.\<close>

definition netudp_client_create :: "bool \<Rightarrow> client_config \<Rightarrow> real \<Rightarrow> netudp_client option" where
  "netudp_client_create sock config time =
     (if \<not> sock then None
      else Some \<lparr>cl_state = DISCONNECTED, cl_config = config, cl_protocol_id = ccfg_protocol_id config,
        cl_connect_token = replicate 2048 0, cl_timeout_seconds = 10, cl_num_server_addresses = 0,
        cl_server_addresses = replicate NETUDP_MAX_SERVERS_PER_TOKEN address_zero, cl_current_server_index = 0,
        cl_client_to_server_key = replicate 32 0, cl_server_to_client_key = replicate 32 0, cl_conn = connection_new,
        cl_client_index = -1, cl_max_clients = 0, cl_server_slot_id = 0xFFFF, cl_connect_start_time = 0, cl_last_send_time = 0,
        cl_current_time = time, cl_peer = None\<rparr>)"

section \<open>Connecting\<close>

text \<open>The public part of a token lists the addresses of the servers; the bytes are those after the ones read so far.\<close>

definition public_address :: "byte list \<Rightarrow> nat \<times> netudp_address" where
  "public_address buf =
     (let t = buf ! 0;
          (n, bytes) = (if t = NETUDP_ADDRESS_IPV4 then (4, read_at 1 4 buf @ replicate 12 0)
                        else if t = NETUDP_ADDRESS_IPV6 then (16, read_at 1 16 buf) else (0, replicate 16 0))
      in (n + 3, address_zero\<lparr>addr_type := t, addr_data := bytes, addr_port := read_port buf (n + 1)\<rparr>))"

fun public_addresses :: "nat \<Rightarrow> byte list \<Rightarrow> netudp_address list \<times> byte list" where
  "public_addresses 0 buf = ([], buf)"
| "public_addresses (Suc n) buf =
     (let (len, a) = public_address buf; (as, rest) = public_addresses n (drop len buf) in (a # as, rest))"

definition client_keys :: "byte list \<Rightarrow> byte list \<Rightarrow> KeyEpoch \<Rightarrow> KeyEpoch" where
  "client_keys c2s s2c e = e\<lparr>tx_key := c2s, rx_key := s2c, tx_nonce_counter := 0, replay := replay_reset\<rparr>"

definition netudp_client_connect :: "bool \<Rightarrow> byte \<Rightarrow> byte list \<Rightarrow> netudp_client \<Rightarrow> netudp_client option" where
  "netudp_client_connect allocated fill tok cl =
     (let timeout = of_le (read_at TOKEN_AFTER_PRIVATE 4 tok) :: u32; num = of_le (read_at (TOKEN_AFTER_PRIVATE + 4) 4 tok) :: u32;
          cl1 = cl\<lparr>cl_connect_token := tok, cl_timeout_seconds := timeout, cl_num_server_addresses := num\<rparr>
      in if num = 0 \<or> num > of_nat NETUDP_MAX_SERVERS_PER_TOKEN then Some (cl1\<lparr>cl_state := INVALID_TOKEN\<rparr>)
         else if \<not> allocated then None
         else let (addrs, rest) = public_addresses (unat num) (drop (TOKEN_AFTER_PRIVATE + 8) tok);
                  c2s = read_at 0 32 rest; s2c = read_at 32 32 rest; c = cl_conn cl;
                  servers = addrs @ drop (length addrs) (cl_server_addresses cl)
              in Some (cl1\<lparr>cl_server_addresses := servers, cl_client_to_server_key := c2s, cl_server_to_client_key := s2c,
                   cl_conn := init_subsystems True fill (ccfg_channels (cl_config cl)) (ccfg_num_channels (cl_config cl)) (cl_current_time cl)
                     (c\<lparr>cn_key_epoch := client_keys c2s s2c (cn_key_epoch c)\<rparr>),
                   cl_current_server_index := 0, cl_state := SENDING_REQUEST, cl_connect_start_time := cl_current_time cl,
                   cl_last_send_time := 0, cl_peer := Some (servers ! 0)\<rparr>))"

section \<open>The tick\<close>

definition request_packet :: "byte list \<Rightarrow> byte list" where
  "request_packet tok =
     [0] @ read_at 0 13 tok @ read_at 13 8 tok @ read_at 29 8 tok @ read_at 37 24 tok @ read_at 61 1024 tok"

text \<open>The request is repeated. The next server of the list is counted, but the socket stays connected to the first one.\<close>

definition client_request :: "real \<Rightarrow> netudp_client \<Rightarrow> byte list list \<times> netudp_client" where
  "client_request time cl =
     (let (out, cl1) = (if time - cl_last_send_time cl > 1 / 10 then ([request_packet (cl_connect_token cl)], cl\<lparr>cl_last_send_time := time\<rparr>)
                        else ([], cl))
      in if time - cl_connect_start_time cl1 > real (unat (cl_timeout_seconds cl1)) then
           let cl2 = cl1\<lparr>cl_current_server_index := cl_current_server_index cl1 + 1\<rparr>
           in if cl_current_server_index cl2 \<ge> unat (cl_num_server_addresses cl2) then (out, cl2\<lparr>cl_state := REQUEST_TIMED_OUT\<rparr>)
              else (out, cl2\<lparr>cl_connect_start_time := time\<rparr>)
         else (out, cl1))"

definition client_send_pending :: "server_env \<Rightarrow> netudp_client \<Rightarrow> byte list list \<times> netudp_client" where
  "client_send_pending env cl =
     (let (out, c) = send_pending (Client_side (cl_server_slot_id cl)) (se_enc env) (se_kdf env) (cl_protocol_id cl) (cl_current_time cl) (cl_conn cl)
      in (out, cl\<lparr>cl_conn := c\<rparr>))"

definition client_upkeep :: "real \<Rightarrow> Connection \<Rightarrow> Connection" where
  "client_upkeep time c =
     (let c1 = upd_stats (update_throughput time) c
      in upd_data (\<lambda>d. d\<lparr>cd_fragments := snd (cleanup_timeout time (cd_fragments d))\<rparr>) (c1\<lparr>cn_congestion := cc_evaluate (cn_congestion c1)\<rparr>))"

definition client_tick :: "server_env \<Rightarrow> real \<Rightarrow> real \<Rightarrow> netudp_client \<Rightarrow> byte list list \<times> netudp_client" where
  "client_tick env time dt cl =
     (let c = cl_conn cl;
          c1 = c\<lparr>cn_bandwidth := bandwidth_refill time (cn_bandwidth c), cn_budget := budget_refill dt (send_rate (cn_congestion c)) (cn_budget c)\<rparr>;
          (out, cl2) = client_send_pending env (cl\<lparr>cl_conn := c1\<rparr>);
          (ka, c3) = (if time - cn_last_send_time (cl_conn cl2) > 1
                      then client_keepalive (se_enc env) (cl_protocol_id cl2) time (cl_server_slot_id cl2) (cl_conn cl2) else (None, cl_conn cl2));
          out3 = out @ (case ka of None \<Rightarrow> [] | Some p \<Rightarrow> [p]);
          cl3 = cl2\<lparr>cl_conn := c3\<rparr>
      in if time - cn_last_recv_time c3 > real (unat (cl_timeout_seconds cl3)) then (out3, cl3\<lparr>cl_state := CONNECTION_TIMED_OUT\<rparr>)
         else (out3, cl3\<lparr>cl_conn := client_upkeep time c3\<rparr>))"

text \<open>The answer of the server is decrypted into a buffer of 64 bytes.\<close>

definition client_accept :: "server_env \<Rightarrow> real \<Rightarrow> byte list \<Rightarrow> netudp_client \<Rightarrow> netudp_client option" where
  "client_accept env time packet cl =
     (let c = cl_conn cl;
          (r, e) = packet_decrypt (se_dec env) (cl_protocol_id cl) (packet ! 0) 0 (drop 1 packet) (cn_key_epoch c);
          c1 = c\<lparr>cn_key_epoch := e\<rparr>
      in case r of None \<Rightarrow> Some (cl\<lparr>cl_conn := c1\<rparr>)
         | Some payload \<Rightarrow>
             if length payload > 64 then None
             else if length payload \<ge> 14 then
               let sid = of_le (read_at 0 2 payload) :: u16
               in Some (cl\<lparr>cl_server_slot_id := sid, cl_client_index := uint sid, cl_max_clients := sint (of_le (read_at 2 4 payload) :: u32),
                    cl_state := CONNECTED, cl_conn := c1\<lparr>cn_slot_id := sid, cn_last_recv_time := time, cn_active := True\<rparr>\<rparr>)
             else Some (cl\<lparr>cl_conn := c1\<rparr>))"

definition client_handle_data_packet :: "server_env \<Rightarrow> byte list \<Rightarrow> netudp_client \<Rightarrow> netudp_client option" where
  "client_handle_data_packet env packet cl =
     (case client_handle_packet (se_dec env) (cl_protocol_id cl) (cl_current_time cl) (cl_server_slot_id cl) packet (cl_conn cl) of
        (Packet_processed Overrun, c) \<Rightarrow> None
      | (Packet_processed (Frames_disconnect reason), c) \<Rightarrow> Some (cl\<lparr>cl_conn := c\<lparr>cn_active := False\<rparr>, cl_state := DISCONNECTED\<rparr>)
      | (_, c) \<Rightarrow> Some (cl\<lparr>cl_conn := c\<rparr>))"

definition client_packet :: "server_env \<Rightarrow> real \<Rightarrow> byte list \<Rightarrow> netudp_client \<Rightarrow> netudp_client option" where
  "client_packet env time packet cl =
     (let packet_type = packet ! 0 AND 0x0F
      in if packet_type = 5 \<and> cl_state cl = SENDING_REQUEST then client_accept env time packet cl
         else if packet_type \<ge> 4 \<and> cl_state cl = CONNECTED then client_handle_data_packet env packet cl
         else Some cl)"

fun client_packets :: "server_env \<Rightarrow> real \<Rightarrow> byte list list \<Rightarrow> netudp_client \<Rightarrow> netudp_client option" where
  "client_packets env time [] cl = Some cl"
| "client_packets env time (p # ps) cl = Option.bind (client_packet env time p cl) (client_packets env time ps)"

text \<open>At most 64 datagrams are received in one update, and an empty one ends the loop.\<close>

definition netudp_client_update :: "server_env \<Rightarrow> real \<Rightarrow> byte list list \<Rightarrow> netudp_client \<Rightarrow> (byte list list \<times> netudp_client) option" where
  "netudp_client_update env time packets cl =
     (let dt = time - cl_current_time cl;
          (out1, cl1) = (if cl_state cl = SENDING_REQUEST then client_request time (cl\<lparr>cl_current_time := time\<rparr>)
                         else ([], cl\<lparr>cl_current_time := time\<rparr>));
          (out2, cl2) = (if cl_state cl1 = CONNECTED then client_tick env time dt cl1 else ([], cl1))
      in if cl_state cl = SENDING_REQUEST \<and> cl_state cl1 = REQUEST_TIMED_OUT \<or> cl_state cl1 = CONNECTED \<and> cl_state cl2 = CONNECTION_TIMED_OUT
         then Some (out1 @ out2, cl2)
         else map_option (\<lambda>cl3. (out1 @ out2, cl3)) (client_packets env time (takeWhile (\<lambda>p. p \<noteq> []) (take 64 packets)) cl2))"

section \<open>The interface\<close>

definition netudp_client_disconnect :: "netudp_client \<Rightarrow> netudp_client" where
  "netudp_client_disconnect cl = cl\<lparr>cl_state := DISCONNECTED, cl_client_index := -1, cl_conn := (cl_conn cl)\<lparr>cn_active := False\<rparr>\<rparr>"

definition netudp_client_send ::
    "server_env \<Rightarrow> int \<Rightarrow> byte list \<Rightarrow> u32 \<Rightarrow> netudp_client \<Rightarrow> api_code \<times> byte list list \<times> netudp_client" where
  "netudp_client_send env channel data flags cl =
     (let ch = nat channel; set_channel = (\<lambda>f cl. cl\<lparr>cl_conn := upd_channel ch f (cl_conn cl)\<rparr>)
      in if cl_state cl \<noteq> CONNECTED then (Api_not_connected, [], cl)
         else if channel < 0 \<or> channel \<ge> int (cn_num_channels (cl_conn cl)) then (Api_invalid_param, [], cl)
         else case queue_send data flags (cd_channels (cdata (cl_conn cl)) ! ch) of
                (False, c) \<Rightarrow> (Api_no_buffers, [], set_channel (\<lambda>_. c) cl)
              | (True, c) \<Rightarrow>
                  let cl1 = set_channel (\<lambda>_. start_nagle (cl_current_time cl) c) cl
                  in if flags AND NETUDP_SEND_NO_DELAY \<noteq> 0 then (Api_ok, client_send_pending env (set_channel channel_flush cl1))
                     else (Api_ok, [], cl1))"

text \<open>No handlers are registered at a client.\<close>

definition netudp_client_receive :: "(nat \<Rightarrow> bool) \<Rightarrow> nat \<Rightarrow> netudp_client \<Rightarrow> netudp_message list \<times> netudp_client" where
  "netudp_client_receive mem max_messages cl =
     (if cl_state cl \<noteq> CONNECTED then ([], cl)
      else let (ms, ev, q) = receive_loop mem (replicate 256 False) (nat (cl_client_index cl)) 0 max_messages (cd_delivered (cdata (cl_conn cl)))
           in (ms, cl\<lparr>cl_conn := upd_data (\<lambda>d. d\<lparr>cd_delivered := q\<rparr>) (cl_conn cl)\<rparr>))"

definition netudp_client_flush :: "server_env \<Rightarrow> netudp_client \<Rightarrow> byte list list \<times> netudp_client" where
  "netudp_client_flush env cl =
     (if cl_state cl \<noteq> CONNECTED then ([], cl)
      else client_send_pending env (cl\<lparr>cl_conn := fold (\<lambda>ch. upd_channel ch channel_flush) [0..<cn_num_channels (cl_conn cl)] (cl_conn cl)\<rparr>))"

section \<open>Runs of a client\<close>

inductive cli_step :: "server_env \<Rightarrow> netudp_client \<Rightarrow> netudp_client \<Rightarrow> bool" for env :: server_env where
  connect: "length tok = 2048 \<Longrightarrow> netudp_client_connect allocated fill tok cl = Some cl' \<Longrightarrow> cli_step env cl cl'"
| update: "netudp_client_update env time packets cl = Some (out, cl') \<Longrightarrow> cli_step env cl cl'"
| disconnect: "cli_step env cl (netudp_client_disconnect cl)"
| send: "cli_step env cl (snd (snd (netudp_client_send env channel data flags cl)))"
| receive: "cli_step env cl (snd (netudp_client_receive mem n cl))"
| flush: "cli_step env cl (snd (netudp_client_flush env cl))"

text \<open>
  A client that has sent its request or is connected has its buffers, and a connected one knows its slot. Four of
  the states are never entered: a token that has expired, a denied connection and a missing
  response are not noticed, and no response is ever sent.
\<close>

definition client_ok :: "netudp_client \<Rightarrow> bool" where
  "client_ok cl \<longleftrightarrow>
     length (cl_connect_token cl) = 2048
     \<and> (cl_state cl \<in> {SENDING_REQUEST, CONNECTED} \<longrightarrow> cn_data (cl_conn cl) \<noteq> None)
     \<and> (cl_state cl = CONNECTED \<longrightarrow> cn_active (cl_conn cl) \<and> cl_client_index cl = uint (cl_server_slot_id cl))
     \<and> cl_state cl \<notin> {TOKEN_EXPIRED, RESPONSE_TIMED_OUT, CONNECTION_DENIED, SENDING_RESPONSE}"

lemma client_ok_conn:
  assumes "peer c = peer (cl_conn cl)"
  shows "client_ok (cl\<lparr>cl_conn := c\<rparr>) = client_ok cl"
  using assms by (auto simp: client_ok_def peer_def)

lemma client_ok_times [simp]:
  "client_ok (cl\<lparr>cl_current_time := t\<rparr>) = client_ok cl" "client_ok (cl\<lparr>cl_last_send_time := t\<rparr>) = client_ok cl"
  "client_ok (cl\<lparr>cl_connect_start_time := t\<rparr>) = client_ok cl" "client_ok (cl\<lparr>cl_current_server_index := i\<rparr>) = client_ok cl"
  by (simp_all add: client_ok_def)

lemma client_ok_ended:
  "client_ok cl \<Longrightarrow> st \<in> {INVALID_TOKEN, REQUEST_TIMED_OUT, CONNECTION_TIMED_OUT, DISCONNECTED} \<Longrightarrow> client_ok (cl\<lparr>cl_state := st\<rparr>)"
  by (auto simp: client_ok_def)

lemma peer_client [simp]: "peer (snd (client_keepalive enc pid now slot c)) = peer c" "peer (client_upkeep time c) = peer c"
  "peer (snd (client_handle_packet dec pid now slot packet c)) = peer c"
  by (simp_all add: client_keepalive_def client_upkeep_def client_handle_packet_def count_decrypt_failure_def split_beta Let_def split: option.split)

lemma client_send_pending_ok [simp]:
  "client_ok (snd (client_send_pending env cl)) = client_ok cl" "peer (cl_conn (snd (client_send_pending env cl))) = peer (cl_conn cl)"
  "cl_state (snd (client_send_pending env cl)) = cl_state cl"
  by (simp_all add: client_send_pending_def split_beta client_ok_conn)

lemma init_data [simp]: "\<exists>d. cn_data (init_subsystems True fill cfgs n t c) = Some d"
  by (simp add: init_subsystems_def Let_def)

lemma connect_ok:
  assumes ok: "client_ok cl" and tok: "length tok = 2048" and step: "netudp_client_connect allocated fill tok cl = Some cl'"
  shows "client_ok cl'"
proof -
  define num where "num = (of_le (read_at (TOKEN_AFTER_PRIVATE + 4) 4 tok) :: u32)"
  show ?thesis
  proof (cases "num = 0 \<or> num > of_nat NETUDP_MAX_SERVERS_PER_TOKEN")
    case True
    then have "cl' = cl\<lparr>cl_connect_token := tok, cl_timeout_seconds := of_le (read_at TOKEN_AFTER_PRIVATE 4 tok), cl_num_server_addresses := num,
        cl_state := INVALID_TOKEN\<rparr>"
      using step unfolding netudp_client_connect_def num_def [symmetric] Let_def by simp
    then show ?thesis using tok by (simp add: client_ok_def)
  next
    case False
    then have "cl_connect_token cl' = tok \<and> cl_state cl' = SENDING_REQUEST \<and> (\<exists>c. cl_conn cl' = init_subsystems True fill
        (ccfg_channels (cl_config cl)) (ccfg_num_channels (cl_config cl)) (cl_current_time cl) c)"
      using step unfolding netudp_client_connect_def num_def [symmetric] Let_def split_beta by (cases allocated) auto
    then show ?thesis using tok by (auto simp: client_ok_def)
  qed
qed

lemma client_request_ok: "client_ok cl \<Longrightarrow> client_ok (snd (client_request time cl))"
  by (auto simp: client_request_def Let_def intro: client_ok_ended)

lemma client_tick_ok: "client_ok cl \<Longrightarrow> client_ok (snd (client_tick env time dt cl))"
  by (auto simp: client_tick_def Let_def split_beta client_ok_conn intro!: client_ok_ended)

lemma client_packet_ok: "client_ok cl \<Longrightarrow> client_packet env time packet cl = Some cl' \<Longrightarrow> client_ok cl'"
proof -
  assume ok: "client_ok cl" and step: "client_packet env time packet cl = Some cl'"
  have a: "client_ok cl'" if "client_accept env time packet cl = Some cl'" "cl_state cl = SENDING_REQUEST"
    using ok that by (auto simp: client_accept_def client_ok_def Let_def split: prod.splits option.splits if_splits)
  have d: "client_ok cl'" if h: "client_handle_data_packet env packet cl = Some cl'"
  proof -
    obtain r c where rc: "client_handle_packet (se_dec env) (cl_protocol_id cl) (cl_current_time cl) (cl_server_slot_id cl) packet (cl_conn cl) = (r, c)"
      by fastforce
    then have "peer c = peer (cl_conn cl)" using peer_client(3) by (metis snd_conv)
    then have "client_ok (cl\<lparr>cl_conn := c\<rparr>)" using ok client_ok_conn by blast
    moreover have "client_ok (cl\<lparr>cl_conn := c\<lparr>cn_active := False\<rparr>, cl_state := DISCONNECTED\<rparr>)" using ok by (simp add: client_ok_def)
    moreover have "cl' = cl\<lparr>cl_conn := c\<rparr> \<or> cl' = cl\<lparr>cl_conn := c\<lparr>cn_active := False\<rparr>, cl_state := DISCONNECTED\<rparr>"
      using h by (simp add: client_handle_data_packet_def rc split: packet_result.splits recv_outcome.splits)
    ultimately show ?thesis by blast
  qed
  show ?thesis using step ok a d by (auto simp: client_packet_def Let_def split: if_splits)
qed

lemma client_packets_ok: "client_ok cl \<Longrightarrow> client_packets env time ps cl = Some cl' \<Longrightarrow> client_ok cl'"
  by (induction ps arbitrary: cl) (auto dest: client_packet_ok split: bind_splits)

lemma client_update_ok:
  assumes ok: "client_ok cl" and step: "netudp_client_update env time packets cl = Some (out, cl')"
  shows "client_ok cl'"
proof -
  define r1 where "r1 = (if cl_state cl = SENDING_REQUEST then client_request time (cl\<lparr>cl_current_time := time\<rparr>) else ([], cl\<lparr>cl_current_time := time\<rparr>))"
  define r2 where "r2 = (if cl_state (snd r1) = CONNECTED then client_tick env time (time - cl_current_time cl) (snd r1) else ([], snd r1))"
  have "client_ok (snd r1)" using ok client_request_ok by (simp add: r1_def)
  then have "client_ok (snd r2)" using client_tick_ok by (simp add: r2_def)
  moreover have "cl' = snd r2 \<or> client_packets env time (takeWhile (\<lambda>p. p \<noteq> []) (take 64 packets)) (snd r2) = Some cl'"
    using step unfolding netudp_client_update_def Let_def r1_def [symmetric] split_beta r2_def [symmetric] by (auto split: if_splits)
  ultimately show ?thesis using client_packets_ok by blast
qed

lemma cli_step_ok: "cli_step env cl cl' \<Longrightarrow> client_ok cl \<Longrightarrow> client_ok cl'"
proof (induction rule: cli_step.induct)
  case (connect tok allocated fill cl cl')
  then show ?case using connect_ok by blast
next
  case (update time packets cl out cl')
  then show ?case using client_update_ok by blast
next
  case (disconnect cl)
  then show ?case by (auto simp: netudp_client_disconnect_def client_ok_def)
next
  case (send cl channel data flags)
  then show ?case by (auto simp: netudp_client_send_def Let_def client_ok_conn split: prod.split bool.split)
next
  case (receive cl mem n)
  then show ?case by (auto simp: netudp_client_receive_def split_beta Let_def client_ok_conn)
next
  case (flush cl)
  have "peer (fold (\<lambda>ch. upd_channel ch channel_flush) is c) = peer c" for "is" c by (induction "is" arbitrary: c) simp_all
  then show ?case using flush by (auto simp: netudp_client_flush_def client_ok_conn)
qed

lemma client_run_ok:
  assumes "netudp_client_create sock config time = Some cl0" and "(cli_step env)\<^sup>*\<^sup>* cl0 cl"
  shows "client_ok cl"
  using assms(2)
proof (induction rule: rtranclp_induct)
  case base
  then show ?case using assms(1) by (auto simp: netudp_client_create_def client_ok_def split: if_splits)
qed (use cli_step_ok in blast)

end
