(* ===== verification/Handshake.thy ===== *)
theory Handshake
  imports Client Server_Run
begin

text \<open>
  Connecting a client to a server, from the generated token to a connection whose two ends hold paired keys: the
  client reads the public part of the token, its request opens at the server, and the server's answer is what the
  client accepts.
\<close>

section \<open>What the client reads from a token\<close>

lemma public_address_read: "read_address buf = Some r \<Longrightarrow> public_address buf = r"
  by (auto simp: read_address_def public_address_def Let_def split: if_splits)

lemma public_addresses_read: "read_addresses n buf = Some r \<Longrightarrow> public_addresses n buf = r"
  by (induction n arbitrary: buf r) (auto simp: Let_def split_beta dest: public_address_read split: option.splits)

text \<open>The connected pair that a token leads to, before the server's answer.\<close>

definition requesting :: "client_config \<Rightarrow> real \<Rightarrow> byte list \<Rightarrow> u32 \<Rightarrow> byte list \<Rightarrow> byte list \<Rightarrow> netudp_client \<Rightarrow> bool" where
  "requesting ccfg t0 tok timeout c2s s2c cl \<longleftrightarrow>
     cl_state cl = SENDING_REQUEST \<and> cl_connect_token cl = tok \<and> cl_protocol_id cl = ccfg_protocol_id ccfg \<and> cl_timeout_seconds cl = timeout
     \<and> cl_connect_start_time cl = t0
     \<and> cl_conn cl = init_subsystems True 0 (ccfg_channels ccfg) (ccfg_num_channels ccfg) t0
         (connection_new\<lparr>cn_key_epoch := client_keys c2s s2c key_epoch_init\<rparr>)"

lemma connect_with_token:
  assumes law: "aead enc dec 16"
    and gen: "netudp_generate_connect_token enc rnd created names expire timeout cid pid key user = Inr tok"
    and rnd: "length (rnd_c2s rnd) = 32" "length (rnd_s2c rnd) = 32" "length (rnd_nonce rnd) = 24" and user: "\<forall>d. user = Some d \<longrightarrow> length d = 256"
    and cl: "netudp_client_create True ccfg t0 = Some cl"
  obtains c0 where "netudp_client_connect True 0 tok cl = Some c0" "requesting ccfg t0 tok timeout (rnd_c2s rnd) (rnd_s2c rnd) c0"
    "cl_last_send_time c0 = 0" "cl_peer c0 = map_option hd (parse_all names)"
proof -
  obtain addrs priv ct pad where t: "parse_all names = Some addrs" "length ct = 1024"
    "tok = token_header pid created (created + expire) (rnd_nonce rnd) @ ct @ le_bytes 4 timeout @
      le_bytes 4 (of_nat (length addrs) :: u32) @ concat (map write_address_to_token addrs) @ rnd_c2s rnd @ rnd_s2c rnd @ pad"
    and "private_ok priv" "tok_server_addresses priv = addrs"
    by (rule generate_token_shape [OF law gen rnd user]) simp
  then have p: "1 \<le> length addrs" "length addrs \<le> 32" "\<forall>a\<in>set addrs. address_valid a" by (auto simp: private_ok_def)
  have h: "length (token_header pid created (created + expire) (rnd_nonce rnd)) = 61" using token_header_fields(1) [OF rnd(3)] .
  let ?n = "of_nat (length addrs) :: u32" and ?rest = "rnd_c2s rnd @ rnd_s2c rnd @ pad"
  have u: "unat ?n = length addrs" using p(2) by (simp add: unsigned_of_nat take_bit_nat_eq_self)
  then have n: "?n \<noteq> 0" "\<not> ?n > 32" using p by (auto simp: word_less_nat_alt simp del: of_nat_unat)
  have r: "read_at 1085 4 tok = le_bytes 4 timeout" "read_at 1089 4 tok = le_bytes 4 ?n"
    "drop 1093 tok = concat (map write_address_to_token addrs) @ ?rest"
    using h t(2) by (simp_all add: t(3) read_at_def)
  have a: "public_addresses (length addrs) (drop 1093 tok) = (addrs, ?rest)"
    using read_write_addresses [OF p(3), of ?rest] by (simp add: r(3) public_addresses_read)
  have k: "read_at 0 32 ?rest = rnd_c2s rnd" "read_at 32 32 ?rest = rnd_s2c rnd" using rnd by (simp_all add: read_at_def)
  have "addrs \<noteq> []" using p(1) by auto
  then have "(addrs @ as) ! 0 = hd addrs" for as by (simp add: nth_append hd_conv_nth)
  moreover have "cl_protocol_id cl = ccfg_protocol_id ccfg" "cl_current_time cl = t0" "cl_config cl = ccfg" "cl_conn cl = connection_new"
    "cn_key_epoch connection_new = key_epoch_init"
    using cl by (auto simp: netudp_client_create_def connection_new_def)
  ultimately show thesis using n u that t(1)
    by (simp add: netudp_client_connect_def token_layout r(1,2) a k NETUDP_MAX_SERVERS_PER_TOKEN_def
        requesting_def Let_def)
qed

section \<open>The request at the server\<close>

lemma request_opens:
  assumes law: "aead enc (se_token_dec env) 16"
    and gen: "netudp_generate_connect_token enc rnd created names expire timeout cid pid key user = Inr tok"
    and rnd: "length (rnd_c2s rnd) = 32" "length (rnd_s2c rnd) = 32" "length (rnd_nonce rnd) = 24" and user: "\<forall>d. user = Some d \<longrightarrow> length d = 256"
    and s: "sv_protocol_id s = pid" "cfg_private_key (sv_config s) = key" "of_nat (nat \<lfloor>sv_current_time s\<rfloor>) < created + expire"
  obtains addrs where "length (request_packet tok) = 1078" "hd (request_packet tok) = 0"
    "open_request env (request_packet tok) s =
      Some \<lparr>tok_client_id = cid, tok_timeout_seconds = timeout, tok_server_addresses = addrs,
        tok_client_to_server_key = rnd_c2s rnd, tok_server_to_client_key = rnd_s2c rnd,
        tok_user_data = (case user of None \<Rightarrow> replicate 256 0 | Some d \<Rightarrow> d)\<rparr>"
proof -
  obtain addrs priv ct r bs where t: "length ct = 1024" "tok = token_header pid created (created + expire) (rnd_nonce rnd) @ ct @ r"
    "se_token_dec env key (rnd_nonce rnd) (NETUDP_VERSION_INFO @ le_bytes 8 pid @ le_bytes 8 (created + expire)) ct = Some bs"
    "deserialize_private_token bs = Some priv"
    and priv: "priv = \<lparr>tok_client_id = cid, tok_timeout_seconds = timeout, tok_server_addresses = addrs,
      tok_client_to_server_key = rnd_c2s rnd, tok_server_to_client_key = rnd_s2c rnd,
      tok_user_data = (case user of None \<Rightarrow> replicate 256 0 | Some d \<Rightarrow> d)\<rparr>"
    by (rule generate_token_shape [OF law gen rnd user]) blast
  note hf = token_header_fields [OF rnd(3), of pid created "created + expire"]
  have ct: "read_at 61 1024 tok = ct" using hf(1) t(1) by (simp add: t(2) read_at_append)
  have q: "request_packet tok = [0] @ NETUDP_VERSION_INFO @ le_bytes 8 pid @ le_bytes 8 (created + expire) @ rnd_nonce rnd @ ct"
    unfolding request_packet_def ct using hf(2-5) [of "ct @ r", folded t(2)] by simp
  have "read_at 1 13 (request_packet tok) = NETUDP_VERSION_INFO" "read_at 14 8 (request_packet tok) = le_bytes 8 pid"
    "read_at 22 8 (request_packet tok) = le_bytes 8 (created + expire)" "read_at 30 24 (request_packet tok) = rnd_nonce rnd"
    "read_at 54 1024 (request_packet tok) = ct"
    using rnd(3) t(1) by (simp_all add: q read_at_def)
  note f = this this(1) [unfolded One_nat_def]
  have len: "length (request_packet tok) = 1078" using rnd(3) t(1) by (simp add: q)
  have "\<not> of_nat (nat \<lfloor>sv_current_time s\<rfloor>) \<ge> created + expire" using s(3) by simp
  then have "open_request env (request_packet tok) s = Some priv"
    using s(1,2) t(3,4) by (simp add: open_request_def len f PACKET_SIZE_REQUEST_def TOKEN_PRIVATE_ENCRYPTED_SIZE_def)
  then show thesis using that [OF len _ ] by (simp add: priv q)
qed

section \<open>The server's answer\<close>

text \<open>What a slot holds after the request of a client has been accepted.\<close>

definition accepted_client :: "server_env \<Rightarrow> netudp_server \<Rightarrow> netudp_address \<Rightarrow> PrivateConnectToken \<Rightarrow> Connection \<Rightarrow> bool" where
  "accepted_client env s src priv c \<longleftrightarrow>
     cn_active c \<and> cn_address c = src \<and> cn_client_id c = tok_client_id priv \<and> cn_user_data c = tok_user_data priv
     \<and> cn_timeout_seconds c = tok_timeout_seconds priv
     \<and> cn_num_channels c = min (cfg_num_channels (sv_config s)) MAX_CHANNELS_PER_CONNECTION \<and> cn_data c \<noteq> None
     \<and> tx_key (cn_key_epoch c) = tok_server_to_client_key priv \<and> rx_key (cn_key_epoch c) = tok_client_to_server_key priv
     \<and> tx_nonce_counter (cn_key_epoch c) = 1 \<and> replay (cn_key_epoch c) = replay_reset"

definition acceptance :: "server_env \<Rightarrow> netudp_server \<Rightarrow> nat \<Rightarrow> PrivateConnectToken \<Rightarrow> byte list \<Rightarrow> bool" where
  "acceptance env s slot priv p \<longleftrightarrow>
     (\<exists>a ct. length a = 8 \<and> p = 0x15 # ct \<and>
        se_enc env (tok_server_to_client_key priv) (build_nonce 0) (build_aad (sv_protocol_id s) 0x15)
          (le_bytes 2 (of_nat slot :: u16) @ le_bytes 4 (of_nat (sv_max_clients s) :: u32) @ a) = Some ct)"

lemma accept_keepalive_sends:
  assumes law: "aead enc dec ov" and "tx_nonce_counter (cn_key_epoch c) = 0"
  obtains a ct c' where "accept_keepalive enc pid now slot n c = (Some (0x15 # ct), c')" "length a = 8"
    "enc (tx_key (cn_key_epoch c)) (build_nonce 0) (build_aad pid 0x15) (le_bytes 2 (of_nat slot :: u16) @ le_bytes 4 (of_nat n :: u32) @ a) = Some ct"
    "tx_nonce_counter (cn_key_epoch c') = 1" "tx_key (cn_key_epoch c') = tx_key (cn_key_epoch c)" "rx_key (cn_key_epoch c') = rx_key (cn_key_epoch c)"
    "replay (cn_key_epoch c') = replay (cn_key_epoch c)" "peer c' = peer c" "cn_user_data c' = cn_user_data c" "cn_timeout_seconds c' = cn_timeout_seconds c"
proof -
  let ?pt = "le_bytes 2 (of_nat slot :: u16) @ le_bytes 4 (of_nat n :: u32) @ ack_bytes now c"
  obtain ct where ct: "enc (tx_key (cn_key_epoch c)) (build_nonce 0) (build_aad pid 0x15) ?pt = Some ct" "length ct = length ?pt + ov"
    using aead.enc_cases [OF law] by metis
  then have "ct \<noteq> []" by auto
  then show thesis
    using that [of ct "snd (accept_keepalive enc pid now slot n c)" "ack_bytes now c"] ct(1) assms(2)
    by (simp add: accept_keepalive_def packet_encrypt_def ack_bytes_def Let_def)
qed

lemma establish_accepts:
  assumes law: "aead (se_enc env) dec ov" and ok: "server_ok s" "sv_running s" "sv_free_slots s \<noteq> []" "\<not> sv_pipeline_mode s"
    and alloc: "\<forall>c. se_alloc env c" and slot: "slot = last (sv_free_slots s)"
  obtains p s' where "establish env slot src priv s =
      ((if cfg_on_connect (sv_config s) then [On_connect slot (tok_client_id priv) (tok_user_data priv)] else []) @ [Sent src p], s')"
    "acceptance env s slot priv p" "accepted_client env s src priv (conn s' slot)" "sv_active_slots s' = sv_active_slots s @ [slot]"
proof -
  have l: "slot < length (sv_connections s)"
    using ok slot last_in_set [of "sv_free_slots s"] by (auto simp: server_ok_def slots_ok_def)
  define c0 where "c0 = accept_connection slot src priv (conn s slot)"
  define c1 where "c1 = init_subsystems True (se_fill env) (cfg_channels (sv_config s)) (cfg_num_channels (sv_config s)) (sv_current_time s) c0"
  have c1: "tx_nonce_counter (cn_key_epoch c1) = 0" "tx_key (cn_key_epoch c1) = tok_server_to_client_key priv"
    "rx_key (cn_key_epoch c1) = tok_client_to_server_key priv" "replay (cn_key_epoch c1) = replay_reset" "cn_user_data c1 = tok_user_data priv"
    "cn_timeout_seconds c1 = tok_timeout_seconds priv" "cn_active c1" "cn_address c1 = src" "cn_client_id c1 = tok_client_id priv"
    "cn_num_channels c1 = min (cfg_num_channels (sv_config s)) MAX_CHANNELS_PER_CONNECTION" "cn_data c1 \<noteq> None"
    by (simp_all add: c1_def c0_def init_subsystems_def accept_connection_def Let_def)
  obtain a ct c2 where k: "accept_keepalive (se_enc env) (sv_protocol_id s) (sv_current_time s) slot (sv_max_clients s) c1 = (Some (0x15 # ct), c2)"
    "length a = 8" "se_enc env (tx_key (cn_key_epoch c1)) (build_nonce 0) (build_aad (sv_protocol_id s) 0x15)
      (le_bytes 2 (of_nat slot :: u16) @ le_bytes 4 (of_nat (sv_max_clients s) :: u32) @ a) = Some ct"
    "tx_nonce_counter (cn_key_epoch c2) = 1" "tx_key (cn_key_epoch c2) = tx_key (cn_key_epoch c1)" "rx_key (cn_key_epoch c2) = rx_key (cn_key_epoch c1)"
    "replay (cn_key_epoch c2) = replay (cn_key_epoch c1)" "peer c2 = peer c1" "cn_user_data c2 = cn_user_data c1" "cn_timeout_seconds c2 = cn_timeout_seconds c1"
    by (rule accept_keepalive_sends [OF law c1(1)])
  have "accepted_client env s src priv c2" using k(4-) c1 by (simp add: accepted_client_def peer_def)
  moreover have "acceptance env s slot priv (0x15 # ct)" using k(2,3) c1(2) by (auto simp: acceptance_def)
  moreover have "se_alloc env c0" using alloc by blast
  ultimately show thesis
    using that [of "0x15 # ct" "upd_conn slot (\<lambda>_. c2) (claim_slot slot src s)"] l k(1) ok(4)
    by (simp add: establish_def Let_def c0_def [symmetric] c1_def [symmetric] claim_slot_def upd_conn_def server_send_packet_def index_add_def split: option.split)
qed

section \<open>The client's side\<close>

lemma request_step:
  assumes "requesting ccfg t0 tok timeout c2s s2c c" and "time - t0 \<le> real (unat timeout)"
  obtains out c' where "client_request time (c\<lparr>cl_current_time := time\<rparr>) = (out, c')" "requesting ccfg t0 tok timeout c2s s2c c'"
    "time - cl_last_send_time c > 1 / 10 \<Longrightarrow> out = [request_packet tok]" "cl_peer c' = cl_peer c"
  using assms that [of "fst (client_request time (c\<lparr>cl_current_time := time\<rparr>))" "snd (client_request time (c\<lparr>cl_current_time := time\<rparr>))"]
  by (auto simp: client_request_def requesting_def Let_def)

text \<open>The keys of the two ends are crossed and each end expects the nonce that the other one uses next.\<close>

definition paired :: "Connection \<Rightarrow> Connection \<Rightarrow> bool" where
  "paired s c \<longleftrightarrow>
     rx_key (cn_key_epoch s) = tx_key (cn_key_epoch c) \<and> rx_key (cn_key_epoch c) = tx_key (cn_key_epoch s)
     \<and> tx_nonce_counter (cn_key_epoch c) = 0 \<and> in_step 0 (replay (cn_key_epoch s))
     \<and> tx_nonce_counter (cn_key_epoch s) = most_recent (replay (cn_key_epoch c)) + 1 \<and> in_step 1 (replay (cn_key_epoch c))"

lemma client_accepts:
  assumes law: "aead (se_enc env) (se_dec env) ov"
    and c: "requesting ccfg t0 tok timeout (tok_client_to_server_key priv) (tok_server_to_client_key priv) c"
    and p: "acceptance env s slot priv p" and pid: "sv_protocol_id s = ccfg_protocol_id ccfg" and n: "sv_max_clients s < 2 ^ 31" "slot < 2 ^ 16"
  obtains c' where "client_packet env time p c = Some c'" "cl_state c' = CONNECTED" "cl_client_index c' = int slot"
    "cl_max_clients c' = int (sv_max_clients s)" "cl_server_slot_id c' = of_nat slot" "cn_active (cl_conn c')" "cl_peer c' = cl_peer c"
    "cl_conn c' = (init_subsystems True 0 (ccfg_channels ccfg) (ccfg_num_channels ccfg) t0
      (connection_new\<lparr>cn_key_epoch := (client_keys (tok_client_to_server_key priv) (tok_server_to_client_key priv) key_epoch_init)
         \<lparr>replay := advance 0 replay_reset\<rparr>\<rparr>))\<lparr>cn_slot_id := of_nat slot, cn_last_recv_time := time, cn_active := True\<rparr>"
proof -
  let ?pt = "\<lambda>a. le_bytes 2 (of_nat slot :: u16) @ le_bytes 4 (of_nat (sv_max_clients s) :: u32) @ a"
  let ?e = "client_keys (tok_client_to_server_key priv) (tok_server_to_client_key priv) key_epoch_init"
  obtain a ct where p': "length a = 8" "p = 0x15 # ct" and e: "se_enc env (tok_server_to_client_key priv) (build_nonce 0)
      (build_aad (ccfg_protocol_id ccfg) 0x15) (?pt a) = Some ct" using p pid by (auto simp: acceptance_def)
  have d: "se_dec env (tok_server_to_client_key priv) (build_nonce 0) (build_aad (ccfg_protocol_id ccfg) 0x15) ct = Some (?pt a)"
    using aead.dec_enc [OF law e] .
  have "ct \<noteq> []" using aead.dec_length [OF law d] by auto
  moreover have "\<not> is_duplicate replay_reset 0" by (simp add: is_duplicate_def replay_reset_def WINDOW_SIZE_def EMPTY_SLOT_def)
  ultimately have dec: "packet_decrypt (se_dec env) (ccfg_protocol_id ccfg) 0x15 0 ct ?e = (Some (?pt a), ?e\<lparr>replay := advance 0 replay_reset\<rparr>)"
    using d by (simp add: packet_decrypt_def client_keys_def)
  have ep: "cn_key_epoch (cl_conn c) = ?e" "cl_state c = SENDING_REQUEST" "cl_protocol_id c = ccfg_protocol_id ccfg"
    using c by (simp_all add: requesting_def init_subsystems_def Let_def)
  have ty: "(0x15 :: byte) AND 0x0F = 5" by simp
  have conn': "(cl_conn c)\<lparr>cn_key_epoch := ?e\<lparr>replay := advance 0 replay_reset\<rparr>\<rparr> = init_subsystems True 0 (ccfg_channels ccfg) (ccfg_num_channels ccfg) t0
      (connection_new\<lparr>cn_key_epoch := ?e\<lparr>replay := advance 0 replay_reset\<rparr>\<rparr>)"
    using c by (simp add: requesting_def init_subsystems_def Let_def)
  have len: "length (?pt a) = 14" using p'(1) by simp
  have rd: "read_at 0 2 (?pt a) = le_bytes 2 (of_nat slot :: u16)" "read_at 2 4 (?pt a) = le_bytes 4 (of_nat (sv_max_clients s) :: u32)"
    by (simp_all add: read_at_def)
  have w: "uint (of_nat slot :: u16) = int slot" "sint (of_nat (sv_max_clients s) :: u32) = int (sv_max_clients s)"
    using n by (simp_all add: unsigned_of_nat take_bit_nat_eq_self uint_nat signed_of_nat signed_take_bit_int_eq_self)
  show thesis
    using that [of "the (client_packet env time p c)"] dec ep len
    by (simp add: client_packet_def client_accept_def p'(2) ty rd w conn' Let_def)
qed

lemma paired_init:
  assumes "accepted_client env s src priv a"
    and "b = (init_subsystems True 0 chs n t (connection_new\<lparr>cn_key_epoch := (client_keys (tok_client_to_server_key priv)
       (tok_server_to_client_key priv) key_epoch_init)\<lparr>replay := advance 0 replay_reset\<rparr>\<rparr>))\<lparr>cn_slot_id := sid, cn_last_recv_time := time, cn_active := True\<rparr>"
  shows "paired a b" "sender_ok b" "cn_num_channels b = min n MAX_CHANNELS_PER_CONNECTION"
proof -
  let ?c = "init_subsystems True 0 chs n t (connection_new\<lparr>cn_key_epoch := (client_keys (tok_client_to_server_key priv)
       (tok_server_to_client_key priv) key_epoch_init)\<lparr>replay := advance 0 replay_reset\<rparr>\<rparr>)"
  obtain d where "cn_data ?c = Some d" by (simp add: init_subsystems_def Let_def)
  then have "sender_ok ?c" using init_sender_ok [OF _ refl] by blast
  then show "sender_ok b" by (simp add: assms(2) sender_ok_def)
  have "in_step 1 (advance 0 replay_reset)" using in_step_next(3) [of 0 key_epoch_init] by (simp add: key_epoch_init_def in_step_reset)
  moreover have "most_recent replay_reset = 0" by (simp add: replay_reset_def)
  ultimately show "paired a b" using assms(1)
    by (simp add: paired_def accepted_client_def assms(2) init_subsystems_def client_keys_def in_step_reset Let_def)
  show "cn_num_channels b = min n MAX_CHANNELS_PER_CONNECTION" by (simp add: assms(2) init_subsystems_def Let_def)
qed

section \<open>The handshake\<close>


text \<open>A server with two slots that has just been started, and a client that is configured like it.\<close>

definition example_client_config :: client_config where
  "example_client_config = \<lparr>ccfg_protocol_id = 7, ccfg_channels = example_channels, ccfg_num_channels = 2\<rparr>"

lemma example_ready:
  obtains s where "server_ok s" "sv_running s" "\<not> sv_pipeline_mode s" "sv_protocol_id s = 7" "cfg_private_key (sv_config s) = replicate 32 9"
    "sv_free_slots s = [1, 0]" "\<not> known_client cid s" "should_process_new_connection (sv_ddos s)" "sv_max_clients s = 2"
    "hm_find k (sv_fingerprints s) = None" "sv_current_time s = 1005" "cfg_num_channels (sv_config s) = 2"
proof -
  obtain s0 where s0: "netudp_server_create (\<lambda>_. True) example_sim (netudp_address_to_string example_address 64) example_config 1005 = Some s0"
    "\<not> sv_running s0" "sv_config s0 = example_config" "sv_current_time s0 = 1005" "sv_num_io_threads s0 = 1" "sv_protocol_id s0 = 7" "sv_ddos s0 = ddos_reset"
    "sv_address_to_slot s0 = hm_new 4096" "sv_fingerprints s0 = hm_new 2048" "sv_rate_limiter s0 = limiter_new" "\<not> sv_sim_enabled s0" "\<not> sv_pipeline_mode s0"
    by (rule example_create)
  obtain s1 where s1: "netudp_server_start True True (True, True) (example_address, []) 2 s0 = Some s1" by (simp add: netudp_server_start_def Let_def)
  have "server_ok s1" using srv_step_ok [OF srv_step.start [OF s0(2) s1]] create_ok [OF s0(1)] by blast
  moreover have "pow2_capacity 2048" using pow2_capacity_power [of 11] by simp
  moreover have "should_process_new_connection ddos_reset" by (simp add: should_process_new_connection_def ddos_reset_def)
  ultimately show thesis using that [of s1] s1 s0
    by (auto simp: netudp_server_start_def Let_def example_config_def known_client_def connection_new_def numeral_2_eq_2)
qed


end
