(* ===== verification/Buffer_Api.thy ===== *)
theory Buffer_Api
  imports Server_Api
begin

text \<open>
  The buffers of \<^verbatim>\<open>api.cpp\<close>: the global pool of 64 buffers, writing and reading typed values at a cursor, sending a
  buffer, and sending a batch of messages. A buffer is its index in the pool. Floats are their bit patterns. What is
  written reads back once the cursor is put back to where it was; no function of the interface does that.
\<close>

section \<open>Buffers\<close>

record netudp_buffer =
  bf_data :: "byte list"
  bf_capacity :: nat
  bf_position :: nat

definition buffer_put :: "nat \<Rightarrow> byte list \<Rightarrow> netudp_buffer \<Rightarrow> netudp_buffer" where
  "buffer_put needed bs b =
     (if bf_position b + needed > bf_capacity b then b
      else b\<lparr>bf_data := write_at (bf_position b) bs (bf_data b), bf_position := bf_position b + length bs\<rparr>)"

definition netudp_buffer_write_u8 :: "byte \<Rightarrow> netudp_buffer \<Rightarrow> netudp_buffer" where
  "netudp_buffer_write_u8 v = buffer_put 1 [v]"

definition netudp_buffer_write_u16 :: "u16 \<Rightarrow> netudp_buffer \<Rightarrow> netudp_buffer" where
  "netudp_buffer_write_u16 v = buffer_put 2 (le_bytes 2 v)"

definition netudp_buffer_write_u32 :: "u32 \<Rightarrow> netudp_buffer \<Rightarrow> netudp_buffer" where
  "netudp_buffer_write_u32 v = buffer_put 4 (le_bytes 4 v)"

definition netudp_buffer_write_u64 :: "u64 \<Rightarrow> netudp_buffer \<Rightarrow> netudp_buffer" where
  "netudp_buffer_write_u64 v = buffer_put 8 (le_bytes 8 v)"

definition netudp_buffer_write_f32 :: "u32 \<Rightarrow> netudp_buffer \<Rightarrow> netudp_buffer" where
  "netudp_buffer_write_f32 v = buffer_put 4 (le_bytes 4 v)"

definition netudp_buffer_write_f64 :: "u64 \<Rightarrow> netudp_buffer \<Rightarrow> netudp_buffer" where
  "netudp_buffer_write_f64 v = buffer_put 8 (le_bytes 8 v)"

function varint32_bytes :: "u32 \<Rightarrow> byte list" where
  "varint32_bytes uv = (if uv > 0x7F then (ucast (uv AND 0x7F) OR 0x80) # varint32_bytes (drop_bit 7 uv) else [ucast uv])"
  by pat_completeness auto
termination
proof (relation "measure unat", goal_cases)
  case (2 uv)
  then have "0 < unat uv" by (simp add: word_less_nat_alt)
  then show ?case by (simp add: unat_drop7)
qed simp

declare varint32_bytes.simps [simp del]

text \<open>Room for five bytes is asked for, whatever the value needs.\<close>

definition netudp_buffer_write_varint :: "u32 \<Rightarrow> netudp_buffer \<Rightarrow> netudp_buffer" where
  "netudp_buffer_write_varint v = buffer_put 5 (varint32_bytes v)"

definition netudp_buffer_write_bytes :: "byte list \<Rightarrow> netudp_buffer \<Rightarrow> netudp_buffer" where
  "netudp_buffer_write_bytes data = buffer_put (length data) data"

definition netudp_buffer_write_string :: "byte list \<Rightarrow> nat \<Rightarrow> netudp_buffer \<Rightarrow> netudp_buffer" where
  "netudp_buffer_write_string str max_len =
     (let s = takeWhile (\<lambda>c. c \<noteq> 0) (take max_len str)
      in buffer_put (2 + length s) (le_bytes 2 (of_nat (length s) :: u16) @ s))"

definition buffer_get :: "nat \<Rightarrow> netudp_buffer \<Rightarrow> byte list \<times> netudp_buffer" where
  "buffer_get n b =
     (if bf_position b + n > bf_capacity b then (replicate n 0, b)
      else (read_at (bf_position b) n (bf_data b), b\<lparr>bf_position := bf_position b + n\<rparr>))"

definition netudp_buffer_read_u8 :: "netudp_buffer \<Rightarrow> byte \<times> netudp_buffer" where
  "netudp_buffer_read_u8 b = apfst hd (buffer_get 1 b)"

definition netudp_buffer_read_u16 :: "netudp_buffer \<Rightarrow> u16 \<times> netudp_buffer" where
  "netudp_buffer_read_u16 b = apfst of_le (buffer_get 2 b)"

definition netudp_buffer_read_u32 :: "netudp_buffer \<Rightarrow> u32 \<times> netudp_buffer" where
  "netudp_buffer_read_u32 b = apfst of_le (buffer_get 4 b)"

definition netudp_buffer_read_u64 :: "netudp_buffer \<Rightarrow> u64 \<times> netudp_buffer" where
  "netudp_buffer_read_u64 b = apfst of_le (buffer_get 8 b)"

definition netudp_buffer_read_f32 :: "netudp_buffer \<Rightarrow> u32 \<times> netudp_buffer" where
  "netudp_buffer_read_f32 b = apfst of_le (buffer_get 4 b)"

definition netudp_buffer_read_f64 :: "netudp_buffer \<Rightarrow> u64 \<times> netudp_buffer" where
  "netudp_buffer_read_f64 b = apfst of_le (buffer_get 8 b)"

fun varint32_loop :: "nat \<Rightarrow> u32 \<Rightarrow> byte list \<Rightarrow> u32 \<times> nat" where
  "varint32_loop shift result [] = (result, 0)"
| "varint32_loop shift result (b # bs) =
     (let r = result OR push_bit shift (ucast (b AND 0x7F))
      in if b AND 0x80 = 0 then (r, 1)
         else if shift + 7 \<ge> 35 then (r, 1)
         else apsnd Suc (varint32_loop (shift + 7) r bs))"

definition netudp_buffer_read_varint :: "netudp_buffer \<Rightarrow> u32 \<times> netudp_buffer" where
  "netudp_buffer_read_varint b =
     (let (v, n) = varint32_loop 0 0 (drop (bf_position b) (take (bf_capacity b) (bf_data b)))
      in (v, b\<lparr>bf_position := bf_position b + n\<rparr>))"

section \<open>The pool\<close>

record buffer_pool =
  bp_buffers :: "netudp_buffer list"
  bp_in_use :: "bool list"

definition buffer_pool_start :: buffer_pool where
  "buffer_pool_start = \<lparr>bp_buffers = replicate 64 \<lparr>bf_data = replicate NETUDP_MTU 0, bf_capacity = 0, bf_position = 0\<rparr>, bp_in_use = replicate 64 False\<rparr>"

definition netudp_server_acquire_buffer :: "buffer_pool \<Rightarrow> nat option \<times> buffer_pool" where
  "netudp_server_acquire_buffer p =
     (case List.find (\<lambda>i. \<not> bp_in_use p ! i) [0..<64] of
        None \<Rightarrow> (None, p)
      | Some i \<Rightarrow>
          (Some i, p\<lparr>bp_in_use := (bp_in_use p)[i := True],
             bp_buffers := (bp_buffers p)[i := \<lparr>bf_data = replicate NETUDP_MTU 0, bf_capacity = NETUDP_MTU, bf_position = 0\<rparr>]\<rparr>))"

text \<open>The buffer goes back to the pool whether the message could be queued or not.\<close>

definition netudp_server_send_buffer ::
    "server_env \<Rightarrow> int \<Rightarrow> int \<Rightarrow> nat \<Rightarrow> u32 \<Rightarrow> buffer_pool \<Rightarrow> netudp_server \<Rightarrow> api_code \<times> buffer_pool \<times> srv_event list \<times> netudp_server" where
  "netudp_server_send_buffer env client_index channel i flags p s =
     (let b = bp_buffers p ! i; (r, ev, s1) = netudp_server_send env client_index channel (take (bf_position b) (bf_data b)) flags s
      in (r, p\<lparr>bp_in_use := (bp_in_use p)[i := False]\<rparr>, ev, s1))"

record netudp_send_entry =
  se_client_index :: int
  se_channel :: int
  se_data :: "byte list"
  se_flags :: u32

fun send_entries :: "server_env \<Rightarrow> netudp_send_entry list \<Rightarrow> netudp_server \<Rightarrow> nat \<times> srv_event list \<times> netudp_server" where
  "send_entries env [] s = (0, [], s)"
| "send_entries env (e # es) s =
     (let (rc, ev, s1) = netudp_server_send env (se_client_index e) (se_channel e) (se_data e) (se_flags e) s;
          (n, ev2, s2) = send_entries env es s1
      in ((if rc = Api_ok then 1 else 0) + n, ev @ ev2, s2))"

text \<open>The number of entries queued, or no number when there is none to queue.\<close>

definition netudp_server_send_batch :: "server_env \<Rightarrow> netudp_send_entry list \<Rightarrow> netudp_server \<Rightarrow> nat option \<times> srv_event list \<times> netudp_server" where
  "netudp_server_send_batch env entries s =
     (if entries = [] then (None, [], s) else apfst Some (send_entries env entries s))"

section \<open>What is written reads back\<close>

lemma varint32_loop_bytes:
  assumes "k \<le> 4" and "unat v < 2 ^ (32 - 7 * k)"
  shows "varint32_loop (7 * k) r (varint32_bytes v @ rest) = (r OR push_bit (7 * k) v, length (varint32_bytes v))"
  using assms
proof (induction v arbitrary: k r rule: varint32_bytes.induct)
  case (1 v)
  define b :: byte where "b = ucast (v AND 0x7F)"
  have bits: "b AND 0x7F = b" "b AND 0x80 = 0" "(b OR 0x80) AND 0x7F = b" "(b OR 0x80) AND 0x80 \<noteq> 0" "ucast b = v AND 0x7F"
    using low_bits [OF b_def] low_byte [of v] by (simp_all add: b_def)
  show ?case
  proof (cases "v > 0x7F")
    case False
    then have "unat v < 2 ^ 7" by (simp add: word_less_nat_alt)
    then have "unat (drop_bit 7 v) = 0" unfolding unat_drop7 by simp
    then have d: "drop_bit 7 v = 0" by (simp only: unat_eq_0)
    have low: "v AND 0x7F = v" using push_bit_split [of 0 v] by (simp add: d)
    then have "varint32_bytes v = [b]" by (subst varint32_bytes.simps) (simp add: False b_def)
    then show ?thesis using bits low by simp
  next
    case True
    have enc: "varint32_bytes v = (b OR 0x80) # varint32_bytes (drop_bit 7 v)" by (subst varint32_bytes.simps) (simp add: True b_def)
    have "2 ^ 7 \<le> unat v" using True by (simp add: word_less_nat_alt)
    then have s: "7 < 32 - 7 * k" using 1(3) by (metis le_less_trans nat_power_less_imp_less pos2)
    then have k: "k + 1 \<le> 4" "\<not> 7 * k + 7 \<ge> 35" by linarith+
    have "32 - 7 * k = 7 + (32 - 7 * (k + 1))" using s by simp
    then have "2 ^ (32 - 7 * k) = (2 ^ 7 * 2 ^ (32 - 7 * (k + 1)) :: nat)" by (metis power_add)
    then have small: "unat (drop_bit 7 v) < 2 ^ (32 - 7 * (k + 1))"
      using 1(3) unfolding unat_drop7 by (subst div_less_iff_less_mult) (auto simp: mult.commute)
    have e: "7 * (k + 1) = 7 * k + 7" by simp
    have "varint32_loop (7 * (k + 1)) (r OR push_bit (7 * k) (v AND 0x7F)) (varint32_bytes (drop_bit 7 v) @ rest) =
        ((r OR push_bit (7 * k) (v AND 0x7F)) OR push_bit (7 * (k + 1)) (drop_bit 7 v), length (varint32_bytes (drop_bit 7 v)))"
      by (rule 1(1) [OF True k(1) small])
    then show ?thesis unfolding e enc append_Cons varint32_loop.simps Let_def bits
      using k(2) bits(4) by (simp only: or.assoc push_bit_split if_False apsnd_conv length_Cons)
  qed
qed

lemma length_varint32: "length (varint32_bytes v) \<le> 5"
proof -
  have "length (varint32_bytes v) \<le> n" if "unat v < 2 ^ (7 * n)" "n > 0" for n
    using that
  proof (induction n arbitrary: v)
    case (Suc n)
    show ?case
    proof (cases "v > 0x7F")
      case True
      have "2 ^ 7 \<le> unat v" using True by (simp add: word_less_nat_alt)
      then have n: "n > 0" using Suc.prems(1) by (cases n) auto
      have "unat (drop_bit 7 v) < 2 ^ (7 * n)"
        using Suc.prems unfolding unat_drop7 by (subst div_less_iff_less_mult) (auto simp: power_add mult.commute)
      then show ?thesis using Suc.IH n by (subst varint32_bytes.simps) (simp add: True)
    qed (subst varint32_bytes.simps, simp)
  qed simp
  from this [of 5] unsigned_less [of v, where 'a = nat] show ?thesis by simp
qed

text \<open>The values the interface writes and reads.\<close>

datatype buffer_value = V_u8 byte | V_u16 u16 | V_u32 u32 | V_u64 u64 | V_f32 u32 | V_f64 u64 | V_varint u32

datatype buffer_kind = K_u8 | K_u16 | K_u32 | K_u64 | K_f32 | K_f64 | K_varint

fun kind_of :: "buffer_value \<Rightarrow> buffer_kind" where
  "kind_of (V_u8 v) = K_u8" | "kind_of (V_u16 v) = K_u16" | "kind_of (V_u32 v) = K_u32" | "kind_of (V_u64 v) = K_u64"
| "kind_of (V_f32 v) = K_f32" | "kind_of (V_f64 v) = K_f64" | "kind_of (V_varint v) = K_varint"

fun write_value :: "buffer_value \<Rightarrow> netudp_buffer \<Rightarrow> netudp_buffer" where
  "write_value (V_u8 v) b = netudp_buffer_write_u8 v b"
| "write_value (V_u16 v) b = netudp_buffer_write_u16 v b"
| "write_value (V_u32 v) b = netudp_buffer_write_u32 v b"
| "write_value (V_u64 v) b = netudp_buffer_write_u64 v b"
| "write_value (V_f32 v) b = netudp_buffer_write_f32 v b"
| "write_value (V_f64 v) b = netudp_buffer_write_f64 v b"
| "write_value (V_varint v) b = netudp_buffer_write_varint v b"

fun read_value :: "buffer_kind \<Rightarrow> netudp_buffer \<Rightarrow> buffer_value \<times> netudp_buffer" where
  "read_value K_u8 b = apfst V_u8 (netudp_buffer_read_u8 b)"
| "read_value K_u16 b = apfst V_u16 (netudp_buffer_read_u16 b)"
| "read_value K_u32 b = apfst V_u32 (netudp_buffer_read_u32 b)"
| "read_value K_u64 b = apfst V_u64 (netudp_buffer_read_u64 b)"
| "read_value K_f32 b = apfst V_f32 (netudp_buffer_read_f32 b)"
| "read_value K_f64 b = apfst V_f64 (netudp_buffer_read_f64 b)"
| "read_value K_varint b = apfst V_varint (netudp_buffer_read_varint b)"

fun read_values :: "buffer_kind list \<Rightarrow> netudp_buffer \<Rightarrow> buffer_value list \<times> netudp_buffer" where
  "read_values [] b = ([], b)"
| "read_values (k # ks) b = (let (v, b1) = read_value k b; (vs, b2) = read_values ks b1 in (v # vs, b2))"

fun value_bytes :: "buffer_value \<Rightarrow> byte list" where
  "value_bytes (V_u8 v) = [v]" | "value_bytes (V_u16 v) = le_bytes 2 v" | "value_bytes (V_u32 v) = le_bytes 4 v"
| "value_bytes (V_u64 v) = le_bytes 8 v" | "value_bytes (V_f32 v) = le_bytes 4 v" | "value_bytes (V_f64 v) = le_bytes 8 v"
| "value_bytes (V_varint v) = varint32_bytes v"

text \<open>The room a write asks for.\<close>

fun value_room :: "buffer_value \<Rightarrow> nat" where
  "value_room (V_varint v) = 5" | "value_room v = length (value_bytes v)"

definition buffer_ok :: "netudp_buffer \<Rightarrow> bool" where
  "buffer_ok b \<longleftrightarrow> bf_capacity b \<le> length (bf_data b) \<and> bf_position b \<le> bf_capacity b"

lemma value_bytes_room: "length (value_bytes v) \<le> value_room v"
  by (cases v) (simp_all add: length_varint32)

lemma write_value_eq: "write_value v b = buffer_put (value_room v) (value_bytes v) b"
  by (cases v) (simp_all add: netudp_buffer_write_u8_def netudp_buffer_write_u16_def netudp_buffer_write_u32_def netudp_buffer_write_u64_def
      netudp_buffer_write_f32_def netudp_buffer_write_f64_def netudp_buffer_write_varint_def)

lemma read_value_back:
  assumes "buffer_ok b" and "bf_position b + length (value_bytes v) \<le> bf_capacity b"
    and "read_at (bf_position b) (length (value_bytes v)) (bf_data b) = value_bytes v"
  shows "read_value (kind_of v) b = (v, b\<lparr>bf_position := bf_position b + length (value_bytes v)\<rparr>)"
proof (cases v)
  case (V_varint w)
  let ?n = "length (varint32_bytes w)" and ?r = "drop (bf_position b) (take (bf_capacity b) (bf_data b))"
  have "take ?n ?r = varint32_bytes w" using assms(2,3) V_varint by (simp add: read_at_def take_drop min_def)
  then have "?r = varint32_bytes w @ drop ?n ?r" by (metis append_take_drop_id)
  moreover have "varint32_loop 0 0 (varint32_bytes w @ drop ?n ?r) = (w, ?n)"
    using varint32_loop_bytes [of 0 w 0 "drop ?n ?r"] unsigned_less [of w, where 'a = nat] by simp
  ultimately show ?thesis using V_varint by (simp add: netudp_buffer_read_varint_def)
qed (use assms in \<open>simp_all add: netudp_buffer_read_u8_def netudp_buffer_read_u16_def netudp_buffer_read_u32_def netudp_buffer_read_u64_def
      netudp_buffer_read_f32_def netudp_buffer_read_f64_def buffer_get_def\<close>)

fun fits :: "buffer_value list \<Rightarrow> nat \<Rightarrow> nat \<Rightarrow> bool" where
  "fits [] pos cap \<longleftrightarrow> True"
| "fits (v # vs) pos cap \<longleftrightarrow> pos + value_room v \<le> cap \<and> fits vs (pos + length (value_bytes v)) cap"

abbreviation values_bytes :: "buffer_value list \<Rightarrow> byte list" where
  "values_bytes vs \<equiv> concat (map value_bytes vs)"

lemma fits_length: "fits vs pos cap \<Longrightarrow> pos \<le> cap \<Longrightarrow> pos + length (values_bytes vs) \<le> cap"
proof (induction vs arbitrary: pos)
  case (Cons v vs)
  then have "pos + length (value_bytes v) \<le> cap" using value_bytes_room [of v] by simp
  then show ?case using Cons.prems Cons.IH [of "pos + length (value_bytes v)"] by simp
qed simp

lemma write_at_append:
  "pos + length xs + length ys \<le> length buf \<Longrightarrow> write_at (pos + length xs) ys (write_at pos xs buf) = write_at pos (xs @ ys) buf"
  by (simp add: write_at_def ac_simps)

lemma write_values_eq:
  assumes "buffer_ok b" and "fits vs (bf_position b) (bf_capacity b)"
  shows "fold write_value vs b = b\<lparr>bf_data := write_at (bf_position b) (values_bytes vs) (bf_data b), bf_position := bf_position b + length (values_bytes vs)\<rparr>"
  using assms
proof (induction vs arbitrary: b)
  case (Cons v vs)
  let ?b1 = "b\<lparr>bf_data := write_at (bf_position b) (value_bytes v) (bf_data b), bf_position := bf_position b + length (value_bytes v)\<rparr>"
  have r: "bf_position b + value_room v \<le> bf_capacity b" "bf_position b + length (value_bytes v) \<le> bf_capacity b"
    using Cons.prems value_bytes_room [of v] by simp_all
  then have w: "write_value v b = ?b1" by (simp add: write_value_eq buffer_put_def)
  have "buffer_ok ?b1" using Cons.prems(1) r(2) by (simp add: buffer_ok_def)
  then have "fold write_value vs ?b1 = ?b1\<lparr>bf_data := write_at (bf_position ?b1) (values_bytes vs) (bf_data ?b1), bf_position := bf_position ?b1 + length (values_bytes vs)\<rparr>"
    using Cons.prems(2) by (intro Cons.IH) simp_all
  moreover have "bf_position b + length (value_bytes v) + length (values_bytes vs) \<le> length (bf_data b)"
    using Cons.prems fits_length [of vs "bf_position b + length (value_bytes v)" "bf_capacity b"] r(2) by (simp add: buffer_ok_def)
  ultimately show ?case by (simp add: w write_at_append add.assoc)
qed (simp add: write_at_def)

lemma read_values_back:
  assumes "buffer_ok b" and "bf_position b + length (values_bytes vs) \<le> bf_capacity b"
    and "read_at (bf_position b) (length (values_bytes vs)) (bf_data b) = values_bytes vs"
  shows "read_values (map kind_of vs) b = (vs, b\<lparr>bf_position := bf_position b + length (values_bytes vs)\<rparr>)"
  using assms
proof (induction vs arbitrary: b)
  case (Cons v vs)
  let ?n = "length (value_bytes v)" and ?b1 = "b\<lparr>bf_position := bf_position b + length (value_bytes v)\<rparr>"
  have "take ?n (take (?n + length (values_bytes vs)) (drop (bf_position b) (bf_data b))) = value_bytes v"
    using Cons.prems(3) by (simp add: read_at_def)
  then have "read_at (bf_position b) ?n (bf_data b) = value_bytes v" by (simp add: read_at_def min_def)
  then have v: "read_value (kind_of v) b = (v, ?b1)" using Cons.prems by (intro read_value_back) simp_all
  have "drop ?n (take (?n + length (values_bytes vs)) (drop (bf_position b) (bf_data b))) = values_bytes vs"
    using Cons.prems(3) by (simp add: read_at_def)
  then have "read_at (bf_position ?b1) (length (values_bytes vs)) (bf_data ?b1) = values_bytes vs"
    by (simp add: read_at_def drop_take add.commute)
  then have "read_values (map kind_of vs) ?b1 = (vs, ?b1\<lparr>bf_position := bf_position ?b1 + length (values_bytes vs)\<rparr>)"
    using Cons.prems by (intro Cons.IH) (simp_all add: buffer_ok_def)
  then show ?case by (simp add: v add.assoc)
qed simp

text \<open>
  C39. What is written into a buffer reads back: values of any types that fit behind the cursor of a buffer, written one after
  the other, are read back as they were by the reads of the same types once the cursor is where the first write
  started, and leave the cursor where the last write left it.
\<close>

theorem buffer_round_trip:
  assumes "buffer_ok b" and "fits vs (bf_position b) (bf_capacity b)"
  shows "read_values (map kind_of vs) ((fold write_value vs b)\<lparr>bf_position := bf_position b\<rparr>) = (vs, fold write_value vs b)"
proof -
  have "bf_position b + length (values_bytes vs) \<le> bf_capacity b" using fits_length [OF assms(2)] assms(1) by (simp add: buffer_ok_def)
  then show ?thesis
    using assms read_values_back [of "(fold write_value vs b)\<lparr>bf_position := bf_position b\<rparr>" vs]
    by (simp add: write_values_eq buffer_ok_def)
qed

theorem buffer_round_trip_witness:
  "let b = \<lparr>bf_data = replicate 16 0, bf_capacity = 16, bf_position = 1\<rparr>; vs = [V_u16 0xBEEF, V_varint 300, V_u64 7]
   in read_values (map kind_of vs) ((fold write_value vs b)\<lparr>bf_position := 1\<rparr>) = (vs, fold write_value vs b)"
proof -
  have "length (varint32_bytes 300) = 2" by (subst varint32_bytes.simps, simp, subst varint32_bytes.simps, simp)
  then show ?thesis
    using buffer_round_trip [of "\<lparr>bf_data = replicate 16 0, bf_capacity = 16, bf_position = 1\<rparr>" "[V_u16 0xBEEF, V_varint 300, V_u64 7]"]
    by (simp add: buffer_ok_def)
qed

section \<open>The pool hands out free buffers\<close>

definition pool_ok :: "buffer_pool \<Rightarrow> bool" where
  "pool_ok p \<longleftrightarrow> length (bp_buffers p) = 64 \<and> length (bp_in_use p) = 64
     \<and> (\<forall>i < 64. bp_in_use p ! i \<longrightarrow> length (bf_data (bp_buffers p ! i)) = NETUDP_MTU \<and> bf_capacity (bp_buffers p ! i) = NETUDP_MTU)"

lemma acquire_buffer_cases:
  assumes "pool_ok p"
  obtains (full) "netudp_server_acquire_buffer p = (None, p)" "\<forall>i < 64. bp_in_use p ! i"
  | (acquired) i p' where "netudp_server_acquire_buffer p = (Some i, p')" "i < 64" "\<not> bp_in_use p ! i" "bp_in_use p' = (bp_in_use p)[i := True]"
      "buffer_ok (bp_buffers p' ! i)" "bf_position (bp_buffers p' ! i) = 0" "\<forall>j. j \<noteq> i \<longrightarrow> bp_buffers p' ! j = bp_buffers p ! j" "pool_ok p'"
proof (cases "List.find (\<lambda>i. \<not> bp_in_use p ! i) [0..<64]")
  case None
  then have "netudp_server_acquire_buffer p = (None, p)" by (simp add: netudp_server_acquire_buffer_def)
  moreover have "\<forall>i < 64. bp_in_use p ! i" using None by (simp add: find_None_iff)
  ultimately show thesis by (rule full)
next
  case (Some i)
  then have "i < 64" "\<not> bp_in_use p ! i" by (auto simp: find_Some_iff)
  then show thesis using assms acquired Some by (auto simp: netudp_server_acquire_buffer_def pool_ok_def buffer_ok_def nth_list_update)
qed

lemma nth_update_False: "xs[i := False] ! j \<Longrightarrow> (xs ! j \<Longrightarrow> P) \<Longrightarrow> P"
  by (cases "i < length xs"; cases "i = j") (simp_all add: list_update_beyond)

lemma send_buffer_releases:
  assumes "pool_ok p" and "netudp_server_send_buffer env ci ch i flags p s = (r, p', ev, s')"
  shows "pool_ok p'" "bp_in_use p' = (bp_in_use p)[i := False]" "bp_buffers p' = bp_buffers p"
proof -
  have "p' = p\<lparr>bp_in_use := (bp_in_use p)[i := False]\<rparr>"
    using assms(2) by (simp add: netudp_server_send_buffer_def Let_def split_beta)
  then show "pool_ok p'" "bp_in_use p' = (bp_in_use p)[i := False]" "bp_buffers p' = bp_buffers p"
    using assms(1) by (auto simp: pool_ok_def nth_list_update elim: nth_update_False)
qed

lemma send_entries_count: "fst (send_entries env es s) \<le> length es"
  by (induction es arbitrary: s) (simp_all add: split_beta Let_def le_SucI)

end
