(* ===== verification/Simd.thy ===== *)
theory Simd
  imports Netudp_Prelude
begin

text \<open>
  The dispatch tables of \<^verbatim>\<open>src/src/simd\<close> (\<^verbatim>\<open>netudp_simd.h\<close>, \<^verbatim>\<open>simd_generic.cpp\<close>,
  \<^verbatim>\<open>simd_sse42.cpp\<close>, \<^verbatim>\<open>simd_avx2.cpp\<close>, \<^verbatim>\<open>simd_neon.cpp\<close>, \<^verbatim>\<open>netudp_simd_detect.cpp\<close>) and the checksum
  of \<^verbatim>\<open>crypto/crc32c.cpp\<close>. The tables are shown to compute the same functions, and the table-driven checksum the
  bitwise one.

  The scalar instructions (CRC step, trailing zeros, population count) are the fields of \<open>simd_isa\<close>, and \<open>isa_ok\<close> states
  what their manuals say of them. A vector register is the list of its lanes: a load takes lanes out of an
  array, a store puts them back, a comparison sets a lane to all ones or to zero. The destination of a copy and its source do not
  overlap, as for \<^verbatim>\<open>memcpy\<close>.
\<close>

section \<open>Instructions\<close>

record simd_isa =
  i_crc32_u8 :: "u32 \<Rightarrow> byte \<Rightarrow> u32"
  i_crc32_u32 :: "u32 \<Rightarrow> u32 \<Rightarrow> u32"
  i_crc32_u64 :: "u64 \<Rightarrow> u64 \<Rightarrow> u64"
  i_tzcnt :: "u32 \<Rightarrow> nat"
  i_popcnt :: "u32 \<Rightarrow> nat"
  i_vcnt :: "byte \<Rightarrow> byte"

text \<open>One bit of the reflected Castagnoli checksum.\<close>

definition crc_bit :: "u32 \<Rightarrow> u32" where
  "crc_bit c = (if bit c 0 then drop_bit 1 c XOR 0x82F63B78 else drop_bit 1 c)"

definition crc_byte :: "u32 \<Rightarrow> byte \<Rightarrow> u32" where
  "crc_byte c b = (crc_bit ^^ 8) (c XOR ucast b)"

definition crc32c_bitwise :: "byte list \<Rightarrow> u32" where
  "crc32c_bitwise data = foldl crc_byte 0xFFFFFFFF data XOR 0xFFFFFFFF"

definition bit_positions :: "'a::len word \<Rightarrow> nat list" where
  "bit_positions w = filter (bit w) [0..<LENGTH('a)]"

definition isa_ok :: "simd_isa \<Rightarrow> bool" where
  "isa_ok isa \<longleftrightarrow>
     (\<forall>c b. i_crc32_u8 isa c b = crc_byte c b)
   \<and> (\<forall>c w. i_crc32_u32 isa c w = foldl crc_byte c (le_bytes 4 w))
   \<and> (\<forall>c w. i_crc32_u64 isa c w = ucast (foldl crc_byte (ucast c) (le_bytes 8 w)))
   \<and> (\<forall>v. v \<noteq> 0 \<longrightarrow> bit v (i_tzcnt isa v) \<and> (\<forall>i < i_tzcnt isa v. \<not> bit v i))
   \<and> (\<forall>v. i_popcnt isa v = length (bit_positions v))
   \<and> (\<forall>b. i_vcnt isa b = of_nat (length (bit_positions b)))"

definition cmpeq :: "'a::len word list \<Rightarrow> 'a word list \<Rightarrow> 'a word list" where
  "cmpeq = map2 (\<lambda>a b. if a = b then - 1 else 0)"

definition movemask_epi8 :: "byte list \<Rightarrow> u32" where
  "movemask_epi8 bs = horner_sum of_bool 2 (map (\<lambda>b. bit b 7) bs)"

section \<open>The dispatch table\<close>

text \<open>
  The pairs of a pointer and a length are lists. \<^verbatim>\<open>memcpy_nt\<close> and \<^verbatim>\<open>memset_zero\<close> take whether the
  destination is aligned; \<^verbatim>\<open>ack_bits_scan\<close> gives the indices it stores.
\<close>

record SimdOps =
  so_crc32c :: "byte list \<Rightarrow> u32"
  so_memcpy_nt :: "bool \<Rightarrow> byte list \<Rightarrow> byte list \<Rightarrow> byte list"
  so_memset_zero :: "bool \<Rightarrow> byte list \<Rightarrow> nat \<Rightarrow> byte list"
  so_ack_bits_scan :: "u32 \<Rightarrow> nat list"
  so_popcount32 :: "u32 \<Rightarrow> nat"
  so_replay_check :: "u64 list \<Rightarrow> u64 \<Rightarrow> bool"
  so_fragment_bitmask_complete :: "byte list \<Rightarrow> nat \<Rightarrow> bool"
  so_fragment_next_missing :: "byte list \<Rightarrow> nat \<Rightarrow> int"
  so_accumulate_u64 :: "u64 list \<Rightarrow> u64 list \<Rightarrow> u64 list"
  so_addr_equal :: "byte list \<Rightarrow> byte list \<Rightarrow> nat \<Rightarrow> bool"

section \<open>Portable code\<close>

definition crc32c_table :: "u32 list" where
  "crc32c_table =
    [0x00000000, 0xF26B8303, 0xE13B70F7, 0x1350F3F4, 0xC79A971F, 0x35F1141C, 0x26A1E7E8, 0xD4CA64EB,
     0x8AD958CF, 0x78B2DBCC, 0x6BE22838, 0x9989AB3B, 0x4D43CFD0, 0xBF284CD3, 0xAC78BF27, 0x5E133C24,
     0x105EC76F, 0xE235446C, 0xF165B798, 0x030E349B, 0xD7C45070, 0x25AFD373, 0x36FF2087, 0xC494A384,
     0x9A879FA0, 0x68EC1CA3, 0x7BBCEF57, 0x89D76C54, 0x5D1D08BF, 0xAF768BBC, 0xBC267848, 0x4E4DFB4B,
     0x20BD8EDE, 0xD2D60DDD, 0xC186FE29, 0x33ED7D2A, 0xE72719C1, 0x154C9AC2, 0x061C6936, 0xF477EA35,
     0xAA64D611, 0x580F5512, 0x4B5FA6E6, 0xB93425E5, 0x6DFE410E, 0x9F95C20D, 0x8CC531F9, 0x7EAEB2FA,
     0x30E349B1, 0xC288CAB2, 0xD1D83946, 0x23B3BA45, 0xF779DEAE, 0x05125DAD, 0x1642AE59, 0xE4292D5A,
     0xBA3A117E, 0x4851927D, 0x5B016189, 0xA96AE28A, 0x7DA08661, 0x8FCB0562, 0x9C9BF696, 0x6EF07595,
     0x417B1DBC, 0xB3109EBF, 0xA0406D4B, 0x522BEE48, 0x86E18AA3, 0x748A09A0, 0x67DAFA54, 0x95B17957,
     0xCBA24573, 0x39C9C670, 0x2A993584, 0xD8F2B687, 0x0C38D26C, 0xFE53516F, 0xED03A29B, 0x1F682198,
     0x5125DAD3, 0xA34E59D0, 0xB01EAA24, 0x42752927, 0x96BF4DCC, 0x64D4CECF, 0x77843D3B, 0x85EFBE38,
     0xDBFC821C, 0x2997011F, 0x3AC7F2EB, 0xC8AC71E8, 0x1C661503, 0xEE0D9600, 0xFD5D65F4, 0x0F36E6F7,
     0x61C69362, 0x93AD1061, 0x80FDE395, 0x72966096, 0xA65C047D, 0x5437877E, 0x4767748A, 0xB50CF789,
     0xEB1FCBAD, 0x197448AE, 0x0A24BB5A, 0xF84F3859, 0x2C855CB2, 0xDEEEDFB1, 0xCDBE2C45, 0x3FD5AF46,
     0x7198540D, 0x83F3D70E, 0x90A324FA, 0x62C8A7F9, 0xB602C312, 0x44694011, 0x5739B3E5, 0xA55230E6,
     0xFB410CC2, 0x092A8FC1, 0x1A7A7C35, 0xE811FF36, 0x3CDB9BDD, 0xCEB018DE, 0xDDE0EB2A, 0x2F8B6829,
     0x82F63B78, 0x709DB87B, 0x63CD4B8F, 0x91A6C88C, 0x456CAC67, 0xB7072F64, 0xA457DC90, 0x563C5F93,
     0x082F63B7, 0xFA44E0B4, 0xE9141340, 0x1B7F9043, 0xCFB5F4A8, 0x3DDE77AB, 0x2E8E845F, 0xDCE5075C,
     0x92A8FC17, 0x60C37F14, 0x73938CE0, 0x81F80FE3, 0x55326B08, 0xA759E80B, 0xB4091BFF, 0x466298FC,
     0x1871A4D8, 0xEA1A27DB, 0xF94AD42F, 0x0B21572C, 0xDFEB33C7, 0x2D80B0C4, 0x3ED04330, 0xCCBBC033,
     0xA24BB5A6, 0x502036A5, 0x4370C551, 0xB11B4652, 0x65D122B9, 0x97BAA1BA, 0x84EA524E, 0x7681D14D,
     0x2892ED69, 0xDAF96E6A, 0xC9A99D9E, 0x3BC21E9D, 0xEF087A76, 0x1D63F975, 0x0E330A81, 0xFC588982,
     0xB21572C9, 0x407EF1CA, 0x532E023E, 0xA145813D, 0x758FE5D6, 0x87E466D5, 0x94B49521, 0x66DF1622,
     0x38CC2A06, 0xCAA7A905, 0xD9F75AF1, 0x2B9CD9F2, 0xFF56BD19, 0x0D3D3E1A, 0x1E6DCDEE, 0xEC064EED,
     0xC38D26C4, 0x31E6A5C7, 0x22B65633, 0xD0DDD530, 0x0417B1DB, 0xF67C32D8, 0xE52CC12C, 0x1747422F,
     0x49547E0B, 0xBB3FFD08, 0xA86F0EFC, 0x5A048DFF, 0x8ECEE914, 0x7CA56A17, 0x6FF599E3, 0x9D9E1AE0,
     0xD3D3E1AB, 0x21B862A8, 0x32E8915C, 0xC083125F, 0x144976B4, 0xE622F5B7, 0xF5720643, 0x07198540,
     0x590AB964, 0xAB613A67, 0xB831C993, 0x4A5A4A90, 0x9E902E7B, 0x6CFBAD78, 0x7FAB5E8C, 0x8DC0DD8F,
     0xE330A81A, 0x115B2B19, 0x020BD8ED, 0xF0605BEE, 0x24AA3F05, 0xD6C1BC06, 0xC5914FF2, 0x37FACCF1,
     0x69E9F0D5, 0x9B8273D6, 0x88D28022, 0x7AB90321, 0xAE7367CA, 0x5C18E4C9, 0x4F48173D, 0xBD23943E,
     0xF36E6F75, 0x0105EC76, 0x12551F82, 0xE03E9C81, 0x34F4F86A, 0xC69F7B69, 0xD5CF889D, 0x27A40B9E,
     0x79B737BA, 0x8BDCB4B9, 0x988C474D, 0x6AE7C44E, 0xBE2DA0A5, 0x4C4623A6, 0x5F16D052, 0xAD7D5351]"

definition generic_crc32c :: "byte list \<Rightarrow> u32" where
  "generic_crc32c data =
     foldl (\<lambda>crc b. crc32c_table ! unat ((crc XOR ucast b) AND 0xFF) XOR drop_bit 8 crc) 0xFFFFFFFF data XOR 0xFFFFFFFF"

definition generic_memcpy_nt :: "bool \<Rightarrow> byte list \<Rightarrow> byte list \<Rightarrow> byte list" where
  "generic_memcpy_nt aligned dst src = write_at 0 src dst"

definition generic_memset_zero :: "bool \<Rightarrow> byte list \<Rightarrow> nat \<Rightarrow> byte list" where
  "generic_memset_zero aligned dst len = write_at 0 (replicate len 0) dst"

definition generic_ack_bits_scan :: "u32 \<Rightarrow> nat list" where
  "generic_ack_bits_scan bits = filter (\<lambda>i. bits AND push_bit i 1 \<noteq> 0) [0..<32]"

definition generic_popcount32 :: "u32 \<Rightarrow> nat" where
  "generic_popcount32 v0 =
     (let v1 = v0 - (drop_bit 1 v0 AND 0x55555555);
          v2 = (v1 AND 0x33333333) + (drop_bit 2 v1 AND 0x33333333)
      in unat (drop_bit 24 (((v2 + drop_bit 4 v2) AND 0x0F0F0F0F) * 0x01010101)))"

fun generic_replay_check :: "u64 list \<Rightarrow> u64 \<Rightarrow> bool" where
  "generic_replay_check [] seq = False"
| "generic_replay_check (w # ws) seq = (if w = seq then True else generic_replay_check ws seq)"

definition mask_bit_clear :: "byte list \<Rightarrow> nat \<Rightarrow> bool" where
  "mask_bit_clear received i \<longleftrightarrow> (ucast (received ! (i div 8)) :: u32) AND push_bit (i mod 8) 1 = 0"

definition generic_fragment_bitmask_complete :: "byte list \<Rightarrow> nat \<Rightarrow> bool" where
  "generic_fragment_bitmask_complete received n = (case List.find (mask_bit_clear received) [0..<n] of Some _ \<Rightarrow> False | None \<Rightarrow> True)"

definition generic_fragment_next_missing :: "byte list \<Rightarrow> nat \<Rightarrow> int" where
  "generic_fragment_next_missing received n = (case List.find (mask_bit_clear received) [0..<n] of Some i \<Rightarrow> int i | None \<Rightarrow> - 1)"

text \<open>The loop that adds the counters one by one, from the index a vector loop stopped at.\<close>

definition accumulate_from :: "nat \<Rightarrow> u64 list \<Rightarrow> u64 list \<Rightarrow> u64 list" where
  "accumulate_from i dst src = fold (\<lambda>j d. d[j := d ! j + src ! j]) [i..<length src] dst"

definition generic_accumulate_u64 :: "u64 list \<Rightarrow> u64 list \<Rightarrow> u64 list" where
  "generic_accumulate_u64 dst src = accumulate_from 0 dst src"

definition generic_addr_equal :: "byte list \<Rightarrow> byte list \<Rightarrow> nat \<Rightarrow> bool" where
  "generic_addr_equal a b len \<longleftrightarrow> take len a = take len b"

definition g_ops_generic :: SimdOps where
  "g_ops_generic = \<lparr>so_crc32c = generic_crc32c, so_memcpy_nt = generic_memcpy_nt, so_memset_zero = generic_memset_zero,
     so_ack_bits_scan = generic_ack_bits_scan, so_popcount32 = generic_popcount32, so_replay_check = generic_replay_check,
     so_fragment_bitmask_complete = generic_fragment_bitmask_complete, so_fragment_next_missing = generic_fragment_next_missing,
     so_accumulate_u64 = generic_accumulate_u64, so_addr_equal = generic_addr_equal\<rparr>"

section \<open>Vector loops\<close>

text \<open>The loops over blocks of \<open>k\<close> elements stop at the index where less than a block is left.\<close>

function copy_blocks :: "nat \<Rightarrow> nat \<Rightarrow> byte list \<Rightarrow> byte list \<Rightarrow> nat \<times> byte list" where
  "copy_blocks k i dst src =
     (if 0 < k \<and> i + k \<le> length src then copy_blocks k (i + k) (write_at i (read_at i k src) dst) src else (i, dst))"
  by auto
termination by (relation "measure (\<lambda>(k, i, dst, src). length src - i)") auto

definition copy_bytes :: "nat \<Rightarrow> byte list \<Rightarrow> byte list \<Rightarrow> byte list" where
  "copy_bytes i dst src = fold (\<lambda>j d. d[j := src ! j]) [i..<length src] dst"

definition vector_memcpy :: "nat \<Rightarrow> byte list \<Rightarrow> byte list \<Rightarrow> byte list" where
  "vector_memcpy k dst src = (let (i, dst1) = copy_blocks k 0 dst src in copy_bytes i dst1 src)"

function zero_blocks :: "nat \<Rightarrow> nat \<Rightarrow> byte list \<Rightarrow> nat \<Rightarrow> nat \<times> byte list" where
  "zero_blocks k i dst len =
     (if 0 < k \<and> i + k \<le> len then zero_blocks k (i + k) (write_at i (replicate k 0) dst) len else (i, dst))"
  by auto
termination by (relation "measure (\<lambda>(k, i, dst, len). len - i)") auto

definition vector_memset :: "nat \<Rightarrow> byte list \<Rightarrow> nat \<Rightarrow> byte list" where
  "vector_memset k dst len = (let (i, dst1) = zero_blocks k 0 dst len in fold (\<lambda>j d. d[j := 0]) [i..<len] dst1)"

text \<open>A block of the replay window is compared with the sequence number in every lane.\<close>

function vector_replay_check :: "nat \<Rightarrow> u64 list \<Rightarrow> u64 \<Rightarrow> bool" where
  "vector_replay_check k window seq =
     (if 0 < k \<and> k \<le> length window
      then if movemask_epi8 (concat (map (le_bytes 8) (cmpeq (take k window) (replicate k seq)))) \<noteq> 0 then True
           else vector_replay_check k (drop k window) seq
      else generic_replay_check window seq)"
  by auto
termination by (relation "measure (\<lambda>(k, window, seq). length window)") auto

function add_blocks :: "nat \<Rightarrow> nat \<Rightarrow> u64 list \<Rightarrow> u64 list \<Rightarrow> nat \<times> u64 list" where
  "add_blocks k i dst src =
     (if 0 < k \<and> i + k \<le> length src
      then add_blocks k (i + k) (write_at i (map2 (+) (read_at i k dst) (read_at i k src)) dst) src else (i, dst))"
  by auto
termination by (relation "measure (\<lambda>(k, i, dst, src). length src - i)") auto

definition vector_accumulate :: "nat \<Rightarrow> u64 list \<Rightarrow> u64 list \<Rightarrow> u64 list" where
  "vector_accumulate k dst src = (let (i, dst1) = add_blocks k 0 dst src in accumulate_from i dst1 src)"

declare copy_blocks.simps [simp del] zero_blocks.simps [simp del] vector_replay_check.simps [simp del] add_blocks.simps [simp del]

section \<open>SSE4.2\<close>

function crc_blocks8 :: "simd_isa \<Rightarrow> u32 \<Rightarrow> byte list \<Rightarrow> u32 \<times> byte list" where
  "crc_blocks8 isa crc data =
     (if 8 \<le> length data then crc_blocks8 isa (ucast (i_crc32_u64 isa (ucast crc) (of_le (take 8 data)))) (drop 8 data) else (crc, data))"
  by auto
termination by (relation "measure (\<lambda>(isa, crc, data). length data)") auto

function crc_blocks4 :: "simd_isa \<Rightarrow> u32 \<Rightarrow> byte list \<Rightarrow> u32 \<times> byte list" where
  "crc_blocks4 isa crc data =
     (if 4 \<le> length data then crc_blocks4 isa (i_crc32_u32 isa crc (of_le (take 4 data))) (drop 4 data) else (crc, data))"
  by auto
termination by (relation "measure (\<lambda>(isa, crc, data). length data)") auto

declare crc_blocks8.simps [simp del] crc_blocks4.simps [simp del]

text \<open>The blocks of eight bytes are for 64-bit targets only.\<close>

definition sse42_crc32c :: "simd_isa \<Rightarrow> bool \<Rightarrow> byte list \<Rightarrow> u32" where
  "sse42_crc32c isa x64 data =
     (let (crc8, rest8) = if x64 then crc_blocks8 isa 0xFFFFFFFF data else (0xFFFFFFFF, data);
          (crc4, rest4) = crc_blocks4 isa crc8 rest8
      in foldl (i_crc32_u8 isa) crc4 rest4 XOR 0xFFFFFFFF)"

text \<open>A streaming store, used for an aligned destination, writes what an ordinary one writes.\<close>

definition sse42_memcpy_nt :: "bool \<Rightarrow> byte list \<Rightarrow> byte list \<Rightarrow> byte list" where
  "sse42_memcpy_nt aligned dst src = (if aligned then vector_memcpy 16 dst src else vector_memcpy 16 dst src)"

definition sse42_memset_zero :: "bool \<Rightarrow> byte list \<Rightarrow> nat \<Rightarrow> byte list" where
  "sse42_memset_zero aligned dst len = (if aligned then vector_memset 16 dst len else vector_memset 16 dst len)"

text \<open>The loop clears the lowest set bit in every round.\<close>

lemma and_nat_le1: "a AND b \<le> (a :: nat)"
  using AND_upper1 [of "int a" "int b"] by (simp flip: of_nat_and_eq)

lemma clear_lowest_less: "bits \<noteq> 0 \<Longrightarrow> unat (bits AND (bits - 1)) < unat (bits :: 'a::len word)"
  using and_nat_le1 [of "unat (bits - 1)" "unat bits"] measure_unat [of bits] by (simp add: unsigned_and_eq and.commute)

function scan_bits :: "(u32 \<Rightarrow> nat) \<Rightarrow> u32 \<Rightarrow> nat list" where
  "scan_bits ctz bits = (if bits = 0 then [] else ctz bits # scan_bits ctz (bits AND (bits - 1)))"
  by auto
termination by (relation "measure (\<lambda>(ctz, bits). unat bits)") (auto simp: clear_lowest_less)

declare scan_bits.simps [simp del]

definition sse42_ack_bits_scan :: "simd_isa \<Rightarrow> u32 \<Rightarrow> nat list" where
  "sse42_ack_bits_scan isa bits = scan_bits (i_tzcnt isa) bits"

definition sse42_popcount32 :: "simd_isa \<Rightarrow> u32 \<Rightarrow> nat" where
  "sse42_popcount32 isa v = i_popcnt isa v"

definition sse42_replay_check :: "u64 list \<Rightarrow> u64 \<Rightarrow> bool" where
  "sse42_replay_check window seq = vector_replay_check 2 window seq"

definition sse42_accumulate_u64 :: "u64 list \<Rightarrow> u64 list \<Rightarrow> u64 list" where
  "sse42_accumulate_u64 dst src = vector_accumulate 2 dst src"

text \<open>The shift \<^verbatim>\<open>1 << len\<close> is one of \<^verbatim>\<open>int\<close>: it is defined for \<^verbatim>\<open>len\<close> below 31.\<close>

definition sse42_addr_equal :: "byte list \<Rightarrow> byte list \<Rightarrow> nat \<Rightarrow> bool" where
  "sse42_addr_equal a b len =
     (if 16 \<le> len
      then let cmp = cmpeq (take 16 a) (take 16 b) in movemask_epi8 cmp AND (push_bit len 1 - 1) = push_bit len 1 - 1
      else take len a = take len b)"

definition g_ops_sse42 :: "simd_isa \<Rightarrow> bool \<Rightarrow> SimdOps" where
  "g_ops_sse42 isa x64 = \<lparr>so_crc32c = sse42_crc32c isa x64, so_memcpy_nt = sse42_memcpy_nt, so_memset_zero = sse42_memset_zero,
     so_ack_bits_scan = sse42_ack_bits_scan isa, so_popcount32 = sse42_popcount32 isa, so_replay_check = sse42_replay_check,
     so_fragment_bitmask_complete = so_fragment_bitmask_complete g_ops_generic,
     so_fragment_next_missing = so_fragment_next_missing g_ops_generic,
     so_accumulate_u64 = sse42_accumulate_u64, so_addr_equal = sse42_addr_equal\<rparr>"

section \<open>AVX2\<close>

definition avx2_memcpy_nt :: "bool \<Rightarrow> byte list \<Rightarrow> byte list \<Rightarrow> byte list" where
  "avx2_memcpy_nt aligned dst src = (if aligned then vector_memcpy 32 dst src else vector_memcpy 32 dst src)"

definition avx2_memset_zero :: "bool \<Rightarrow> byte list \<Rightarrow> nat \<Rightarrow> byte list" where
  "avx2_memset_zero aligned dst len = (if aligned then vector_memset 32 dst len else vector_memset 32 dst len)"

definition avx2_replay_check :: "u64 list \<Rightarrow> u64 \<Rightarrow> bool" where
  "avx2_replay_check window seq = vector_replay_check 4 window seq"

definition avx2_accumulate_u64 :: "u64 list \<Rightarrow> u64 list \<Rightarrow> u64 list" where
  "avx2_accumulate_u64 dst src = vector_accumulate 4 dst src"

definition avx2_addr_equal :: "byte list \<Rightarrow> byte list \<Rightarrow> nat \<Rightarrow> bool" where
  "avx2_addr_equal a b len =
     (if 16 \<le> len
      then let cmp = cmpeq (take 16 a) (take 16 b) in movemask_epi8 cmp AND (push_bit len 1 - 1) = push_bit len 1 - 1
      else take len a = take len b)"

definition g_ops_avx2 :: "simd_isa \<Rightarrow> bool \<Rightarrow> SimdOps" where
  "g_ops_avx2 isa x64 = \<lparr>so_crc32c = so_crc32c (g_ops_sse42 isa x64), so_memcpy_nt = avx2_memcpy_nt, so_memset_zero = avx2_memset_zero,
     so_ack_bits_scan = so_ack_bits_scan (g_ops_sse42 isa x64), so_popcount32 = so_popcount32 (g_ops_sse42 isa x64),
     so_replay_check = avx2_replay_check,
     so_fragment_bitmask_complete = so_fragment_bitmask_complete g_ops_generic,
     so_fragment_next_missing = so_fragment_next_missing g_ops_generic,
     so_accumulate_u64 = avx2_accumulate_u64, so_addr_equal = avx2_addr_equal\<rparr>"

section \<open>NEON\<close>

text \<open>The checksum instructions are an optional feature of the target.\<close>

definition neon_crc32c :: "simd_isa \<Rightarrow> bool \<Rightarrow> byte list \<Rightarrow> u32" where
  "neon_crc32c isa feature_crc32 data =
     (if feature_crc32
      then let (crc8, rest8) = crc_blocks8 isa 0xFFFFFFFF data; (crc4, rest4) = crc_blocks4 isa crc8 rest8
           in foldl (i_crc32_u8 isa) crc4 rest4 XOR 0xFFFFFFFF
      else so_crc32c g_ops_generic data)"

definition neon_memcpy_nt :: "bool \<Rightarrow> byte list \<Rightarrow> byte list \<Rightarrow> byte list" where
  "neon_memcpy_nt aligned dst src = vector_memcpy 16 dst src"

definition neon_memset_zero :: "bool \<Rightarrow> byte list \<Rightarrow> nat \<Rightarrow> byte list" where
  "neon_memset_zero aligned dst len = vector_memset 16 dst len"

definition neon_ack_bits_scan :: "simd_isa \<Rightarrow> u32 \<Rightarrow> nat list" where
  "neon_ack_bits_scan isa bits = scan_bits (i_tzcnt isa) bits"

definition neon_popcount32 :: "simd_isa \<Rightarrow> u32 \<Rightarrow> nat" where
  "neon_popcount32 isa v = unat (sum_list (map (i_vcnt isa) (le_bytes 8 (ucast v :: u64))))"

function neon_replay_check :: "u64 list \<Rightarrow> u64 \<Rightarrow> bool" where
  "neon_replay_check window seq =
     (if 2 \<le> length window
      then let cmp = cmpeq (take 2 window) (replicate 2 seq)
           in if cmp ! 0 \<noteq> 0 \<or> cmp ! 1 \<noteq> 0 then True else neon_replay_check (drop 2 window) seq
      else generic_replay_check window seq)"
  by auto
termination by (relation "measure (\<lambda>(window, seq). length window)") auto

declare neon_replay_check.simps [simp del]

definition neon_accumulate_u64 :: "u64 list \<Rightarrow> u64 list \<Rightarrow> u64 list" where
  "neon_accumulate_u64 dst src = vector_accumulate 2 dst src"

definition neon_addr_equal :: "byte list \<Rightarrow> byte list \<Rightarrow> nat \<Rightarrow> bool" where
  "neon_addr_equal a b len =
     (if 16 \<le> len then fold min (cmpeq (take 16 a) (take 16 b)) 0xFF = 0xFF else take len a = take len b)"

definition g_ops_neon :: "simd_isa \<Rightarrow> bool \<Rightarrow> SimdOps" where
  "g_ops_neon isa feature_crc32 = \<lparr>so_crc32c = neon_crc32c isa feature_crc32, so_memcpy_nt = neon_memcpy_nt, so_memset_zero = neon_memset_zero,
     so_ack_bits_scan = neon_ack_bits_scan isa, so_popcount32 = neon_popcount32 isa, so_replay_check = neon_replay_check,
     so_fragment_bitmask_complete = so_fragment_bitmask_complete g_ops_generic,
     so_fragment_next_missing = so_fragment_next_missing g_ops_generic,
     so_accumulate_u64 = neon_accumulate_u64, so_addr_equal = neon_addr_equal\<rparr>"

section \<open>Choice of a table\<close>

datatype netudp_simd_level = NETUDP_SIMD_GENERIC | NETUDP_SIMD_SSE42 | NETUDP_SIMD_AVX2 | NETUDP_SIMD_NEON

datatype simd_arch = Arch_x86 | Arch_x64 | Arch_arm64 | Arch_other

text \<open>The registers \<^verbatim>\<open>eax\<close>, \<^verbatim>\<open>ebx\<close>, \<^verbatim>\<open>ecx\<close> and \<^verbatim>\<open>edx\<close> that \<^verbatim>\<open>cpuid\<close> sets for a function are an argument.\<close>

type_synonym cpuid_regs = "nat \<Rightarrow> u32 \<times> u32 \<times> u32 \<times> u32"

definition detect_x86 :: "cpuid_regs \<Rightarrow> netudp_simd_level" where
  "detect_x86 cpuid =
     (let max_function = sint (fst (cpuid 0))
      in if max_function < 1 then NETUDP_SIMD_GENERIC
         else let ecx1 = fst (snd (snd (cpuid 1)));
                  has_sse42 = ecx1 AND push_bit 20 1 \<noteq> 0;
                  has_popcnt = ecx1 AND push_bit 23 1 \<noteq> 0;
                  has_avx2 = 7 \<le> max_function \<and> fst (snd (cpuid 7)) AND push_bit 5 1 \<noteq> 0
              in if has_avx2 then NETUDP_SIMD_AVX2
                 else if has_sse42 \<and> has_popcnt then NETUDP_SIMD_SSE42
                 else NETUDP_SIMD_GENERIC)"

text \<open>The level and the table \<^verbatim>\<open>g_simd\<close> is set to.\<close>

definition detect_and_set :: "simd_arch \<Rightarrow> bool \<Rightarrow> cpuid_regs \<Rightarrow> simd_isa \<Rightarrow> netudp_simd_level \<times> SimdOps" where
  "detect_and_set arch feature_crc32 cpuid isa =
     (if arch = Arch_x86 \<or> arch = Arch_x64
      then let level = detect_x86 cpuid
           in (level, case level of NETUDP_SIMD_AVX2 \<Rightarrow> g_ops_avx2 isa (arch = Arch_x64)
                      | NETUDP_SIMD_SSE42 \<Rightarrow> g_ops_sse42 isa (arch = Arch_x64) | _ \<Rightarrow> g_ops_generic)
      else if arch = Arch_arm64 then (NETUDP_SIMD_NEON, g_ops_neon isa feature_crc32)
      else (NETUDP_SIMD_GENERIC, g_ops_generic))"

definition crc32c :: "SimdOps option \<Rightarrow> byte list \<Rightarrow> u32" where
  "crc32c g_simd data = (case g_simd of Some ops \<Rightarrow> so_crc32c ops data | None \<Rightarrow> so_crc32c g_ops_generic data)"

section \<open>The checksum\<close>

lemma crc_bit_xor: "crc_bit (x XOR y) = crc_bit x XOR crc_bit y"
  by (cases "bit x 0"; cases "bit y 0") (simp_all add: crc_bit_def bit_xor_iff ac_simps)

lemma crc_bits_xor: "(crc_bit ^^ n) (x XOR y) = (crc_bit ^^ n) x XOR (crc_bit ^^ n) y"
  by (induction n) (simp_all add: crc_bit_xor)

lemma crc_bits_high: "take_bit n w = 0 \<Longrightarrow> (crc_bit ^^ n) w = drop_bit n w"
proof (induction n arbitrary: w)
  case (Suc n)
  have low: "\<not> bit w i" if "i < Suc n" for i
    using that bit_take_bit_iff [of "Suc n" w i] by (simp add: Suc.prems)
  have "take_bit n (drop_bit 1 w) = 0"
    by (rule bit_word_eqI) (use low in \<open>auto simp: bit_take_bit_iff bit_drop_bit_eq\<close>)
  moreover have "crc_bit w = drop_bit 1 w" using low [of 0] by (simp add: crc_bit_def)
  ultimately show ?case using Suc.IH [of "drop_bit 1 w"] by (simp add: funpow_swap1 drop_bit_drop_bit)
qed simp

lemma of_nat_high_bit:
  assumes "n < 2 ^ k" and "k < 32"
  shows "of_nat (n + 2 ^ k) = (of_nat n XOR push_bit k 1 :: u32)"
proof -
  have low: "i < k" if "bit (of_nat n :: u32) i" for i
    using that assms(1) by (metis bit_take_bit_iff take_bit_nat_eq_self take_bit_of_nat)
  have "(of_nat n :: u32) + push_bit k 1 = of_nat n OR push_bit k 1"
    by (rule disjunctive_add) (use low in \<open>auto simp: bit_simps\<close>)
  also have "\<dots> = of_nat n XOR push_bit k 1"
    by (rule bit_word_eqI) (use low in \<open>auto simp: bit_simps\<close>)
  finally show ?thesis by (simp add: push_bit_eq_mult)
qed

lemma crc_table_double:
  assumes "k < 32"
  shows "map (\<lambda>n. (crc_bit ^^ 8) (of_nat n)) [0..<2 ^ Suc k]
    = (let t = map (\<lambda>n. (crc_bit ^^ 8) (of_nat n)) [0..<2 ^ k] in t @ map (\<lambda>x. x XOR (crc_bit ^^ 8) (push_bit k 1)) t)"
proof -
  have "[0..<2 ^ Suc k] = [0..<2 ^ k] @ map (\<lambda>n. n + 2 ^ k) [0..<2 ^ k]"
    by (simp add: map_add_upt mult_2 upt_add_eq_append [symmetric])
  then show ?thesis using assms by (simp add: of_nat_high_bit crc_bits_xor comp_def del: of_nat_add)
qed

lemma crc_bits_8: "(crc_bit ^^ 8) x = crc_bit (crc_bit (crc_bit (crc_bit (crc_bit (crc_bit (crc_bit (crc_bit x)))))))"
  by (simp add: eval_nat_numeral)

lemma crc_basis:
  "(crc_bit ^^ 8) 0 = 0" "(crc_bit ^^ 8) 1 = 0xF26B8303" "(crc_bit ^^ 8) 2 = 0xE13B70F7" "(crc_bit ^^ 8) 4 = 0xC79A971F"
  "(crc_bit ^^ 8) 8 = 0x8AD958CF" "(crc_bit ^^ 8) 16 = 0x105EC76F" "(crc_bit ^^ 8) 32 = 0x20BD8EDE"
  "(crc_bit ^^ 8) 64 = 0x417B1DBC" "(crc_bit ^^ 8) 128 = 0x82F63B78"
  unfolding crc_bits_8 by (simp_all add: crc_bit_def)

lemma crc_table_entries: "map (\<lambda>n. (crc_bit ^^ 8) (of_nat n)) [0..<256] = crc32c_table"
proof -
  note d = crc_table_double [of 0] crc_table_double [of 1] crc_table_double [of 2] crc_table_double [of 3]
    crc_table_double [of 4] crc_table_double [of 5] crc_table_double [of 6] crc_table_double [of 7]
  show ?thesis unfolding crc32c_table_def using d by (simp add: crc_basis push_bit_eq_mult upt_rec Let_def)
qed

lemma crc_table_byte: "crc32c_table ! unat ((c XOR ucast b) AND 0xFF) XOR drop_bit 8 c = crc_byte c b"
proof -
  define w where "w = c XOR ucast b"
  have low: "w AND 0xFF = take_bit 8 w" by (simp add: take_bit_eq_mask mask_eq_exp_minus_1)
  have n: "unat (w AND 0xFF) < 256" by (simp add: low unsigned_take_bit_eq take_bit_nat_def)
  then have "crc32c_table ! unat (w AND 0xFF) = (crc_bit ^^ 8) (w AND 0xFF)"
    by (simp add: crc_table_entries [symmetric])
  moreover have "take_bit 8 (push_bit 8 (drop_bit 8 w)) = 0" by (rule bit_word_eqI) (auto simp: bit_simps)
  then have "(crc_bit ^^ 8) (push_bit 8 (drop_bit 8 w)) = drop_bit 8 (push_bit 8 (drop_bit 8 w))" by (rule crc_bits_high)
  moreover have "w = (w AND 0xFF) XOR push_bit 8 (drop_bit 8 w)"
    by (rule bit_word_eqI) (auto simp: low bit_simps)
  moreover have "drop_bit 8 (push_bit 8 (drop_bit 8 w)) = drop_bit 8 c"
    by (rule bit_word_eqI) (auto simp: w_def bit_simps dest: bit_imp_le_length)
  ultimately show ?thesis unfolding crc_byte_def w_def [symmetric] by (metis crc_bits_xor)
qed

lemma generic_crc32c_eq: "generic_crc32c data = crc32c_bitwise data"
  by (simp add: generic_crc32c_def crc32c_bitwise_def crc_table_byte)

lemma ucast_u32_u64: "ucast (ucast c :: u64) = (c :: u32)"
  by (rule bit_word_eqI) (simp add: bit_simps)

lemma crc_blocks8_eq:
  "isa_ok isa \<Longrightarrow> crc_blocks8 isa crc data = (crc', rest) \<Longrightarrow> foldl crc_byte crc data = foldl crc_byte crc' rest"
proof (induction isa crc data rule: crc_blocks8.induct)
  case (1 isa crc data)
  show ?case
  proof (cases "8 \<le> length data")
    case True
    then have "ucast (i_crc32_u64 isa (ucast crc) (of_le (take 8 data))) = foldl crc_byte crc (take 8 data)"
      using \<open>isa_ok isa\<close> by (simp add: isa_ok_def ucast_u32_u64)
    moreover have "foldl crc_byte crc data = foldl crc_byte (foldl crc_byte crc (take 8 data)) (drop 8 data)"
      by (simp flip: foldl_append)
    ultimately show ?thesis using 1 True by (simp add: crc_blocks8.simps [of isa crc data])
  qed (use 1 in \<open>simp add: crc_blocks8.simps [of isa crc data]\<close>)
qed

lemma crc_blocks4_eq:
  "isa_ok isa \<Longrightarrow> crc_blocks4 isa crc data = (crc', rest) \<Longrightarrow> foldl crc_byte crc data = foldl crc_byte crc' rest"
proof (induction isa crc data rule: crc_blocks4.induct)
  case (1 isa crc data)
  show ?case
  proof (cases "4 \<le> length data")
    case True
    then have "i_crc32_u32 isa crc (of_le (take 4 data)) = foldl crc_byte crc (take 4 data)"
      using \<open>isa_ok isa\<close> by (simp add: isa_ok_def)
    moreover have "foldl crc_byte crc data = foldl crc_byte (foldl crc_byte crc (take 4 data)) (drop 4 data)"
      by (simp flip: foldl_append)
    ultimately show ?thesis using 1 True by (simp add: crc_blocks4.simps [of isa crc data])
  qed (use 1 in \<open>simp add: crc_blocks4.simps [of isa crc data]\<close>)
qed

lemma crc_blocks_foldl:
  assumes "isa_ok isa"
  shows "foldl crc_byte (fst (crc_blocks8 isa crc data)) (snd (crc_blocks8 isa crc data)) = foldl crc_byte crc data"
    and "foldl crc_byte (fst (crc_blocks4 isa crc data)) (snd (crc_blocks4 isa crc data)) = foldl crc_byte crc data"
  using crc_blocks8_eq [OF assms] crc_blocks4_eq [OF assms] by (metis prod.collapse)+

lemma isa_crc_u8: "isa_ok isa \<Longrightarrow> i_crc32_u8 isa = crc_byte"
  by (simp add: isa_ok_def fun_eq_iff)

lemma sse42_crc32c_eq: "isa_ok isa \<Longrightarrow> sse42_crc32c isa x64 data = crc32c_bitwise data"
  by (cases x64) (simp_all add: sse42_crc32c_def crc32c_bitwise_def isa_crc_u8 crc_blocks_foldl split_beta)

lemma neon_crc32c_eq: "isa_ok isa \<Longrightarrow> neon_crc32c isa feature_crc32 data = crc32c_bitwise data"
  by (simp add: neon_crc32c_def crc32c_bitwise_def isa_crc_u8 crc_blocks_foldl g_ops_generic_def generic_crc32c_eq split_beta)

section \<open>Scanning and counting bits\<close>

lemma bit_clear_lowest:
  fixes v :: "'a::len word"
  assumes "bit v t" and "\<forall>i < t. \<not> bit v i"
  shows "bit (v AND (v - 1)) = (\<lambda>i. bit v i \<and> i \<noteq> t)"
proof
  fix i
  have "v = unset_bit t v + 2 ^ t" using assms(1) by (simp add: unset_bit_eq)
  then have "v - 1 = unset_bit t v + mask t" by (simp add: mask_eq_exp_minus_1 algebra_simps)
  also have "\<dots> = unset_bit t v OR mask t"
    by (rule disjunctive_add) (use assms(2) in \<open>auto simp: bit_unset_bit_iff bit_mask_iff\<close>)
  finally show "bit (v AND (v - 1)) i \<longleftrightarrow> bit v i \<and> i \<noteq> t"
    using assms by (auto simp: bit_and_iff bit_or_iff bit_unset_bit_iff bit_mask_iff dest: bit_imp_le_length)
qed

lemma scan_bits_positions:
  assumes "isa_ok isa"
  shows "scan_bits (i_tzcnt isa) v = bit_positions v"
proof (induction "i_tzcnt isa" v rule: scan_bits.induct)
  case (1 v)
  show ?case
  proof (cases "v = 0")
    case False
    define t where "t = i_tzcnt isa v"
    have t: "bit v t" "\<forall>i < t. \<not> bit v i" using assms False by (auto simp: isa_ok_def t_def)
    then have "t < 32" using bit_imp_le_length [of v t] by simp
    then have split: "[0..<32] = [0..<t] @ t # [Suc t..<32]" by (metis less_imp_add_positive upt_add_eq_append upt_conv_Cons le0 add_0)
    have "filter (\<lambda>i. bit v i \<and> i \<noteq> t) [Suc t..<32] = filter (bit v) [Suc t..<32]" by (rule filter_cong) auto
    moreover have "filter (bit v) [0..<t] = []" "filter (\<lambda>i. bit v i \<and> i \<noteq> t) [0..<t] = []" using t(2) by (auto simp: filter_empty_conv)
    ultimately have "bit_positions v = t # bit_positions (v AND (v - 1))"
      using t(1) by (simp add: bit_positions_def split bit_clear_lowest [OF t])
    then show ?thesis using 1 False by (simp add: scan_bits.simps [of _ v] t_def)
  qed (simp add: scan_bits.simps bit_positions_def)
qed

lemma generic_scan_positions: "generic_ack_bits_scan v = bit_positions v"
  unfolding generic_ack_bits_scan_def bit_positions_def bit_iff_and_push_bit_not_eq_0 by simp

lemma byte_bit_positions: "length (bit_positions (ucast (drop_bit (8 * k) v) :: byte)) = length (filter (bit (v :: u32)) [8 * k..<8 * k + 8])"
  if "k < 4"
proof -
  have "[8 * k..<8 * k + 8] = map (\<lambda>i. 8 * k + i) [0..<8]" using map_add_upt [of "8 * k" 8] by (simp add: add.commute)
  then have "filter (bit v) [8 * k..<8 * k + 8] = map (\<lambda>i. 8 * k + i) (filter (\<lambda>i. bit v (8 * k + i)) [0..<8])"
    by (simp add: filter_map comp_def)
  moreover have "filter (bit (ucast (drop_bit (8 * k) v) :: byte)) [0..<8] = filter (\<lambda>i. bit v (8 * k + i)) [0..<8]"
    by (rule filter_cong) (auto simp: bit_simps)
  ultimately show ?thesis by (simp add: bit_positions_def)
qed

lemma bit_count_bytes: "length (bit_positions v) = sum_list (map (\<lambda>b. length (bit_positions b)) (le_bytes 4 (v :: u32)))"
proof -
  have "[0..<32] = [0..<8] @ [8..<16] @ [16..<24] @ [24..<(32::nat)]" by code_simp
  then have "length (bit_positions v) = length (filter (bit v) [8 * 0..<8 * 0 + 8]) + length (filter (bit v) [8 * 1..<8 * 1 + 8])
      + length (filter (bit v) [8 * 2..<8 * 2 + 8]) + length (filter (bit v) [8 * 3..<8 * 3 + 8])"
    by (simp add: bit_positions_def)
  moreover have "[0..<4] = [0, 1, 2, 3 :: nat]" by (simp add: upt_rec)
  ultimately show ?thesis by (simp only: le_bytes_def byte_bit_positions [symmetric]) simp
qed

text \<open>
  The parallel count works on the hexadecimal digits of the word: after the first two steps each digit is the number of
  its bits, the third step adds the digits of each byte, and the multiplication adds the bytes.
\<close>

fun digits_value :: "nat \<Rightarrow> nat list \<Rightarrow> nat" where
  "digits_value base [] = 0"
| "digits_value base (d # ds) = d + base * digits_value base ds"

definition pair_counts :: "nat \<Rightarrow> nat \<Rightarrow> nat" where
  "pair_counts m n = n - (n div 2 AND m)"

definition nibble_counts :: "nat \<Rightarrow> nat \<Rightarrow> nat" where
  "nibble_counts m n = (n AND m) + (n div 4 AND m)"

definition byte_counts :: "nat \<Rightarrow> nat \<Rightarrow> nat" where
  "byte_counts m n = (n + n div 16) AND m"

definition nibble_bits :: "nat \<Rightarrow> nat" where
  "nibble_bits d = of_bool (bit d 0) + of_bool (bit d 1) + of_bool (bit d 2) + of_bool (bit d 3)"

definition nibbles :: "nat \<Rightarrow> nat \<Rightarrow> nat list" where
  "nibbles k n = map (\<lambda>i. n div 16 ^ i mod 16) [0..<k]"

lemma nat_and_split:
  fixes q m r s :: nat
  assumes "r < 2 ^ k" and "s < 2 ^ k"
  shows "(r + 2 ^ k * q) AND (s + 2 ^ k * m) = (r AND s) + 2 ^ k * (q AND m)"
proof -
  let ?x = "(r + 2 ^ k * q) AND (s + 2 ^ k * m)"
  have "?x = ?x mod 2 ^ k + 2 ^ k * (?x div 2 ^ k)" by simp
  moreover have "?x div 2 ^ k = q AND m"
    using drop_bit_and [of k "r + 2 ^ k * q" "s + 2 ^ k * m"] assms by (simp add: drop_bit_eq_div)
  moreover have "?x mod 2 ^ k = r AND s"
    using take_bit_and [of k "r + 2 ^ k * q" "s + 2 ^ k * m"] assms by (simp add: take_bit_eq_mod)
  ultimately show ?thesis by simp
qed

lemma nat_and_low:
  fixes k r s :: nat
  assumes "r < 2 ^ n" and "s < 2 ^ n"
  shows "(r + 2 ^ n * k) AND s = r AND s"
  using nat_and_split [of r n s k 0] assms by simp

text \<open>A shift by part of a digit moves the low bits of the digits above into the digit.\<close>

lemma split_shift:
  fixes d q b m :: nat
  assumes "0 < m"
  shows "(d + m * (b * q)) div m = (d div m + b * (q mod m)) + b * m * (q div m)"
proof -
  have "(d + m * (b * q)) div m = d div m + b * (q mod m + m * (q div m))" using assms by simp
  then show ?thesis by (simp only: distrib_left mult.assoc add.assoc)
qed

lemma pair_counts_digits:
  "set ds \<subseteq> {..<16} \<Longrightarrow> pair_counts (digits_value 16 (replicate (length ds) 5)) (digits_value 16 ds) = digits_value 16 (map (pair_counts 5) ds)"
proof (induction ds)
  case (Cons d ds)
  let ?q = "digits_value 16 ds" and ?m = "digits_value 16 (replicate (length ds) 5)"
  have d: "d < 16" using Cons.prems by simp
  have "(d + 16 * ?q) div 2 = (d div 2 + 2 ^ 3 * (?q mod 2)) + 2 ^ 4 * (?q div 2)" using split_shift [of 2 d 8 ?q] by simp
  moreover have "d div 2 + 2 ^ 3 * (?q mod 2) < 2 ^ 4" using d mod_less_divisor [of 2 ?q] by simp
  moreover have "(d div 2 + 2 ^ 3 * (?q mod 2)) AND 5 = d div 2 AND 5" using d by (intro nat_and_low) simp_all
  ultimately have "(d + 16 * ?q) div 2 AND (5 + 2 ^ 4 * ?m) = (d div 2 AND 5) + 2 ^ 4 * (?q div 2 AND ?m)"
    by (simp add: nat_and_split [of _ 4, simplified])
  moreover have "?q div 2 AND ?m \<le> ?q" "d div 2 AND 5 \<le> d"
    using and_nat_le1 [of "?q div 2" ?m] and_nat_le1 [of "d div 2" 5] by linarith+
  ultimately have "pair_counts (5 + 16 * ?m) (d + 16 * ?q) = pair_counts 5 d + 16 * pair_counts ?m ?q"
    by (simp add: pair_counts_def diff_mult_distrib2)
  then show ?case using Cons by simp
qed (simp add: pair_counts_def)

lemma nibble_counts_digits:
  "set ds \<subseteq> {..<16} \<Longrightarrow> nibble_counts (digits_value 16 (replicate (length ds) 3)) (digits_value 16 ds) = digits_value 16 (map (nibble_counts 3) ds)"
proof (induction ds)
  case (Cons d ds)
  let ?q = "digits_value 16 ds" and ?m = "digits_value 16 (replicate (length ds) 3)"
  have d: "d < 16" using Cons.prems by simp
  have "(d + 16 * ?q) div 4 = (d div 4 + 2 ^ 2 * (?q mod 4)) + 2 ^ 4 * (?q div 4)" using split_shift [of 4 d 4 ?q] by simp
  moreover have "d div 4 + 2 ^ 2 * (?q mod 4) < 2 ^ 4" using d mod_less_divisor [of 4 ?q] by simp
  moreover have "(d div 4 + 2 ^ 2 * (?q mod 4)) AND 3 = d div 4 AND 3" using d by (intro nat_and_low) simp_all
  ultimately have "(d + 16 * ?q) div 4 AND (3 + 2 ^ 4 * ?m) = (d div 4 AND 3) + 2 ^ 4 * (?q div 4 AND ?m)"
    by (simp add: nat_and_split [of _ 4, simplified])
  moreover have "(d + 2 ^ 4 * ?q) AND (3 + 2 ^ 4 * ?m) = (d AND 3) + 2 ^ 4 * (?q AND ?m)" using d by (intro nat_and_split) simp_all
  ultimately show ?case using Cons by (simp add: nibble_counts_def)
qed (simp add: nibble_counts_def)

lemma nibble_count: "d < 16 \<Longrightarrow> nibble_counts 3 (pair_counts 5 d) = nibble_bits d"
proof -
  assume "d < 16"
  then have "d = 0 \<or> d = 1 \<or> d = 2 \<or> d = 3 \<or> d = 4 \<or> d = 5 \<or> d = 6 \<or> d = 7
    \<or> d = 8 \<or> d = 9 \<or> d = 10 \<or> d = 11 \<or> d = 12 \<or> d = 13 \<or> d = 14 \<or> d = 15" by presburger
  then show ?thesis by (elim disjE) (simp_all add: nibble_counts_def pair_counts_def nibble_bits_def bit_0)
qed

lemma nibble_bits_le: "nibble_bits d \<le> 4"
  by (simp add: nibble_bits_def)

lemma digits_value_nibbles: "digits_value 16 (nibbles k n) = n mod 16 ^ k"
proof (induction k arbitrary: n)
  case (Suc k)
  have "[0..<Suc k] = 0 # map Suc [0..<k]" by (simp add: upt_conv_Cons map_Suc_upt del: upt_Suc)
  then have "nibbles (Suc k) n = n mod 16 # nibbles k (n div 16)" by (simp add: nibbles_def comp_def div_mult2_eq del: upt_Suc)
  then show ?case using Suc by (simp add: mod_mult2_eq)
qed (simp add: nibbles_def)

lemma byte_counts_digits:
  "\<forall>(a, b) \<in> set ps. a \<le> 4 \<and> b \<le> 4 \<Longrightarrow>
   byte_counts (digits_value 256 (replicate (length ps) 15)) (digits_value 256 (map (\<lambda>(a, b). a + 16 * b) ps))
     = digits_value 256 (map (\<lambda>(a, b). a + b) ps)"
proof (induction ps)
  case (Cons p ps)
  obtain a b where p: "p = (a, b)" by (cases p)
  let ?q = "digits_value 256 (map (\<lambda>(a, b). a + 16 * b) ps)" and ?m = "digits_value 256 (replicate (length ps) 15)"
  have ab: "a \<le> 4" "b \<le> 4" using Cons.prems p by auto
  have "?q mod 16 \<le> 4" using Cons.prems by (cases ps) (auto simp: mod_add_eq [symmetric] mod_mult_eq)
  then have k: "a + b + 16 * (b + ?q mod 16) < 2 ^ 8" using ab by simp
  have low: "(a + b + 16 * (b + ?q mod 16)) AND 15 = a + b"
    using nat_and_low [of "a + b" 4 15 "b + ?q mod 16"] take_bit_eq_mask [of 4 "a + b"] ab
    by (simp add: take_bit_nat_eq_self mask_eq_exp_minus_1)
  have "(a + 16 * b + 256 * ?q) + (a + 16 * b + 256 * ?q) div 16 = (a + b + 16 * (b + ?q mod 16)) + 2 ^ 8 * (?q + ?q div 16)"
    using ab(1) split_shift [of 16 "a + 16 * b" 16 ?q] by simp
  then have "byte_counts (15 + 2 ^ 8 * ?m) (a + 16 * b + 256 * ?q)
      = ((a + b + 16 * (b + ?q mod 16)) + 2 ^ 8 * (?q + ?q div 16)) AND (15 + 2 ^ 8 * ?m)" by (simp only: byte_counts_def)
  also have "\<dots> = (a + b) + 2 ^ 8 * byte_counts ?m ?q"
    using nat_and_split [OF k, of 15 "?q + ?q div 16" ?m] by (simp only: low byte_counts_def) simp
  finally show ?case using Cons by (simp add: p)
qed (simp add: byte_counts_def)

lemma filter_blocks: "length (filter P [0..<4 * k]) = sum_list (map (\<lambda>i. length (filter P [4 * i..<4 * i + 4])) [0..<k])"
proof (induction k)
  case (Suc k)
  have "[0..<4 * Suc k] = [0..<4 * k] @ [4 * k..<4 * k + 4]" using upt_add_eq_append [of 0 "4 * k" 4] by (simp add: add.commute)
  then show ?case using Suc by simp
qed simp

lemma bit_count_nibbles: "length (bit_positions (v :: u32)) = sum_list (map nibble_bits (nibbles 8 (unat v)))"
proof -
  have bit: "bit (unat v div 16 ^ i mod 16) j \<longleftrightarrow> bit v (4 * i + j)" if "j < 4" for i j
  proof -
    have "unat v div 16 ^ i mod 16 = take_bit 4 (drop_bit (4 * i) (unat v))"
      by (simp add: take_bit_eq_mod drop_bit_eq_div power_mult)
    then show ?thesis using that by (simp add: bit_take_bit_iff bit_drop_bit_eq bit_unsigned_iff)
  qed
  have "length (filter (bit v) [4 * i..<4 * i + 4]) = nibble_bits (unat v div 16 ^ i mod 16)" for i
  proof -
    have "[4 * i..<4 * i + 4] = [4 * i, 4 * i + 1, 4 * i + 2, 4 * i + 3]" by (simp add: upt_conv_Cons)
    then show ?thesis by (simp add: nibble_bits_def bit)
  qed
  then show ?thesis using filter_blocks [of "bit v" 8] by (simp add: bit_positions_def nibbles_def comp_def)
qed

lemma bytes_sum_high:
  fixes a b c d :: nat
  assumes "a \<le> 8" and "b \<le> 8" and "c \<le> 8" and "d \<le> 8"
  shows "(a + 256 * (b + 256 * (c + 256 * d))) * 0x01010101 mod 2 ^ 32 div 2 ^ 24 = a + b + c + d"
proof -
  define low where "low = a + 256 * (a + b) + 65536 * (a + b + c)"
  have "(a + 256 * (b + 256 * (c + 256 * d))) * 0x01010101
      = (2 ^ 24 * (a + b + c + d) + low) + 2 ^ 32 * (b + c + d + 256 * (c + d) + 65536 * d)" by (simp add: low_def)
  then have "(a + 256 * (b + 256 * (c + 256 * d))) * 0x01010101 mod 2 ^ 32 = 2 ^ 24 * (a + b + c + d) + low"
    using assms by (simp only: mod_mult_self2) (simp add: low_def)
  moreover have "low < 2 ^ 24" using assms by (simp add: low_def)
  ultimately show ?thesis by simp
qed

lemma unat_pair_counts: "unat (v - (drop_bit 1 v AND 0x55555555) :: u32) = pair_counts 0x55555555 (unat v)"
proof -
  have w: "unat (drop_bit 1 v AND 0x55555555) = unat v div 2 AND 0x55555555"
    by (simp add: unsigned_and_eq unat_drop_bit_eq drop_bit_eq_div unat_div)
  moreover have "unat v div 2 AND 0x55555555 \<le> unat v" using and_nat_le1 [of "unat v div 2" "0x55555555"] by linarith
  ultimately have "drop_bit 1 v AND 0x55555555 \<le> v" by (simp add: word_le_nat_alt)
  then show ?thesis by (simp only: unat_sub w pair_counts_def)
qed

lemma unat_nibble_counts: "unat ((v AND 0x33333333) + (drop_bit 2 v AND 0x33333333) :: u32) = nibble_counts 0x33333333 (unat v)"
proof -
  have "unat (drop_bit 2 v AND 0x33333333) = unat v div 4 AND 0x33333333"
    by (simp add: unsigned_and_eq unat_drop_bit_eq drop_bit_eq_div unat_div)
  moreover have "unat (v AND 0x33333333) = unat v AND 0x33333333" by (simp add: unsigned_and_eq)
  moreover have "(unat v AND 0x33333333) + (unat v div 4 AND 0x33333333) < 2 ^ 32"
    using and_nat_le1 [of "0x33333333" "unat v"] and_nat_le1 [of "0x33333333" "unat v div 4"] by (simp add: and.commute)
  ultimately show ?thesis by (simp add: unat_word_ariths nibble_counts_def)
qed

lemma unat_byte_counts:
  assumes "unat v \<le> 0x44444444"
  shows "unat ((v + drop_bit 4 v) AND 0x0F0F0F0F :: u32) = byte_counts 0x0F0F0F0F (unat v)"
proof -
  have "unat (drop_bit 4 v) = unat v div 16" by (simp add: unat_drop_bit_eq drop_bit_eq_div unat_div)
  moreover have "unat v + unat v div 16 < 2 ^ 32" using assms by simp
  ultimately show ?thesis by (simp add: unsigned_and_eq unat_word_ariths byte_counts_def)
qed

lemma generic_popcount_eq: "generic_popcount32 v = length (bit_positions v)"
proof -
  define v1 where "v1 = v - (drop_bit 1 v AND 0x55555555)"
  define v2 where "v2 = (v1 AND 0x33333333) + (drop_bit 2 v1 AND 0x33333333)"
  define ds where "ds = nibbles 8 (unat v)"
  have ds: "length ds = 8" "set ds \<subseteq> {..<16}" by (auto simp: ds_def nibbles_def)
  then obtain d0 d1 d2 d3 d4 d5 d6 d7 where l: "ds = [d0, d1, d2, d3, d4, d5, d6, d7]"
    by (auto simp: length_Suc_conv eval_nat_numeral)
  have "unat v < 16 ^ 8" using unsigned_less [of v, where ?'a = nat] by simp
  then have "unat v = digits_value 16 ds" by (simp only: ds_def digits_value_nibbles mod_less)
  moreover have "digits_value 16 (replicate (length ds) 5) = 0x55555555" by (simp add: l)
  ultimately have "unat v1 = digits_value 16 (map (pair_counts 5) ds)"
    using pair_counts_digits [OF ds(2)] by (simp only: v1_def unat_pair_counts)
  moreover have "set (map (pair_counts 5) ds) \<subseteq> {..<16}" using ds(2) by (auto simp: pair_counts_def)
  moreover have "digits_value 16 (replicate (length (map (pair_counts 5) ds)) 3) = 0x33333333" by (simp add: l)
  ultimately have "unat v2 = digits_value 16 (map (nibble_counts 3) (map (pair_counts 5) ds))"
    using nibble_counts_digits [of "map (pair_counts 5) ds"] by (simp only: v2_def unat_nibble_counts)
  also have "\<dots> = digits_value 16 (map nibble_bits ds)" using ds(2) by (auto intro!: arg_cong [where f = "digits_value 16"] nibble_count)
  finally have v2: "unat v2 = digits_value 16 (map nibble_bits ds)" .
  define ps where "ps = [(nibble_bits d0, nibble_bits d1), (nibble_bits d2, nibble_bits d3), (nibble_bits d4, nibble_bits d5), (nibble_bits d6, nibble_bits d7)]"
  have "unat v2 = digits_value 256 (map (\<lambda>(a, b). a + 16 * b) ps)" by (simp add: v2 l ps_def)
  moreover have "digits_value 256 (replicate (length ps) 15) = 0x0F0F0F0F" by (simp add: ps_def)
  ultimately have "byte_counts 0x0F0F0F0F (unat v2) = digits_value 256 (map (\<lambda>(a, b). a + b) ps)"
    using byte_counts_digits [of ps] by (simp add: ps_def nibble_bits_le)
  moreover note le = nibble_bits_le
  have "unat v2 \<le> 0x44444444"
    unfolding v2 l using le [of d0] le [of d1] le [of d2] le [of d3] le [of d4] le [of d5] le [of d6] le [of d7]
    by (simp del: One_nat_def)
  ultimately have "unat ((v2 + drop_bit 4 v2) AND 0x0F0F0F0F) = digits_value 256 (map (\<lambda>(a, b). a + b) ps)" by (simp add: unat_byte_counts)
  moreover have "nibble_bits a + nibble_bits b \<le> 8" for a b using le [of a] le [of b] by simp
  ultimately have "unat (drop_bit 24 (((v2 + drop_bit 4 v2) AND 0x0F0F0F0F) * 0x01010101)) = sum_list (map nibble_bits ds)"
    using bytes_sum_high [of "nibble_bits d0 + nibble_bits d1" "nibble_bits d2 + nibble_bits d3" "nibble_bits d4 + nibble_bits d5" "nibble_bits d6 + nibble_bits d7"]
    by (simp add: ps_def l unat_drop_bit_eq drop_bit_eq_div unat_div unat_word_ariths)
  then show ?thesis by (simp add: generic_popcount32_def Let_def v1_def v2_def bit_count_nibbles ds_def)
qed

section \<open>Copies, sums and comparisons\<close>

text \<open>\<open>updated f n xs\<close> is an array whose first \<open>n\<close> elements have been replaced, element \<open>j\<close> by \<open>f j\<close> of its old value.\<close>

definition updated :: "(nat \<Rightarrow> 'a \<Rightarrow> 'a) \<Rightarrow> nat \<Rightarrow> 'a list \<Rightarrow> 'a list" where
  "updated f n xs = map (\<lambda>j. f j (xs ! j)) [0..<n] @ drop n xs"

lemma length_updated [simp]: "n \<le> length xs \<Longrightarrow> length (updated f n xs) = length xs"
  by (simp add: updated_def)

lemma updated_0 [simp]: "updated f 0 xs = xs"
  by (simp add: updated_def)

lemma nth_updated: "n \<le> length xs \<Longrightarrow> j < length xs \<Longrightarrow> updated f n xs ! j = (if j < n then f j (xs ! j) else xs ! j)"
  by (simp add: updated_def nth_append)

lemma updated_step: "i < length xs \<Longrightarrow> (updated f i xs)[i := f i (xs ! i)] = updated f (Suc i) xs"
  by (rule nth_equalityI) (auto simp: nth_list_update nth_updated)

lemma updated_tail:
  assumes "i \<le> n" and "n \<le> length xs"
  shows "fold (\<lambda>j d. d[j := f j (d ! j)]) [i..<n] (updated f i xs) = updated f n xs"
  using assms
proof (induction "n - i" arbitrary: i)
  case (Suc m)
  then have "[i..<n] = i # [Suc i..<n]" by (simp add: upt_conv_Cons)
  moreover have "updated f i xs ! i = xs ! i" using Suc by (simp add: nth_updated)
  ultimately show ?case using Suc by (simp add: updated_step)
qed simp

lemma updated_block:
  assumes "i + k \<le> length xs" and "length ys = k" and "\<And>j. j < k \<Longrightarrow> ys ! j = f (i + j) (xs ! (i + j))"
  shows "write_at i ys (updated f i xs) = updated f (i + k) xs"
proof (rule nth_equalityI)
  fix j assume "j < length (write_at i ys (updated f i xs))"
  then have "j < length xs" using assms by simp
  then show "write_at i ys (updated f i xs) ! j = updated f (i + k) xs ! j"
    using assms(1,2) assms(3) [of "j - i"] by (auto simp: nth_write_at nth_updated)
qed (use assms in simp)

lemma copy_blocks_updated:
  assumes "length src \<le> length dst" and "i \<le> length src" and "copy_blocks k i (updated (\<lambda>j x. src ! j) i dst) src = (n, dst1)"
  shows "n \<le> length src \<and> dst1 = updated (\<lambda>j x. src ! j) n dst"
  using assms(2,3)
proof (induction "length src - i" arbitrary: i rule: less_induct)
  case less
  show ?case
  proof (cases "0 < k \<and> i + k \<le> length src")
    case True
    then have "write_at i (read_at i k src) (updated (\<lambda>j x. src ! j) i dst) = updated (\<lambda>j x. src ! j) (i + k) dst"
      using assms(1) by (intro updated_block) (auto simp: read_at_def)
    moreover have "length src - (i + k) < length src - i" "i + k \<le> length src" using True by auto
    ultimately show ?thesis using less.prems less.hyps [of "i + k"] True by (simp add: copy_blocks.simps [of k i])
  next
    case False
    then have "copy_blocks k i (updated (\<lambda>j x. src ! j) i dst) src = (i, updated (\<lambda>j x. src ! j) i dst)"
      by (subst copy_blocks.simps) (simp only: if_False)
    then show ?thesis using less.prems by simp
  qed
qed

lemma write_at_updated: "length src \<le> length dst \<Longrightarrow> write_at 0 src dst = updated (\<lambda>j x. src ! j) (length src) dst"
  using updated_block [of 0 "length src" dst src "\<lambda>j x. src ! j"] by simp

lemma vector_memcpy_eq:
  assumes "length src \<le> length dst"
  shows "vector_memcpy k dst src = write_at 0 src dst"
proof -
  obtain n dst1 where b: "copy_blocks k 0 dst src = (n, dst1)" by (cases "copy_blocks k 0 dst src")
  then have "n \<le> length src" "dst1 = updated (\<lambda>j x. src ! j) n dst"
    using copy_blocks_updated [of src dst 0 k n dst1] assms by simp_all
  then show ?thesis
    using updated_tail [of n "length src" dst "\<lambda>j x. src ! j"] assms b by (simp add: vector_memcpy_def copy_bytes_def write_at_updated)
qed

lemma zero_blocks_copy: "zero_blocks k i dst len = copy_blocks k i dst (replicate len 0)"
proof (induction k i dst len rule: zero_blocks.induct)
  case (1 k i dst len)
  show ?case
  proof (cases "0 < k \<and> i + k \<le> len")
    case True
    then have "read_at i k (replicate len (0 :: byte)) = replicate k 0" by (auto simp: read_at_def min_def)
    then show ?thesis using 1 True by (simp add: zero_blocks.simps [of k i] copy_blocks.simps [of k i])
  qed (auto simp: zero_blocks.simps [of k i] copy_blocks.simps [of k i])
qed

lemma vector_memset_eq:
  assumes "len \<le> length dst"
  shows "vector_memset k dst len = write_at 0 (replicate len 0) dst"
proof -
  have "fold (\<lambda>j d. d[j := 0]) [i..<len] d = fold (\<lambda>j d. d[j := replicate len 0 ! j]) [i..<len] d" for i and d :: "byte list"
    by (rule fold_cong) auto
  then have "vector_memset k dst len = vector_memcpy k dst (replicate len 0)"
    by (simp add: vector_memset_def vector_memcpy_def copy_bytes_def zero_blocks_copy)
  then show ?thesis using assms by (simp add: vector_memcpy_eq)
qed

lemma add_blocks_updated:
  assumes "length src \<le> length dst" and "i \<le> length src" and "add_blocks k i (updated (\<lambda>j x. x + src ! j) i dst) src = (n, dst1)"
  shows "n \<le> length src \<and> dst1 = updated (\<lambda>j x. x + src ! j) n dst"
  using assms(2,3)
proof (induction "length src - i" arbitrary: i rule: less_induct)
  case less
  let ?u = "updated (\<lambda>j x. x + src ! j)"
  show ?case
  proof (cases "0 < k \<and> i + k \<le> length src")
    case True
    then have "write_at i (map2 (+) (read_at i k (?u i dst)) (read_at i k src)) (?u i dst) = ?u (i + k) dst"
      using assms(1) by (intro updated_block) (auto simp: read_at_def nth_updated)
    moreover have "length src - (i + k) < length src - i" "i + k \<le> length src" using True by auto
    ultimately show ?thesis using less.prems less.hyps [of "i + k"] True by (simp add: add_blocks.simps [of k i])
  next
    case False
    then have "add_blocks k i (?u i dst) src = (i, ?u i dst)" by (subst add_blocks.simps) (simp only: if_False)
    then show ?thesis using less.prems by simp
  qed
qed

lemma vector_accumulate_eq:
  assumes "length src \<le> length dst"
  shows "vector_accumulate k dst src = accumulate_from 0 dst src"
proof -
  let ?u = "updated (\<lambda>j x. x + src ! j)"
  obtain n dst1 where b: "add_blocks k 0 dst src = (n, dst1)" by (cases "add_blocks k 0 dst src")
  then have "n \<le> length src" "dst1 = ?u n dst" using add_blocks_updated [of src dst 0 k n dst1] assms by simp_all
  then have "vector_accumulate k dst src = ?u (length src) dst"
    using updated_tail [of n "length src" dst "\<lambda>j x. x + src ! j"] assms b by (simp add: vector_accumulate_def accumulate_from_def)
  then show ?thesis using updated_tail [of 0 "length src" dst "\<lambda>j x. x + src ! j"] assms by (simp add: accumulate_from_def)
qed

lemma generic_replay_check_iff: "generic_replay_check window seq \<longleftrightarrow> seq \<in> set window"
  by (induction window) auto

lemma bit_movemask: "length bs \<le> 32 \<Longrightarrow> bit (movemask_epi8 bs) i \<longleftrightarrow> i < length bs \<and> bit (bs ! i) 7"
  by (auto simp: movemask_epi8_def bit_horner_sum_bit_iff)

lemma word_nonzero_bit: "w \<noteq> 0 \<longleftrightarrow> (\<exists>i. bit (w :: 'a::len word) i)"
  by (auto intro: bit_eqI)

lemma movemask_nonzero: "length bs \<le> 32 \<Longrightarrow> movemask_epi8 bs \<noteq> 0 \<longleftrightarrow> (\<exists>b \<in> set bs. bit b 7)"
  by (simp add: word_nonzero_bit bit_movemask Bex_def in_set_conv_nth) metis

lemma bit7_lane: "(\<exists>b \<in> set (le_bytes 8 (if c then - 1 else 0 :: u64)). bit b 7) \<longleftrightarrow> c"
  by (auto simp: le_bytes_def bit_simps intro: exI [of _ 0])

lemma cmpeq_lanes: "set (cmpeq xs (replicate (length xs) y)) = (\<lambda>x. if x = y then - 1 else 0) ` set xs"
  by (induction xs) (auto simp: cmpeq_def)

lemma vector_replay_check_iff:
  assumes "8 * k \<le> 32"
  shows "vector_replay_check k window seq \<longleftrightarrow> seq \<in> set window"
proof (induction "length window" arbitrary: window rule: less_induct)
  case less
  show ?case
  proof (cases "0 < k \<and> k \<le> length window")
    case True
    let ?lanes = "cmpeq (take k window) (replicate k seq)"
    have "length ?lanes = k" using True by (simp add: cmpeq_def)
    then have len: "length (concat (map (le_bytes 8) ?lanes)) \<le> 32"
      using assms by (simp add: length_concat comp_def sum_list_triv)
    have "movemask_epi8 (concat (map (le_bytes 8) ?lanes)) \<noteq> 0 \<longleftrightarrow> (\<exists>l \<in> set ?lanes. \<exists>b \<in> set (le_bytes 8 l). bit b 7)"
      unfolding movemask_nonzero [OF len] by auto
    also have "\<dots> \<longleftrightarrow> (\<exists>x \<in> set (take k window). x = seq)"
      using cmpeq_lanes [of "take k window" seq] True by (simp only: length_take min_absorb2 bex_simps bit7_lane)
    also have "\<dots> \<longleftrightarrow> seq \<in> set (take k window)" by blast
    finally have "movemask_epi8 (concat (map (le_bytes 8) ?lanes)) \<noteq> 0 \<longleftrightarrow> seq \<in> set (take k window)" .
    moreover have "seq \<in> set window \<longleftrightarrow> seq \<in> set (take k window) \<or> seq \<in> set (drop k window)"
      by (metis append_take_drop_id set_append Un_iff)
    moreover have "length (drop k window) < length window" using True by auto
    ultimately show ?thesis using less [of "drop k window"] True by (subst vector_replay_check.simps) auto
  next
    case False
    then show ?thesis by (subst vector_replay_check.simps) (auto simp: generic_replay_check_iff)
  qed
qed

lemma neon_replay_check_iff: "neon_replay_check window seq \<longleftrightarrow> seq \<in> set window"
proof (induction window seq rule: neon_replay_check.induct)
  case (1 window seq)
  show ?case
  proof (cases "2 \<le> length window")
    case True
    then obtain a b ws where w: "window = a # b # ws" by (cases window; cases "tl window") auto
    then show ?thesis using 1 by (subst neon_replay_check.simps) (auto simp: cmpeq_def Let_def numeral_2_eq_2)
  qed (subst neon_replay_check.simps, simp add: generic_replay_check_iff)
qed

lemma cmpeq_nth: "length xs = length ys \<Longrightarrow> i < length xs \<Longrightarrow> cmpeq xs ys ! i = (if xs ! i = ys ! i then - 1 else 0)"
  by (simp add: cmpeq_def)

lemma movemask_addr:
  fixes a b :: "byte list"
  assumes "16 \<le> length a" and "16 \<le> length b" and "16 \<le> len" and "len < 32"
  shows "movemask_epi8 (cmpeq (take 16 a) (take 16 b)) AND (push_bit len 1 - 1) = push_bit len 1 - 1 \<longleftrightarrow> len = 16 \<and> take 16 a = take 16 b"
proof -
  let ?m = "movemask_epi8 (cmpeq (take 16 a) (take 16 b))"
  have l: "length (cmpeq (take 16 a) (take 16 b)) = 16" using assms by (simp add: cmpeq_def)
  have bits: "bit ?m i \<longleftrightarrow> i < 16 \<and> a ! i = b ! i" for i
    using assms l cmpeq_nth [of "take 16 a" "take 16 b" i] by (auto simp: bit_movemask split: if_splits)
  have "push_bit len 1 - 1 = (mask len :: u32)" by (simp add: mask_eq_exp_minus_1)
  moreover have "?m AND mask len = mask len \<longleftrightarrow> (\<forall>i < len. bit ?m i)"
    using assms(4) by (simp add: bit_eq_iff bit_and_iff bit_mask_iff) (meson order.strict_trans)
  ultimately have "?m AND (push_bit len 1 - 1) = push_bit len 1 - 1 \<longleftrightarrow> (\<forall>i < len. bit ?m i)" by simp
  also have "\<dots> \<longleftrightarrow> len = 16 \<and> (\<forall>i < 16. a ! i = b ! i)" using assms(3) by (auto simp: bits dest: spec [of _ 16])
  also have "(\<forall>i < 16. a ! i = b ! i) \<longleftrightarrow> take 16 a = take 16 b" using assms(1,2) by (auto simp: list_eq_iff_nth_eq)
  finally show ?thesis .
qed

lemma neon_min_lanes:
  "fold min (cmpeq xs ys) (0xFF :: byte) = 0xFF \<longleftrightarrow> (\<forall>c \<in> set (cmpeq xs ys). c = - 1)"
proof -
  have m: "c \<le> (0xFF :: byte)" for c using unsigned_less [of c, where ?'a = nat] by (simp add: word_le_nat_alt)
  have "fold min cs (x :: byte) = 0xFF \<longleftrightarrow> x = 0xFF \<and> (\<forall>c \<in> set cs. c = 0xFF)" for cs x
  proof (induction cs arbitrary: x)
    case (Cons c cs)
    have "min c x = 0xFF \<longleftrightarrow> c = 0xFF \<and> x = 0xFF" using m [of c] m [of x] by (auto simp: min_def split: if_splits)
    then show ?case using Cons by auto
  qed simp
  moreover have "(- 1 :: byte) = 0xFF" by simp
  ultimately show ?thesis by (simp only: simp_thms)
qed

lemma neon_addr:
  fixes a b :: "byte list"
  assumes "16 \<le> length a" and "16 \<le> length b"
  shows "fold min (cmpeq (take 16 a) (take 16 b)) 0xFF = 0xFF \<longleftrightarrow> take 16 a = take 16 b"
proof -
  have "length (cmpeq (take 16 a) (take 16 b)) = 16" using assms by (simp add: cmpeq_def)
  then have "(\<forall>c \<in> set (cmpeq (take 16 a) (take 16 b)). c = - 1) \<longleftrightarrow> (\<forall>i < 16. a ! i = b ! i)"
    using assms cmpeq_nth [of "take 16 a" "take 16 b"] by (auto simp: all_set_conv_all_nth)
  then show ?thesis using assms by (auto simp: neon_min_lanes list_eq_iff_nth_eq)
qed

section \<open>All tables compute the same functions\<close>

definition ops_correct :: "SimdOps \<Rightarrow> bool" where
  "ops_correct ops \<longleftrightarrow>
     (\<forall>data. so_crc32c ops data = crc32c_bitwise data)
   \<and> (\<forall>aligned dst src. length src \<le> length dst \<longrightarrow> so_memcpy_nt ops aligned dst src = src @ drop (length src) dst)
   \<and> (\<forall>aligned dst len. len \<le> length dst \<longrightarrow> so_memset_zero ops aligned dst len = replicate len 0 @ drop len dst)
   \<and> (\<forall>bits. so_ack_bits_scan ops bits = bit_positions bits \<and> so_popcount32 ops bits = length (bit_positions bits))
   \<and> (\<forall>window seq. so_replay_check ops window seq \<longleftrightarrow> seq \<in> set window)
   \<and> (\<forall>received n. so_fragment_bitmask_complete ops received n \<longleftrightarrow> (\<forall>i < n. bit (received ! (i div 8)) (i mod 8)))
   \<and> (\<forall>received n. let j = so_fragment_next_missing ops received n
        in if \<forall>i < n. bit (received ! (i div 8)) (i mod 8) then j = - 1
           else 0 \<le> j \<and> j < int n \<and> \<not> bit (received ! (nat j div 8)) (nat j mod 8) \<and> (\<forall>i < nat j. bit (received ! (i div 8)) (i mod 8)))
   \<and> (\<forall>dst src. length src \<le> length dst \<longrightarrow> so_accumulate_u64 ops dst src = map2 (+) dst src @ drop (length src) dst)
   \<and> (\<forall>a b len. len \<le> 16 \<and> len \<le> length a \<and> len \<le> length b \<longrightarrow> (so_addr_equal ops a b len \<longleftrightarrow> take len a = take len b))"

lemma mask_bit_clear_iff: "mask_bit_clear received i \<longleftrightarrow> \<not> bit (received ! (i div 8)) (i mod 8)"
proof -
  have "mask_bit_clear received i \<longleftrightarrow> \<not> bit (ucast (received ! (i div 8)) :: u32) (i mod 8)"
    unfolding mask_bit_clear_def bit_iff_and_push_bit_not_eq_0 by simp
  moreover have "i mod 8 < 32" using mod_less_divisor [of 8 i] by linarith
  ultimately show ?thesis by (simp add: bit_ucast_iff)
qed

lemma fragment_complete_iff: "generic_fragment_bitmask_complete received n \<longleftrightarrow> (\<forall>i < n. bit (received ! (i div 8)) (i mod 8))"
  by (auto simp: generic_fragment_bitmask_complete_def find_None_iff find_Some_iff mask_bit_clear_iff split: option.split)

lemma fragment_next_missing_eq:
  "let j = generic_fragment_next_missing received n
   in if \<forall>i < n. bit (received ! (i div 8)) (i mod 8) then j = - 1
      else 0 \<le> j \<and> j < int n \<and> \<not> bit (received ! (nat j div 8)) (nat j mod 8) \<and> (\<forall>i < nat j. bit (received ! (i div 8)) (i mod 8))"
proof (cases "List.find (mask_bit_clear received) [0..<n]")
  case None
  then have "\<forall>i < n. bit (received ! (i div 8)) (i mod 8)" by (simp add: find_None_iff mask_bit_clear_iff)
  then show ?thesis by (simp add: generic_fragment_next_missing_def None)
next
  case (Some i)
  then have "i < n" "\<not> bit (received ! (i div 8)) (i mod 8)" "\<forall>j < i. bit (received ! (j div 8)) (j mod 8)"
    by (auto simp: find_Some_iff mask_bit_clear_iff)
  then show ?thesis using Some by (auto simp: generic_fragment_next_missing_def)
qed

lemma accumulate_eq:
  assumes "length src \<le> length dst"
  shows "accumulate_from 0 dst src = map2 (+) dst src @ drop (length src) dst"
proof -
  have "accumulate_from 0 dst src = updated (\<lambda>j x. x + src ! j) (length src) dst"
    using updated_tail [of 0 "length src" dst "\<lambda>j x. x + src ! j"] assms by (simp add: accumulate_from_def)
  moreover have "map (\<lambda>j. dst ! j + src ! j) [0..<length src] = map2 (+) dst src"
    using assms by (intro nth_equalityI) simp_all
  ultimately show ?thesis by (simp add: updated_def)
qed

lemmas table_ops = generic_memcpy_nt_def generic_memset_zero_def generic_accumulate_u64_def generic_addr_equal_def
  sse42_memcpy_nt_def sse42_memset_zero_def sse42_ack_bits_scan_def sse42_popcount32_def sse42_replay_check_def
  sse42_accumulate_u64_def avx2_memcpy_nt_def avx2_memset_zero_def avx2_replay_check_def avx2_accumulate_u64_def
  neon_memcpy_nt_def neon_memset_zero_def neon_ack_bits_scan_def neon_accumulate_u64_def write_at_def

lemmas table_facts = generic_crc32c_eq sse42_crc32c_eq neon_crc32c_eq generic_scan_positions scan_bits_positions
  generic_popcount_eq generic_replay_check_iff vector_replay_check_iff neon_replay_check_iff fragment_complete_iff
  fragment_next_missing_eq vector_memcpy_eq vector_memset_eq vector_accumulate_eq accumulate_eq

lemma isa_popcount: "isa_ok isa \<Longrightarrow> i_popcnt isa v = length (bit_positions v)"
  by (simp add: isa_ok_def)

lemma neon_popcount_eq:
  assumes "isa_ok isa"
  shows "neon_popcount32 isa v = length (bit_positions v)"
proof -
  have high: "\<not> bit v j" if "32 \<le> j" for j using that bit_imp_le_length [of v j] by auto
  have "le_bytes 8 (ucast v :: u64) = le_bytes 4 v @ [0, 0, 0, 0]"
    by (rule nth_equalityI) (auto simp: nth_append nth_le_bytes nth_Cons' high bit_simps intro!: bit_word_eqI)
  moreover have "i_vcnt isa = (\<lambda>b. of_nat (length (bit_positions b)))" using assms by (simp add: isa_ok_def fun_eq_iff)
  moreover have "sum_list (map (\<lambda>b. of_nat (g b) :: byte) bs) = of_nat (sum_list (map g bs))" for g and bs :: "byte list"
    by (induction bs) simp_all
  moreover have "bit_positions (0 :: byte) = []" by (simp add: bit_positions_def)
  ultimately have "sum_list (map (i_vcnt isa) (le_bytes 8 (ucast v :: u64))) = of_nat (sum_list (map (\<lambda>b. length (bit_positions b)) (le_bytes 4 v)))"
    by simp
  moreover have "length (bit_positions v) < 256" unfolding bit_positions_def by (rule le_less_trans [OF length_filter_le]) simp
  ultimately show ?thesis by (simp add: neon_popcount32_def bit_count_bytes [symmetric] unsigned_of_nat take_bit_nat_eq_self)
qed

lemma addr_equal_eq:
  fixes a b :: "byte list"
  assumes "len \<le> 16" and "len \<le> length a" and "len \<le> length b"
  shows "sse42_addr_equal a b len \<longleftrightarrow> take len a = take len b"
    and "avx2_addr_equal a b len \<longleftrightarrow> take len a = take len b"
    and "neon_addr_equal a b len \<longleftrightarrow> take len a = take len b"
  using assms movemask_addr [of a b len] neon_addr [of a b]
  by (auto simp: sse42_addr_equal_def avx2_addr_equal_def neon_addr_equal_def Let_def simp del: push_bit_of_1)

lemma ops_correct_tables:
  assumes "isa_ok isa"
  shows "ops_correct g_ops_generic" "ops_correct (g_ops_sse42 isa x64)" "ops_correct (g_ops_avx2 isa x64)" "ops_correct (g_ops_neon isa f)"
  unfolding ops_correct_def g_ops_generic_def g_ops_sse42_def g_ops_avx2_def g_ops_neon_def
  using assms by (simp_all add: table_ops table_facts isa_popcount neon_popcount_eq addr_equal_eq)

text \<open>
  C38. Whatever the processor reports, the table that is chosen computes what the portable code computes: the Castagnoli checksum
  of the data, the copy and the clearing of a buffer whether it is aligned or not, the positions and the number of the set bits, membership in
  the replay window, completeness and the first gap of a fragment mask, sums of counters and, up to sixteen bytes, equality of addresses.
\<close>

theorem simd_tables_agree:
  assumes "isa_ok isa"
  shows "ops_correct (snd (detect_and_set arch feature_crc32 cpuid isa))"
  using ops_correct_tables [OF assms] by (auto simp: detect_and_set_def Let_def split: netudp_simd_level.split)

definition reference_isa :: simd_isa where
  "reference_isa = \<lparr>i_crc32_u8 = crc_byte, i_crc32_u32 = (\<lambda>c w. foldl crc_byte c (le_bytes 4 w)),
     i_crc32_u64 = (\<lambda>c w. ucast (foldl crc_byte (ucast c) (le_bytes 8 w))),
     i_tzcnt = (\<lambda>v. case List.find (bit v) [0..<32] of Some i \<Rightarrow> i | None \<Rightarrow> 32),
     i_popcnt = (\<lambda>v. length (bit_positions v)), i_vcnt = (\<lambda>b. of_nat (length (bit_positions b)))\<rparr>"

lemma reference_isa_ok: "isa_ok reference_isa"
proof -
  have "bit v (i_tzcnt reference_isa v) \<and> (\<forall>i < i_tzcnt reference_isa v. \<not> bit v i)" if "v \<noteq> 0" for v :: u32
  proof -
    obtain n where n: "bit v n" using \<open>v \<noteq> 0\<close> word_nonzero_bit [of v] by metis
    moreover have "n < 32" using bit_imp_le_length [OF n] by simp
    ultimately obtain t where t: "List.find (bit v) [0..<32] = Some t" by (cases "List.find (bit v) [0..<32]") (auto simp: find_None_iff)
    then have "bit v t" "\<forall>i < t. \<not> bit v i" by (auto simp: find_Some_iff)
    then show ?thesis by (simp add: reference_isa_def t)
  qed
  then show ?thesis by (simp add: isa_ok_def) (simp add: reference_isa_def)
qed

theorem simd_tables_agree_witness:
  "let (level, ops) = detect_and_set Arch_x64 False (\<lambda>f. if f = 0 then (7, 0, 0, 0) else if f = 7 then (0, 32, 0, 0) else (0, 0, 0, 0)) reference_isa
   in level = NETUDP_SIMD_AVX2 \<and> ops_correct ops"
  using simd_tables_agree [OF reference_isa_ok, of Arch_x64 False "\<lambda>f. if f = 0 then (7, 0, 0, 0) else if f = 7 then (0, 32, 0, 0) else (0, 0, 0, 0)"]
  by (simp add: detect_and_set_def detect_x86_def Let_def)

text \<open>
  Beyond sixteen bytes the vector comparisons are wrong: two equal ranges are reported different by the x86 tables, and bytes after
  the sixteenth are ignored by the NEON table. The only caller compares ranges of four and sixteen bytes.
\<close>

lemma addr_equal_long:
  assumes "16 < len" and "len < 31" and "len \<le> length a"
  shows "\<not> sse42_addr_equal a a len" "\<not> avx2_addr_equal a a len" "neon_addr_equal a (take 16 a @ b) len"
  using assms movemask_addr [of a a len] neon_addr [of a "take 16 a @ b"]
  by (auto simp: sse42_addr_equal_def avx2_addr_equal_def neon_addr_equal_def Let_def simp del: push_bit_of_1)

end
