(* ===== verification/Spec2Isabelle.thy ===== *)
theory Spec2Isabelle
  imports Netudp_Prelude Ring_Buffer Packet_Tracker Packet_Crypto Reliable_Channel Channel Fragment Flow_Control
    Hash_Map Address Rate_Limiter Connect_Token Frame Connection Message_Path Group Pipeline_Queue Network_Sim Replication
    Server Server_Inv Server_Api Server_Run Client Handshake Buffer_Api Simd
begin

text \<open>
  A verification library of netudp, a UDP transport for games (\<^verbatim>\<open>src/src\<close>, \<^verbatim>\<open>src/include\<close>).

  \<^bold>\<open>The program.\<close> A client obtains a connect token from a service that shares a key with the server, sends it in a
  connection request, and is given a slot. From then on both ends exchange encrypted packets. A packet carries
  acknowledgement fields and frames; a frame carries a message of a channel or a fragment of one. Channels queue messages, hold small ones back
  for a while and, when they are reliable, buffer them until they are acknowledged. A scheduler picks the channel to send from, a token bucket and a congestion
  controller limit the rate. The server has a table of slots, a map from addresses to slots, rate limiting, an attack monitor,
  groups of clients and replicated entities, and can spread its work over threads that exchange packets through queues.

  \<^bold>\<open>Conventions.\<close> Structures are records with the fields of the source behind a short prefix, enumerations are datatypes, unsigned
  integers are words of their width, \<^verbatim>\<open>double\<close> is \<open>real\<close>, and \<^verbatim>\<open>float\<close> is a rational rounded to 24 bits or the
  bit pattern. An operation takes the state and gives the new one. What the code does outside the language's rules (a null
  dereference, a write past an array) is \<open>None\<close> or an explicit outcome. Ciphers, key derivation, keyed hash, random bytes, clock, allocation,
  processor instructions and the packets on a socket are arguments; what is assumed of them is a named predicate or locale
  (\<open>aead\<close> in \<^verbatim>\<open>Aead\<close>, \<open>isa_ok\<close> in \<^verbatim>\<open>Simd\<close>) that a concrete instance is shown to satisfy.

  \<^bold>\<open>Theories and what they show.\<close>
  \<^item> \<^verbatim>\<open>Netudp_Prelude\<close>: integers in byte buffers, 16-bit sequence arithmetic, index masks.
  \<^item> \<^verbatim>\<open>Ring_Buffer\<close> (\<^verbatim>\<open>core/ring_buffer.h\<close>): the locale \<open>bounded_fifo\<close> and its interpretation; channels and the server's
    delivery queues rest on it.
  \<^item> \<^verbatim>\<open>Packet_Tracker\<close> (\<^verbatim>\<open>reliability/packet_tracker.h\<close>): what the acknowledgement fields tell the sender, end to end, and that the window edge advances.
  \<^item> \<^verbatim>\<open>Replay\<close>, \<^verbatim>\<open>Aead\<close>, \<^verbatim>\<open>Packet_Crypto\<close> (\<^verbatim>\<open>crypto/replay.h\<close>, \<^verbatim>\<open>aead_dispatch.cpp\<close>, \<^verbatim>\<open>packet_crypto.cpp\<close>): no nonce is accepted
    twice or used twice, a packet opens once, both ends agree after a change of keys.
  \<^item> \<^verbatim>\<open>Reliable_Channel\<close> (\<^verbatim>\<open>reliability/reliable_channel.h\<close>): ordered delivery is a prefix of the peer's stream, complete up to
    the first gap; retransmission returns the due messages; what a full send buffer does.
  \<^item> \<^verbatim>\<open>Channel\<close> (\<^verbatim>\<open>channel/channel.h\<close>): the invariant of a channel under every operation, state updates that replace each other, and the
    scheduler's masked scan against the plain one.
  \<^item> \<^verbatim>\<open>Fragment\<close> (\<^verbatim>\<open>fragment/fragment.h\<close>): reassembly of interleaved messages refines a map from identifiers to sets of fragments.
  \<^item> \<^verbatim>\<open>Flow_Control\<close> (\<^verbatim>\<open>reliability/rtt.h\<close>, \<^verbatim>\<open>bandwidth/bandwidth.h\<close>, \<^verbatim>\<open>connection/ddos.h\<close>): bounds of the rate, the tokens, the timeout, and
    the attack monitor's return to normal.
  \<^item> \<^verbatim>\<open>Hash_Map\<close> (\<^verbatim>\<open>core/hash_map.h\<close>): the locale \<open>capped_map\<close>; open addressing with backward-shift deletion answers as a finite map. \<^verbatim>\<open>Rate_Limiter\<close>
    and \<^verbatim>\<open>Server\<close> use it through the locale.
  \<^item> \<^verbatim>\<open>Address\<close>, \<^verbatim>\<open>Rate_Limiter\<close>, \<^verbatim>\<open>Connect_Token\<close>, \<^verbatim>\<open>Frame\<close> (\<^verbatim>\<open>core/address.cpp\<close>, \<^verbatim>\<open>connection/rate_limiter.h\<close>,
    \<^verbatim>\<open>connection/connect_token.cpp\<close>, \<^verbatim>\<open>wire/frame.h\<close>): round trips of addresses and tokens, and the bound on admitted packets.
  \<^item> \<^verbatim>\<open>Connection\<close>, \<^verbatim>\<open>Message_Path\<close> (\<^verbatim>\<open>connection/connection.h\<close>, \<^verbatim>\<open>stats/stats.h\<close>, the packet paths of \<^verbatim>\<open>server.cpp\<close> and \<^verbatim>\<open>client.cpp\<close>): what
    a client flushes is what the server delivers; what a lost packet and an oversized frame do.
  \<^item> \<^verbatim>\<open>Group\<close> (\<^verbatim>\<open>group/group.h\<close>): the locale \<open>slot_set\<close>; a group is a bounded set.
  \<^item> \<^verbatim>\<open>Pipeline_Queue\<close> (\<^verbatim>\<open>server.cpp\<close>): one producer and one consumer in any interleaving of their loads and stores.
  \<^item> \<^verbatim>\<open>Network_Sim\<close> (\<^verbatim>\<open>sim/network_sim.cpp\<close>), \<^verbatim>\<open>Replication\<close> (\<^verbatim>\<open>replication\<close>): packets are neither invented nor early; an update reads
    back up to quantization.
  \<^item> \<^verbatim>\<open>Server\<close>, \<^verbatim>\<open>Server_Inv\<close>, \<^verbatim>\<open>Server_Api\<close>, \<^verbatim>\<open>Server_Run\<close> (\<^verbatim>\<open>server.cpp\<close>): every operation of the server, its invariant, and the
    invariant and the shape of its tables in every run (\<open>srv_step\<close>).
  \<^item> \<^verbatim>\<open>Client\<close>, \<^verbatim>\<open>Handshake\<close> (\<^verbatim>\<open>client.cpp\<close>, \<^verbatim>\<open>connection/client_state.h\<close>): the client with the invariant of its runs (\<open>cli_step\<close>), and the
    handshake from a generated token to paired keys at both ends.
  \<^item> \<^verbatim>\<open>Buffer_Api\<close> (\<^verbatim>\<open>api.cpp\<close>): message buffers, their pool and batch sending; what is written reads back.
  \<^item> \<^verbatim>\<open>Simd\<close> (\<^verbatim>\<open>simd\<close>, \<^verbatim>\<open>crypto/crc32c.cpp\<close>): the four dispatch tables compute the same functions; the checksum table is right.

  \<^bold>\<open>Loops.\<close> Loops over arrays are recursion on a list or an index with a termination proof. The deletion loop of the hash map and the
  server's timeout loop, whose ends depend on the data, are partial functions, and that they return is proved from the
  invariants (\<open>hm_remove_loop_returns\<close>, \<open>timeout_loop_returns\<close>). No fuel is used.
\<close>

end
